(* ===== verification/Prelude.thy ===== *)
theory Prelude
  imports Main "HOL-Library.Word"
begin

text \<open>
  The vocabulary every component shares: the machine types of the C code, the faults
  that stand for undefined or non-returning behaviour, sequencing of fallible steps,
  and the generic lemmas on words and lists that the component proofs use.
\<close>

unbundle bit_operations_syntax

section \<open>Machine types\<close>

type_synonym u8 = "8 word"
type_synonym u16 = "16 word"
type_synonym u32 = "32 word"
type_synonym u64 = "64 word"

section \<open>Faults\<close>

text \<open>
  Where C leaves the behaviour undefined, or the code never returns, the model returns
  a value of this type instead of a result. \<open>Diverges\<close> is a loop whose state no longer
  changes while its guard still holds.
\<close>

datatype fault =
    SignedOverflow   \<comment> \<open>a signed result that does not fit its type\<close>
  | OutOfBounds      \<comment> \<open>an access outside the object a pointer belongs to\<close>
  | DivByZero
  | BadShift         \<comment> \<open>a shift count of at least the width of the operand\<close>
  | BadVararg        \<comment> \<open>a \<open>va_arg\<close> that finds no argument, or one of another kind\<close>
  | Diverges

type_synonym 'a res = "fault + 'a"

definition rbind :: "'a res \<Rightarrow> ('a \<Rightarrow> 'b res) \<Rightarrow> 'b res" where
  "rbind m f = (case m of Inl e \<Rightarrow> Inl e | Inr x \<Rightarrow> f x)"

lemma rbind_simps [simp]:
  "rbind (Inl e) f = Inl e"
  "rbind (Inr x) f = f x"
  by (simp_all add: rbind_def)

lemma rbind_cong [fundef_cong]:
  "m = m' \<Longrightarrow> (\<And>x. m' = Inr x \<Longrightarrow> f x = g x) \<Longrightarrow> rbind m f = rbind m' g"
  by (auto simp: rbind_def split: sum.splits)

lemma rbind_eq_Inr: "rbind m f = Inr y \<longleftrightarrow> (\<exists>x. m = Inr x \<and> f x = Inr y)"
  by (cases m) auto

lemma rbind_eq_Inl:
  "rbind m f = Inl e \<longleftrightarrow> m = Inl e \<or> (\<exists>x. m = Inr x \<and> f x = Inl e)"
  by (cases m) auto

lemma rbind_assoc: "rbind (rbind m f) g = rbind m (\<lambda>x. rbind (f x) g)"
  by (cases m) auto

text \<open>A fallible step for each element of a list, in order, stopping at the first fault.\<close>

primrec mfold :: "('x \<Rightarrow> 's \<Rightarrow> 's res) \<Rightarrow> 'x list \<Rightarrow> 's \<Rightarrow> 's res" where
  "mfold f [] s = Inr s"
| "mfold f (x # xs) s = rbind (f x s) (mfold f xs)"

lemma mfold_append: "mfold f (xs @ ys) s = rbind (mfold f xs s) (mfold f ys)"
  by (induction xs arbitrary: s) (simp_all add: rbind_def split: sum.split)

lemma mfold_pure: "(\<And>x s. x \<in> set xs \<Longrightarrow> f x s = Inr (g x s)) \<Longrightarrow> mfold f xs s = Inr (fold g xs s)"
  by (induction xs arbitrary: s) auto

lemma mfold_inv:
  assumes "mfold f xs s = Inr s'" and "I s"
    and "\<And>x s s'. x \<in> set xs \<Longrightarrow> I s \<Longrightarrow> f x s = Inr s' \<Longrightarrow> I s'"
  shows "I s'"
  using assms by (induction xs arbitrary: s) (auto simp: rbind_eq_Inr)

section \<open>Code that may not return\<close>

text \<open>\<open>None\<close> is a call that never returns: its loop waits for a device, or for the firmware.\<close>

type_synonym 'a run = "'a res option"

definition obind :: "'a run \<Rightarrow> ('a \<Rightarrow> 'b run) \<Rightarrow> 'b run" where
  "obind m f = (case m of None \<Rightarrow> None | Some (Inl e) \<Rightarrow> Some (Inl e) | Some (Inr x) \<Rightarrow> f x)"

lemma obind_simps [simp]:
  "obind None f = None"
  "obind (Some (Inl e)) f = Some (Inl e)"
  "obind (Some (Inr x)) f = f x"
  by (simp_all add: obind_def)

lemma obind_eq_Inr: "obind m f = Some (Inr y) \<longleftrightarrow> (\<exists>x. m = Some (Inr x) \<and> f x = Some (Inr y))"
  by (auto simp: obind_def split: option.splits sum.splits)

lemma obind_cong [fundef_cong]:
  "m = m' \<Longrightarrow> (\<And>x. m' = Some (Inr x) \<Longrightarrow> f x = g x) \<Longrightarrow> obind m f = obind m' g"
  by (auto simp: obind_def split: option.splits sum.splits)

section \<open>Signed C integers\<close>

text \<open>
  A C \<open>int\<close> is modelled as an \<open>int\<close> in the range of the type; each signed operation
  checks its result. Conversions from wider or unsigned types wrap (two's complement),
  which is what the compiler defines.
\<close>

definition INT_MAX :: int where "INT_MAX = 2147483647"
definition INT_MIN :: int where "INT_MIN = -2147483648"
definition LLONG_MAX :: int where "LLONG_MAX = 9223372036854775807"
definition LLONG_MIN :: int where "LLONG_MIN = -9223372036854775808"

definition c_int :: "int \<Rightarrow> int res" where
  "c_int x = (if INT_MIN \<le> x \<and> x \<le> INT_MAX then Inr x else Inl SignedOverflow)"

definition c_llong :: "int \<Rightarrow> int res" where
  "c_llong x = (if LLONG_MIN \<le> x \<and> x \<le> LLONG_MAX then Inr x else Inl SignedOverflow)"

definition int_of_u64 :: "u64 \<Rightarrow> int" where
  "int_of_u64 w = sint (ucast w :: u32)"

lemma c_int_Inr: "c_int x = Inr y \<longleftrightarrow> y = x \<and> INT_MIN \<le> x \<and> x \<le> INT_MAX"
  by (auto simp: c_int_def)

lemma c_int_ok [simp]: "INT_MIN \<le> x \<Longrightarrow> x \<le> INT_MAX \<Longrightarrow> c_int x = Inr x"
  by (simp add: c_int_def)

lemma c_llong_Inr: "c_llong x = Inr y \<longleftrightarrow> y = x \<and> LLONG_MIN \<le> x \<and> x \<le> LLONG_MAX"
  by (auto simp: c_llong_def)

lemma c_llong_ok [simp]: "LLONG_MIN \<le> x \<Longrightarrow> x \<le> LLONG_MAX \<Longrightarrow> c_llong x = Inr x"
  by (simp add: c_llong_def)

text \<open>Conversion to \<open>int\<close> of a value in range.\<close>

lemma sint_u32_small: "INT_MIN \<le> k \<Longrightarrow> k \<le> INT_MAX \<Longrightarrow> sint (word_of_int k :: u32) = k"
  unfolding sint_sbintrunc' by (rule signed_take_bit_int_eq_self) (simp_all add: INT_MIN_def INT_MAX_def)

lemma ucast_u32_of_nat: "n < 2 ^ 32 \<Longrightarrow> (ucast (of_nat n :: u64) :: u32) = of_nat n"
  by (simp add: word_unat_eq_iff unat_of_nat take_bit_nat_eq_self unsigned_ucast_eq)

section \<open>Buffers\<close>

text \<open>
  A C array that a pointer walks over is a list of bytes; a pointer into it is an
  offset. Reads and writes outside the array fault.
\<close>

definition rd :: "'a list \<Rightarrow> nat \<Rightarrow> 'a res" where
  "rd buf i = (if i < length buf then Inr (buf ! i) else Inl OutOfBounds)"

definition wr :: "'a list \<Rightarrow> nat \<Rightarrow> 'a \<Rightarrow> 'a list res" where
  "wr buf i v = (if i < length buf then Inr (buf[i := v]) else Inl OutOfBounds)"

lemma rd_ok [simp]: "i < length buf \<Longrightarrow> rd buf i = Inr (buf ! i)"
  by (simp add: rd_def)

lemma wr_ok [simp]: "i < length buf \<Longrightarrow> wr buf i v = Inr (buf[i := v])"
  by (simp add: wr_def)

lemma rd_out [simp]: "length buf \<le> i \<Longrightarrow> rd buf i = Inl OutOfBounds"
  by (simp add: rd_def)

lemma wr_out [simp]: "length buf \<le> i \<Longrightarrow> wr buf i v = Inl OutOfBounds"
  by (simp add: wr_def)

section \<open>Collections of facts\<close>

named_theorems mem_simps \<open>reads of byte memory after a write\<close>
named_theorems frame_simps \<open>fields an operation does not change\<close>
named_theorems pte_simps \<open>bits and fields of a page table entry\<close>

section \<open>Words\<close>

lemma unat_plus_nowrap:
  "unat a + unat b < 2 ^ LENGTH('a) \<Longrightarrow> unat (a + b :: 'a::len word) = unat a + unat b"
  by (simp add: unat_word_ariths)

lemma unat_of_nat_small: "n < 2 ^ LENGTH('a) \<Longrightarrow> unat (of_nat n :: 'a::len word) = n"
  by (simp add: unat_of_nat take_bit_nat_eq_self)

lemma unat_mult_nowrap:
  "unat a * unat b < 2 ^ LENGTH('a) \<Longrightarrow> unat (a * b :: 'a::len word) = unat a * unat b"
  by (simp add: unat_word_ariths)

lemma unat_minus_le: "b \<le> a \<Longrightarrow> unat (a - b :: 'a::len word) = unat a - unat b"
  by (metis unat_sub)

lemma and_bit_nonzero:
  "n < LENGTH('a) \<Longrightarrow> (w AND push_bit n 1 \<noteq> (0 :: 'a::len word)) \<longleftrightarrow> bit w n"
proof -
  assume n: "n < LENGTH('a)"
  have "bit (w AND push_bit n 1) i \<longleftrightarrow> i = n \<and> bit w n" for i
    using n by (auto simp: bit_and_iff bit_exp_iff)
  then have "w AND push_bit n 1 = 0 \<longleftrightarrow> \<not> bit w n"
    by (metis bit_0_eq bot_apply bot_bool_def bit_word_eqI)
  then show ?thesis by blast
qed

lemma bit_or_flag:
  "bit (w OR push_bit n 1 :: 'a::len word) i \<longleftrightarrow> (i = n \<and> n < LENGTH('a)) \<or> bit w i"
  by (auto simp: bit_or_iff bit_exp_iff)

lemma bit_and_not_flag:
  "bit (w AND NOT (push_bit n 1) :: 'a::len word) i \<longleftrightarrow> i \<noteq> n \<and> bit w i"
  by (auto simp: bit_and_iff bit_not_iff bit_exp_iff dest: bit_imp_le_length)

lemma bit_ucast_u32: "bit (ucast (w :: u32) :: u64) n \<longleftrightarrow> bit w n"
  by (auto simp: bit_ucast_iff dest: bit_imp_le_length)

lemma and_eq_right_bits: "(a AND b = (b :: 'a::len word)) \<longleftrightarrow> (\<forall>n. bit b n \<longrightarrow> bit a n)"
  by (metis bit_and_iff bit_word_eqI)

end
