(* ===== verification/CString.thy ===== *)
theory CString
  imports Prelude "HOL-Library.List_Lexorder"
begin

text \<open>
  The C string functions of \<open>string.c\<close>. A string lies in a buffer (a list of bytes) at an
  offset and ends at the first 0; every access of the code is a checked access to the
  buffer.
\<close>

section \<open>The functions\<close>

text \<open>\<open>for (s = str; *s; ++s);\<close>, and the difference of the pointers.\<close>

function strlen_loop :: "u8 list \<Rightarrow> nat \<Rightarrow> nat res" where
  "strlen_loop buf s =
     rbind (rd buf s) (\<lambda>c. if c \<noteq> 0 then strlen_loop buf (Suc s) else Inr s)"
  by pat_completeness auto
termination
  by (relation "measure (\<lambda>(buf, s). length buf - s)") (auto simp: rd_def split: if_splits)

declare strlen_loop.simps [simp del]

definition strlen :: "u8 list \<Rightarrow> nat \<Rightarrow> u64 res" where
  "strlen buf str = rbind (strlen_loop buf str) (\<lambda>s. Inr (of_nat (s - str)))"

text \<open>The loop of \<open>strrev\<close> with its two \<open>int\<close> indices.\<close>

function strrev_loop :: "u8 list \<Rightarrow> nat \<Rightarrow> int \<Rightarrow> int \<Rightarrow> u8 list res" where
  "strrev_loop buf str i j =
     (if i < j
      then rbind (rd buf (str + nat i)) (\<lambda>a.
           rbind (rd buf (str + nat j)) (\<lambda>b.
           rbind (wr buf (str + nat i) b) (\<lambda>buf.
           rbind (wr buf (str + nat j) a) (\<lambda>buf.
             strrev_loop buf str (i + 1) (j - 1)))))
      else Inr buf)"
  by pat_completeness auto
termination
  by (relation "measure (\<lambda>(buf, str, i, j). nat (j - i))") auto

declare strrev_loop.simps [simp del]

text \<open>\<open>len\<close> is an \<open>unsigned\<close>, \<open>j\<close> the \<open>int\<close> it converts to after subtracting 1.\<close>

definition strrev :: "u8 list \<Rightarrow> nat \<Rightarrow> u8 list res" where
  "strrev buf str =
     rbind (strlen buf str) (\<lambda>n. let len = ucast n :: u32 in strrev_loop buf str 0 (sint (len - 1)))"

function strcmp :: "u8 list \<Rightarrow> nat \<Rightarrow> u8 list \<Rightarrow> nat \<Rightarrow> int res" where
  "strcmp b1 s1 b2 s2 =
     rbind (rd b1 s1) (\<lambda>c1. rbind (rd b2 s2) (\<lambda>c2.
       if c1 = c2
       then if c1 = 0 then Inr 0 else strcmp b1 (Suc s1) b2 (Suc s2)
       else Inr (uint c1 - uint c2)))"
  by pat_completeness auto
termination
  by (relation "measure (\<lambda>(b1, s1, b2, s2). length b1 - s1)") (auto simp: rd_def split: if_splits)

declare strcmp.simps [simp del]

text \<open>\<open>strtok\<close>: whether a character is one of the delimiters (the inner \<open>for\<close>).\<close>

function is_delim :: "u8 list \<Rightarrow> nat \<Rightarrow> u8 \<Rightarrow> bool res" where
  "is_delim delim spanp c =
     rbind (rd delim spanp) (\<lambda>sc.
       if sc = 0 then Inr False
       else if c = sc then Inr True
       else is_delim delim (Suc spanp) c)"
  by pat_completeness auto
termination
  by (relation "measure (\<lambda>(delim, spanp, c). length delim - spanp)") (auto simp: rd_def split: if_splits)

declare is_delim.simps [simp del]

text \<open>The loop of \<open>cont\<close>: the first character that is no delimiter, and the pointer after it.\<close>

function skip_delims :: "u8 list \<Rightarrow> u8 list \<Rightarrow> nat \<Rightarrow> (u8 \<times> nat) res" where
  "skip_delims delim buf s =
     rbind (rd buf s) (\<lambda>c. rbind (is_delim delim 0 c) (\<lambda>d.
       if d then skip_delims delim buf (Suc s) else Inr (c, Suc s)))"
  by pat_completeness auto
termination
  by (relation "measure (\<lambda>(delim, buf, s). length buf - s)") (auto simp: rd_def split: if_splits)

declare skip_delims.simps [simp del]

text \<open>The inner \<open>do\<close>: a character that is a delimiter or the delimiters' final 0.\<close>

function ends_token :: "u8 list \<Rightarrow> nat \<Rightarrow> u8 \<Rightarrow> bool res" where
  "ends_token delim spanp c =
     rbind (rd delim spanp) (\<lambda>sc.
       if sc = c then Inr True
       else if sc \<noteq> 0 then ends_token delim (Suc spanp) c
       else Inr False)"
  by pat_completeness auto
termination
  by (relation "measure (\<lambda>(delim, spanp, c). length delim - spanp)") (auto simp: rd_def split: if_splits)

declare ends_token.simps [simp del]

text \<open>The outer \<open>for\<close>: end the token in the buffer and remember where to go on.\<close>

function end_token :: "u8 list \<Rightarrow> u8 list \<Rightarrow> nat \<Rightarrow> (u8 list \<times> nat option) res" where
  "end_token delim buf s =
     rbind (rd buf s) (\<lambda>c. rbind (ends_token delim 0 c) (\<lambda>e.
       if e
       then if c = 0 then Inr (buf, None)
            else rbind (wr buf s 0) (\<lambda>buf. Inr (buf, Some (Suc s)))
       else end_token delim buf (Suc s)))"
  by pat_completeness auto
termination
  by (relation "measure (\<lambda>(delim, buf, s). length buf - s)") (auto simp: rd_def split: if_splits)

declare end_token.simps [simp del]

text \<open>
  The result is the token, the buffer and the new value of the static \<open>last\<close>; \<open>None\<close> is the
  null pointer. A later call with no string goes on in the same buffer.
\<close>

definition strtok ::
    "u8 list \<Rightarrow> nat option \<Rightarrow> u8 list \<Rightarrow> nat option \<Rightarrow> (nat option \<times> u8 list \<times> nat option) res" where
  "strtok buf s delim lst =
     (case (case s of None \<Rightarrow> lst | Some p \<Rightarrow> Some p) of
        None \<Rightarrow> Inr (None, buf, lst)
      | Some s \<Rightarrow>
          rbind (skip_delims delim buf s) (\<lambda>(c, s).
            if c = 0 then Inr (None, buf, None)
            else let tok = s - 1
                 in rbind (end_token delim buf s) (\<lambda>(buf, lst). Inr (Some tok, buf, lst))))"

section \<open>Strings in a buffer\<close>

definition cstr :: "u8 list \<Rightarrow> nat \<Rightarrow> u8 list \<Rightarrow> bool" where
  "cstr buf off xs \<longleftrightarrow> (\<exists>pre post. buf = pre @ xs @ 0 # post \<and> length pre = off) \<and> 0 \<notin> set xs"

lemma cstrE:
  assumes "cstr buf off xs"
  obtains pre post where "buf = pre @ xs @ 0 # post" and "length pre = off" and "0 \<notin> set xs"
  using assms by (auto simp: cstr_def)

lemma cstr_Nil: "cstr buf off [] \<Longrightarrow> rd buf off = Inr 0"
  by (auto elim!: cstrE simp: rd_def)

lemma cstr_Cons: "cstr buf off (x # xs) \<Longrightarrow> rd buf off = Inr x \<and> x \<noteq> 0 \<and> cstr buf (Suc off) xs"
proof -
  assume "cstr buf off (x # xs)"
  then obtain pre post where buf: "buf = pre @ (x # xs) @ 0 # post" "length pre = off"
      and nz: "0 \<notin> set (x # xs)"
    by (rule cstrE)
  have "buf = (pre @ [x]) @ xs @ 0 # post \<and> length (pre @ [x]) = Suc off" using buf by simp
  with nz have "cstr buf (Suc off) xs" unfolding cstr_def by (metis list.set_intros(2))
  with buf nz show ?thesis by (auto simp: rd_def)
qed

lemma cstr_length: "cstr buf off xs \<Longrightarrow> off + length xs < length buf"
  by (auto elim!: cstrE)

section \<open>Lengths, reversal, comparison\<close>

lemma strlen_loop_cstr: "cstr buf off xs \<Longrightarrow> strlen_loop buf off = Inr (off + length xs)"
proof (induction xs arbitrary: off)
  case Nil
  then show ?case by (simp add: strlen_loop.simps [of buf] cstr_Nil)
next
  case (Cons x xs)
  from cstr_Cons [OF Cons.prems] Cons.IH [of "Suc off"] show ?case
    by (simp add: strlen_loop.simps [of buf off])
qed

lemma strlen_loop_unterminated: "0 \<notin> set (drop off buf) \<Longrightarrow> strlen_loop buf off = Inl OutOfBounds"
proof (induction buf off rule: strlen_loop.induct)
  case (1 buf s)
  show ?case
  proof (cases "s < length buf")
    case True
    then have "drop s buf = buf ! s # drop (Suc s) buf" by (rule Cons_nth_drop_Suc [symmetric])
    with 1 True show ?thesis by (simp add: strlen_loop.simps [of buf s])
  qed (simp add: strlen_loop.simps [of buf s])
qed

lemma cstr_or_unterminated:
  assumes "0 \<in> set (drop off buf)"
  shows "cstr buf off (takeWhile (\<lambda>c. c \<noteq> 0) (drop off buf))"
proof -
  let ?xs = "takeWhile (\<lambda>c. c \<noteq> 0) (drop off buf)"
  let ?r = "dropWhile (\<lambda>c. c \<noteq> 0) (drop off buf)"
  have "?r \<noteq> []" using assms by (simp add: dropWhile_eq_Nil_conv)
  then have "hd ?r = 0" using hd_dropWhile by blast
  with \<open>?r \<noteq> []\<close> have "?r = 0 # tl ?r" by (metis list.collapse)
  moreover have "drop off buf = ?xs @ ?r" by simp
  ultimately have "buf = take off buf @ ?xs @ 0 # tl ?r" by (metis append_take_drop_id)
  moreover have "off < length buf" using assms by (metis drop_eq_Nil empty_iff empty_set not_less)
  moreover have "0 \<notin> set ?xs" by (auto dest: set_takeWhileD)
  moreover from \<open>off < length buf\<close> have "length (take off buf) = off" by simp
  ultimately show ?thesis unfolding cstr_def by blast
qed

lemma strlen_cstr: "cstr buf off xs \<Longrightarrow> strlen buf off = Inr (of_nat (length xs))"
  by (simp add: strlen_def strlen_loop_cstr)

text \<open>Swapping from both ends reverses what lies between.\<close>

lemma strrev_loop_result:
  assumes "buf = pre @ mid @ post" and "length pre = off + i" and "length mid = n"
    and "int n = j - int i + 1"
  shows "strrev_loop buf off (int i) j = Inr (pre @ rev mid @ post)"
  using assms
proof (induction n arbitrary: buf pre mid post i j rule: less_induct)
  case (less n)
  show ?case
  proof (cases "n < 2")
    case True
    then have "rev mid = mid" using less.prems(3) by (cases mid; cases "tl mid") auto
    moreover have "\<not> int i < j" using True less.prems(4) by simp
    ultimately show ?thesis using less.prems(1) by (simp add: strrev_loop.simps [of _ _ "int i" j])
  next
    case False
    then obtain a t where t: "mid = a # t" "t \<noteq> []" using less.prems(3) by (cases mid) auto
    obtain m b where "t = m @ [b]" using t(2) by (cases t rule: rev_cases) auto
    with t have mid: "mid = a # m @ [b]" by simp
    have m: "length m = n - 2" "n = length m + 2" using less.prems(3) mid by simp_all
    define k where "k = i + n - 1"
    have j: "j = int k" and ik: "i < k" using less.prems(4) False by (simp_all add: k_def)
    have len: "off + i < length buf" "off + k < length buf"
      using less.prems(1,2,3) False by (auto simp: k_def)
    have ra: "buf ! (off + i) = a" using less.prems(1,2) mid by (simp add: nth_append)
    have rb: "buf ! (off + k) = b"
    proof -
      have "off + k = length (pre @ a # m)" using less.prems(2) m(2) by (simp add: k_def)
      then show ?thesis using less.prems(1) mid
        by (metis append.assoc append_Cons nth_append_length)
    qed
    have upd: "(buf[off + i := b])[off + k := a] = (pre @ [b]) @ m @ (a # post)"
    proof -
      have "off + k = length (pre @ b # m)" using less.prems(2) m(2) by (simp add: k_def)
      then have "(pre @ b # m @ [b] @ post)[off + k := a] = pre @ b # m @ a # post"
        by (metis append.assoc append_Cons append_Nil list_update_length)
      moreover have "buf[off + i := b] = pre @ b # m @ [b] @ post"
        using less.prems(1,2) mid by (simp add: list_update_append)
      ultimately show ?thesis by simp
    qed
    have si: "int i + 1 = int (Suc i)" by simp
    have "strrev_loop buf off (int i) j =
        strrev_loop ((buf[off + i := b])[off + k := a]) off (int i + 1) (j - 1)"
      using len ra rb ik by (subst strrev_loop.simps) (simp add: j)
    also have "\<dots> = strrev_loop ((buf[off + i := b])[off + k := a]) off (int (Suc i)) (j - 1)"
      by (simp only: si)
    also have "\<dots> = Inr ((pre @ [b]) @ rev m @ (a # post))"
      by (rule less.IH [of "n - 2"]) (use less.prems(2,3,4) m(2) upd ik in \<open>simp_all add: j k_def\<close>)
    finally show ?thesis by (simp add: mid)
  qed
qed

lemma strrev_cstr:
  assumes "cstr buf off xs" and "length xs < 2 ^ 31"
  shows "strrev buf off = Inr (take off buf @ rev xs @ drop (off + length xs) buf)"
proof -
  from assms(1) obtain pre post where buf: "buf = pre @ xs @ 0 # post" "length pre = off"
    by (rule cstrE)
  have w: "(ucast (of_nat (length xs) :: u64) :: u32) = of_nat (length xs)"
    by (rule ucast_u32_of_nat) (use assms(2) in simp)
  have "(of_nat (length xs) - 1 :: u32) = word_of_int (int (length xs) - 1)" by simp
  then have j: "sint (of_nat (length xs) - 1 :: u32) = int (length xs) - 1"
    using sint_u32_small [of "int (length xs) - 1"] assms(2)
    by (simp add: INT_MAX_def INT_MIN_def)
  have "strrev buf off = strrev_loop buf off (int 0) (int (length xs) - 1)"
    by (simp add: strrev_def strlen_cstr [OF assms(1)] Let_def w j del: of_nat_diff)
  also have "\<dots> = Inr (pre @ rev xs @ (0 # post))"
    by (rule strrev_loop_result) (use buf in simp_all)
  finally show ?thesis using buf by simp
qed

lemma cstr_reversed:
  assumes "cstr buf off xs"
  shows "cstr (take off buf @ rev xs @ drop (off + length xs) buf) off (rev xs)"
proof -
  from assms obtain pre post where buf: "buf = pre @ xs @ 0 # post" "length pre = off"
      and nz: "0 \<notin> set xs"
    by (rule cstrE)
  have "take off buf @ rev xs @ drop (off + length xs) buf = pre @ rev xs @ 0 # post"
    using buf by simp
  then show ?thesis unfolding cstr_def using buf(2) nz by auto
qed

text \<open>The comparison, on strings of unequal bytes at the first difference.\<close>

lemma strcmp_cstr:
  assumes "cstr b1 s1 xs" and "cstr b2 s2 ys"
  shows "\<exists>r. strcmp b1 s1 b2 s2 = Inr r \<and> (r = 0 \<longleftrightarrow> xs = ys) \<and> (r < 0 \<longleftrightarrow> xs < ys)"
  using assms
proof (induction xs arbitrary: s1 s2 ys)
  case Nil
  show ?case
  proof (cases ys)
    case Nil
    with Nil.prems show ?thesis by (simp add: strcmp.simps [of b1 s1] cstr_Nil)
  next
    case (Cons y ys')
    with Nil.prems(2) have "rd b2 s2 = Inr y" "y \<noteq> 0" using cstr_Cons by auto
    then have "0 < uint y" by (metis uint_0_iff uint_nonnegative order_le_less)
    then show ?thesis
      using cstr_Nil [OF Nil.prems(1)] Cons \<open>rd b2 s2 = Inr y\<close> \<open>y \<noteq> 0\<close>
      by (simp add: strcmp.simps [of b1 s1])
  qed
next
  case (Cons x xs)
  from cstr_Cons [OF Cons.prems(1)] have x: "rd b1 s1 = Inr x" "x \<noteq> 0" "cstr b1 (Suc s1) xs"
    by auto
  show ?case
  proof (cases ys)
    case Nil
    with Cons.prems(2) have "rd b2 s2 = Inr 0" using cstr_Nil by simp
    then show ?thesis
      using x Nil by (simp add: strcmp.simps [of b1 s1] uint_0_iff)
  next
    case (Cons y ys')
    with Cons.prems(2) have y: "rd b2 s2 = Inr y" "y \<noteq> 0" "cstr b2 (Suc s2) ys'"
      using cstr_Cons by auto
    show ?thesis
    proof (cases "x = y")
      case True
      then show ?thesis
        using Cons.IH [OF x(3) y(3)] x y Cons by (simp add: strcmp.simps [of b1 s1])
    next
      case False
      then have "uint x \<noteq> uint y" by (metis word_uint_eq_iff)
      then show ?thesis
        using False x y Cons by (simp add: strcmp.simps [of b1 s1] word_less_def)
    qed
  qed
qed

section \<open>Tokens\<close>

lemma is_delim_cstr: "cstr delim i ds \<Longrightarrow> is_delim delim i c = Inr (c \<in> set ds)"
proof (induction ds arbitrary: i)
  case Nil
  then show ?case by (simp add: is_delim.simps [of delim] cstr_Nil)
next
  case (Cons d ds)
  from cstr_Cons [OF Cons.prems] Cons.IH [of "Suc i"] show ?case
    by (auto simp: is_delim.simps [of delim i])
qed

lemma ends_token_cstr: "cstr delim i ds \<Longrightarrow> ends_token delim i c = Inr (c = 0 \<or> c \<in> set ds)"
proof (induction ds arbitrary: i)
  case Nil
  then show ?case by (auto simp: ends_token.simps [of delim] cstr_Nil)
next
  case (Cons d ds)
  from cstr_Cons [OF Cons.prems] Cons.IH [of "Suc i"] show ?case
    by (auto simp: ends_token.simps [of delim i])
qed

lemma skip_delims_cstr:
  assumes "cstr delim 0 ds" and "cstr buf s xs"
  shows "skip_delims delim buf s =
    Inr (case dropWhile (\<lambda>c. c \<in> set ds) xs of
      [] \<Rightarrow> (0, s + length xs + 1)
    | c # rest \<Rightarrow> (c, s + (length xs - length rest)))"
  using assms(2)
proof (induction xs arbitrary: s)
  case Nil
  have "0 \<notin> set ds" using assms(1) by (simp add: cstr_def)
  with Nil show ?case
    by (simp add: skip_delims.simps [of delim buf s] cstr_Nil is_delim_cstr [OF assms(1)])
next
  case (Cons x xs)
  note head = cstr_Cons [OF Cons.prems]
  show ?case
  proof (cases "x \<in> set ds")
    case False
    then show ?thesis using head
      by (simp add: skip_delims.simps [of delim buf s] is_delim_cstr [OF assms(1)])
  next
    case True
    then have step: "skip_delims delim buf s = skip_delims delim buf (Suc s)"
      using head by (simp add: skip_delims.simps [of delim buf s] is_delim_cstr [OF assms(1)])
    show ?thesis
    proof (cases "dropWhile (\<lambda>c. c \<in> set ds) xs")
      case Nil
      then show ?thesis using Cons.IH [of "Suc s"] head True step
        by (simp del: dropWhile_eq_Nil_conv)
    next
      case rest: (Cons c rest)
      then have "length rest \<le> length xs"
        using length_dropWhile_le [of "\<lambda>c. c \<in> set ds" xs] by simp
      then show ?thesis using Cons.IH [of "Suc s"] head True step rest
        by (simp add: Suc_diff_le)
    qed
  qed
qed

lemma end_token_cstr:
  assumes "cstr delim 0 ds" and "cstr buf s xs"
  shows "end_token delim buf s =
    Inr (case dropWhile (\<lambda>c. c \<notin> set ds) xs of
      [] \<Rightarrow> (buf, None)
    | c # rest \<Rightarrow> let p = s + length (takeWhile (\<lambda>c. c \<notin> set ds) xs) in (buf[p := 0], Some (Suc p)))"
  using assms(2)
proof (induction xs arbitrary: s)
  case Nil
  then show ?case
    by (simp add: end_token.simps [of delim buf s] cstr_Nil ends_token_cstr [OF assms(1)])
next
  case (Cons x xs)
  have lt: "s < length buf" using cstr_length [OF Cons.prems] by simp
  note head = cstr_Cons [OF Cons.prems]
  show ?case
  proof (cases "x \<in> set ds")
    case True
    then show ?thesis using head lt
      by (simp add: end_token.simps [of delim buf s] ends_token_cstr [OF assms(1)])
  next
    case False
    then have "end_token delim buf s = end_token delim buf (Suc s)"
      using head by (simp add: end_token.simps [of delim buf s] ends_token_cstr [OF assms(1)])
    then show ?thesis
      using Cons.IH [of "Suc s"] head False
      by (cases "dropWhile (\<lambda>c. c \<notin> set ds) xs") (simp_all add: Let_def del: dropWhile_eq_Nil_conv)
  qed
qed

text \<open>A suffix of a string is a string.\<close>

lemma cstr_append: "cstr buf s (zs @ ys) \<Longrightarrow> cstr buf (s + length zs) ys"
proof (induction zs arbitrary: s)
  case (Cons z zs)
  then have "cstr buf (Suc s) (zs @ ys)" using cstr_Cons by force
  from Cons.IH [OF this] show ?case by simp
qed simp

text \<open>Ending a token that starts with \<open>c\<close> makes it, and what follows its delimiter, strings of their own.\<close>

lemma end_token_splits:
  assumes "cstr delim 0 ds" and "cstr buf p (c # rest)" and "c \<notin> set ds"
  shows "\<exists>buf' lst'. end_token delim buf (Suc p) = Inr (buf', lst') \<and> length buf' = length buf \<and>
    cstr buf' p (c # takeWhile (\<lambda>c. c \<notin> set ds) rest) \<and>
    (case dropWhile (\<lambda>c. c \<notin> set ds) rest of
       [] \<Rightarrow> lst' = None
     | _ # rest' \<Rightarrow> \<exists>q. lst' = Some q \<and> cstr buf' q rest')"
proof -
  obtain pre post where buf: "buf = pre @ (c # rest) @ 0 # post" "length pre = p" and nz: "0 \<notin> set (c # rest)"
    using assms(2) by (rule cstrE)
  have "cstr buf (Suc p) rest" using cstr_Cons [OF assms(2)] by simp
  note fin = end_token_cstr [OF assms(1) this]
  define tk where "tk = takeWhile (\<lambda>c. c \<notin> set ds) rest"
  have tz: "0 \<notin> set (c # tk)" using nz by (auto simp: tk_def dest: set_takeWhileD)
  show ?thesis
  proof (cases "dropWhile (\<lambda>c. c \<notin> set ds) rest")
    case Nil
    then have "tk = rest" unfolding tk_def by (metis append_Nil2 takeWhile_dropWhile_id)
    then show ?thesis using fin Nil assms(2) by (simp flip: tk_def del: dropWhile_eq_Nil_conv)
  next
    case (Cons e rest')
    then have rest: "rest = tk @ e # rest'" unfolding tk_def by (metis takeWhile_dropWhile_id)
    define q where "q = Suc p + length tk"
    have q: "q = length (pre @ c # tk)" using buf by (simp add: q_def)
    have "buf = (pre @ c # tk) @ e # rest' @ 0 # post" using buf(1) rest by simp
    then have upd: "buf[q := 0] = (pre @ c # tk) @ 0 # rest' @ 0 # post"
      unfolding q by (simp only: list_update_length)
    have "0 \<notin> set rest'" using nz rest by simp
    moreover have "buf[q := 0] = (pre @ c # tk @ [0]) @ rest' @ 0 # post" using upd by simp
    moreover have "length (pre @ c # tk @ [0]) = Suc q" using q by simp
    ultimately have "cstr (buf[q := 0]) (Suc q) rest'" unfolding cstr_def by blast
    moreover have "buf[q := 0] = pre @ (c # tk) @ 0 # rest' @ 0 # post" using upd by simp
    then have "cstr (buf[q := 0]) p (c # tk)" unfolding cstr_def using buf(2) tz by blast
    ultimately show ?thesis using fin Cons by (simp add: Let_def q_def flip: tk_def)
  qed
qed

section \<open>Properties\<close>

text \<open>\<open>strlen\<close> is the number of bytes before the first 0, and on a buffer without one it
  leaves the buffer.\<close>

theorem strlen_result:
  "strlen buf off =
    (if 0 \<in> set (drop off buf) then Inr (of_nat (length (takeWhile (\<lambda>c. c \<noteq> 0) (drop off buf))))
     else Inl OutOfBounds)"
proof (cases "0 \<in> set (drop off buf)")
  case True
  then show ?thesis using strlen_cstr [OF cstr_or_unterminated] by simp
next
  case False
  then show ?thesis by (simp add: strlen_def strlen_loop_unterminated)
qed

text \<open>C34. \<open>strrev\<close> reverses a string in place: the buffer keeps its length and every byte outside
  the string, and a second call gives back the first buffer.\<close>

theorem strrev_involution:
  assumes "cstr buf off xs" and "length xs < 2 ^ 31"
  shows "\<exists>buf'. strrev buf off = Inr buf' \<and> cstr buf' off (rev xs) \<and> length buf' = length buf \<and>
    take off buf' = take off buf \<and> drop (off + length xs) buf' = drop (off + length xs) buf \<and>
    strrev buf' off = Inr buf"
proof -
  let ?b = "take off buf @ rev xs @ drop (off + length xs) buf"
  obtain pre post where buf: "buf = pre @ xs @ 0 # post" "length pre = off"
    using assms(1) by (rule cstrE)
  have b: "?b = pre @ rev xs @ 0 # post" using buf by simp
  have "strrev ?b off = Inr (take off ?b @ rev (rev xs) @ drop (off + length (rev xs)) ?b)"
    by (rule strrev_cstr [OF cstr_reversed [OF assms(1)]]) (use assms(2) in simp)
  also have "take off ?b @ rev (rev xs) @ drop (off + length (rev xs)) ?b = buf"
    unfolding b using buf by simp
  finally have "strrev ?b off = Inr buf" .
  moreover have "length ?b = length buf" "take off ?b = take off buf"
      "drop (off + length xs) ?b = drop (off + length xs) buf"
    unfolding b using buf by simp_all
  ultimately show ?thesis using strrev_cstr [OF assms] cstr_reversed [OF assms(1)] by blast
qed

lemma cstr_example: "cstr [9, 97, 98, 99, 0, 7] 1 [97, 98, 99]"
  unfolding cstr_def by (rule conjI, rule exI [of _ "[9]"], rule exI [of _ "[7]"]) simp_all

theorem strrev_involution_witness:
  "\<exists>buf'. strrev [9, 97, 98, 99, 0, 7] 1 = Inr buf' \<and> cstr buf' 1 [99, 98, 97] \<and>
    strrev buf' 1 = Inr [9, 97, 98, 99, 0, 7]"
  using strrev_involution [OF cstr_example] by auto

text \<open>C35. \<open>strcmp\<close> orders strings lexicographically by their unsigned bytes.\<close>

theorem strcmp_order:
  assumes "cstr b1 s1 xs" and "cstr b2 s2 ys"
  shows "\<exists>r. strcmp b1 s1 b2 s2 = Inr r \<and> (r = 0 \<longleftrightarrow> xs = ys) \<and> (r < 0 \<longleftrightarrow> xs < ys) \<and>
    (0 < r \<longleftrightarrow> ys < xs)"
proof -
  obtain r where r: "strcmp b1 s1 b2 s2 = Inr r" "r = 0 \<longleftrightarrow> xs = ys" "r < 0 \<longleftrightarrow> xs < ys"
    using strcmp_cstr [OF assms] by blast
  then have "0 < r \<longleftrightarrow> ys < xs" by (metis less_asym linorder_neqE)
  with r show ?thesis by blast
qed

theorem strcmp_order_witness:
  "\<exists>r. strcmp [97, 200, 0] 0 [97, 98, 0] 0 = Inr r \<and> 0 < r"
proof -
  have "cstr [97, 200, 0] 0 [97, 200]" "cstr [97, 98, 0] 0 [97, 98]"
    unfolding cstr_def by (rule conjI, rule exI [of _ "[]"], rule exI [of _ "[]"], simp_all)+
  from strcmp_order [OF this] show ?thesis by auto
qed

text \<open>C33. A call of \<open>strtok\<close> on a string skips the leading delimiters; if nothing is left it
  returns null and forgets the string. Otherwise it returns the place of the longest run of other
  characters, which is from then on a string of its own in the buffer, and remembers the string
  after the delimiter that ended it, or null at the end.\<close>

theorem strtok_token:
  assumes "cstr delim 0 ds" and "cstr buf s xs"
  shows "let ys = dropWhile (\<lambda>c. c \<in> set ds) xs; p = s + (length xs - length ys) in
    if ys = [] then strtok buf (Some s) delim lst = Inr (None, buf, None)
    else \<exists>buf' lst'. strtok buf (Some s) delim lst = Inr (Some p, buf', lst') \<and>
      length buf' = length buf \<and> cstr buf' p (takeWhile (\<lambda>c. c \<notin> set ds) ys) \<and>
      (case dropWhile (\<lambda>c. c \<notin> set ds) ys of
         [] \<Rightarrow> lst' = None
       | _ # rest \<Rightarrow> \<exists>q. lst' = Some q \<and> cstr buf' q rest)"
proof -
  define ys where "ys = dropWhile (\<lambda>c. c \<in> set ds) xs"
  define zs where "zs = takeWhile (\<lambda>c. c \<in> set ds) xs"
  have xs: "xs = zs @ ys" by (simp add: zs_def ys_def)
  define p where "p = s + (length xs - length ys)"
  note skip = skip_delims_cstr [OF assms, folded ys_def]
  have "if ys = [] then strtok buf (Some s) delim lst = Inr (None, buf, None)
    else \<exists>buf' lst'. strtok buf (Some s) delim lst = Inr (Some p, buf', lst') \<and>
      length buf' = length buf \<and> cstr buf' p (takeWhile (\<lambda>c. c \<notin> set ds) ys) \<and>
      (case dropWhile (\<lambda>c. c \<notin> set ds) ys of
         [] \<Rightarrow> lst' = None
       | _ # rest \<Rightarrow> \<exists>q. lst' = Some q \<and> cstr buf' q rest)"
  proof (cases ys)
    case Nil
    then show ?thesis using skip by (simp add: strtok_def)
  next
    case (Cons c rest)
    have c: "c \<noteq> 0" "c \<notin> set ds"
      using assms(2) xs Cons hd_dropWhile [of "\<lambda>c. c \<in> set ds" xs, folded ys_def] by (auto elim!: cstrE)
    have "s + (length xs - length rest) = Suc p" using xs Cons by (simp add: p_def)
    then have run: "strtok buf (Some s) delim lst =
        rbind (end_token delim buf (Suc p)) (\<lambda>(buf, lst). Inr (Some p, buf, lst))"
      using skip Cons c by (simp add: strtok_def)
    have "cstr buf p (c # rest)"
      using cstr_append [of buf s zs ys] assms(2) xs Cons by (simp add: p_def)
    from end_token_splits [OF assms(1) this c(2)] show ?thesis using Cons c run by auto
  qed
  then show ?thesis unfolding Let_def ys_def [symmetric] p_def [symmetric] .
qed

theorem strtok_token_witness:
  "\<exists>buf' lst'. strtok [32, 97, 98, 32, 99, 0] (Some 0) [32, 0] None = Inr (Some 1, buf', lst') \<and>
    cstr buf' 1 [97, 98]"
proof -
  have "cstr [32, 0] 0 [32]" "cstr [32, 97, 98, 32, 99, 0] 0 [32, 97, 98, 32, 99]"
    unfolding cstr_def by (rule conjI, rule exI [of _ "[]"], rule exI [of _ "[]"], simp_all)+
  from strtok_token [OF this, of None] show ?thesis by (auto simp: Let_def)
qed

end
