(* ===== verification/Fmt.thy ===== *)
theory Fmt
  imports CString
begin

text \<open>
  Formatted output, \<open>fmt.c\<close> and the character tests of \<open>fmt.h\<close>. The state is the static
  buffer \<open>__str_buff\<close> and the sequence of characters given to \<open>__putchar\<close>, the function the
  caller passes; that function does not touch the buffer. A \<open>char\<close> is a byte and is signed
  where it is converted to \<open>int\<close>.
\<close>

section \<open>Characters\<close>

definition is_alpha :: "int \<Rightarrow> bool" where
  "is_alpha c \<longleftrightarrow> 97 \<le> c \<and> c \<le> 122 \<or> 65 \<le> c \<and> c \<le> 90"

definition is_digit :: "int \<Rightarrow> bool" where
  "is_digit c \<longleftrightarrow> 48 \<le> c \<and> c \<le> 57"

definition chint :: "int \<Rightarrow> int" where
  "chint c = (if is_digit c then c - 48 else -1)"

definition is_fmtflag :: "int \<Rightarrow> bool" where
  "is_fmtflag c \<longleftrightarrow> c \<in> set [45, 43, 32, 48]"

text \<open>\<open>__read_int\<close>: the pointer after the digits and the number, an \<open>int\<close>.\<close>

function read_int :: "u8 list \<Rightarrow> nat \<Rightarrow> int \<Rightarrow> (nat \<times> int) res" where
  "read_int fmt p ret =
     rbind (rd fmt p) (\<lambda>c.
       if is_digit (sint c)
       then rbind (c_int (ret * 10)) (\<lambda>m. rbind (c_int (m + chint (sint c))) (\<lambda>ret.
              read_int fmt (Suc p) ret))
       else Inr (p, ret))"
  by pat_completeness auto
termination
  by (relation "measure (\<lambda>(fmt, p, ret). length fmt - p)") (auto simp: rd_def split: if_splits)

declare read_int.simps [simp del]

section \<open>Numbers into a buffer\<close>

text \<open>The \<open>do\<close> of \<open>__utoa\<close>: \<open>value % base\<close> and \<open>value /= base\<close> are computed in 64 bits.\<close>

function utoa_loop :: "u64 \<Rightarrow> u8 list \<Rightarrow> nat \<Rightarrow> u64 \<Rightarrow> (u8 list \<times> nat) res" where
  "utoa_loop val buf i base =
     (if base = 0 then Inl DivByZero
      else
        let digit = int_of_u64 (val mod base)
        in rbind (wr buf i (word_of_int (if digit < 10 then 48 + digit else 65 + digit - 10))) (\<lambda>buf.
             let val = val div base
             in if val \<noteq> 0 then utoa_loop val buf (Suc i) base else Inr (buf, Suc i)))"
  by pat_completeness auto
termination
  by (relation "measure (\<lambda>(val, buf, i, base). length buf - i)") (auto simp: wr_def split: if_splits)

declare utoa_loop.simps [simp del]

definition utoa :: "u64 \<Rightarrow> u8 list \<Rightarrow> nat \<Rightarrow> int \<Rightarrow> u8 list res" where
  "utoa val buf off base =
     rbind (utoa_loop val buf off (word_of_int base)) (\<lambda>(buf, i).
     rbind (wr buf i 0) (\<lambda>buf. strrev buf off))"

definition itoa :: "int \<Rightarrow> u8 list \<Rightarrow> nat \<Rightarrow> int \<Rightarrow> u8 list res" where
  "itoa val buf off base =
     (if val < 0
      then rbind (c_llong (- val)) (\<lambda>n.
           rbind (utoa (word_of_int n) buf (off + 1) base) (\<lambda>buf. wr buf off 45))
      else utoa (word_of_int val) buf off base)"

section \<open>Output\<close>

record fmt =
  str_buff :: "u8 list"
  out :: "int list"       \<comment> \<open>the arguments of the calls of \<open>__putchar\<close>, in order\<close>

definition putchar :: "int \<Rightarrow> fmt \<Rightarrow> fmt" where
  "putchar c s = s\<lparr>out := out s @ [c]\<rparr>"

text \<open>\<open>while (width-- > 0) { __putchar(c); cnt++; }\<close>\<close>

function pad_out :: "int \<Rightarrow> int \<Rightarrow> int \<times> fmt \<Rightarrow> int \<times> fmt" where
  "pad_out width c = (\<lambda>(cnt, s).
     if width > 0 then pad_out (width - 1) c (cnt + 1, putchar c s) else (cnt, s))"
  by pat_completeness auto
termination
  by (relation "measure (\<lambda>(width, c). nat width)") auto

declare pad_out.simps [simp del]

text \<open>\<open>for (int i = 0; __str_buff[i]; i++) __putchar(__str_buff[i])\<close>\<close>

function buff_out :: "nat \<Rightarrow> fmt \<Rightarrow> fmt res" where
  "buff_out i s =
     rbind (rd (str_buff s) i) (\<lambda>c. if c \<noteq> 0 then buff_out (Suc i) (putchar (sint c) s) else Inr s)"
  by pat_completeness auto
termination
  by (relation "measure (\<lambda>(i, s). length (str_buff s) - i)")
    (auto simp: rd_def putchar_def split: if_splits)

declare buff_out.simps [simp del]

text \<open>The digits of \<open>__print_int\<close>, of a number that is not negative, last digit first.\<close>

function int_digits :: "int \<Rightarrow> u8 list \<Rightarrow> nat \<Rightarrow> (u8 list \<times> nat) res" where
  "int_digits n buf num_len =
     rbind (wr buf num_len (word_of_int (48 + n mod 10))) (\<lambda>buf.
       let n = n div 10
       in if n \<noteq> 0 then int_digits n buf (Suc num_len) else Inr (buf, Suc num_len))"
  by pat_completeness auto
termination
  by (relation "measure (\<lambda>(n, buf, num_len). length buf - num_len)") (auto simp: wr_def split: if_splits)

declare int_digits.simps [simp del]

text \<open>\<open>while (precision > len) __str_buff[len++] = '0'\<close>\<close>

function fill_zeros :: "int \<Rightarrow> u8 list \<Rightarrow> nat \<Rightarrow> (u8 list \<times> nat) res" where
  "fill_zeros precision buf num_len =
     (if precision > int num_len
      then rbind (wr buf num_len 48) (\<lambda>buf. fill_zeros precision buf (Suc num_len))
      else Inr (buf, num_len))"
  by pat_completeness auto
termination
  by (relation "measure (\<lambda>(precision, buf, num_len). nat (precision - int num_len))") auto

declare fill_zeros.simps [simp del]

definition print_int :: "int \<Rightarrow> int \<Rightarrow> int \<Rightarrow> int \<Rightarrow> int \<Rightarrow> int \<Rightarrow> fmt \<Rightarrow> (int \<times> fmt) res" where
  "print_int n width precision align prefix pad s =
     rbind
       (if precision \<noteq> 0 \<or> n \<noteq> 0
        then rbind (if n < 0 then c_llong (- n) else Inr n) (\<lambda>m.
             rbind (int_digits m (str_buff s) 0) (\<lambda>(buf, num_len).
             rbind (fill_zeros precision buf num_len) (\<lambda>(buf, num_len).
               Inr (buf, num_len, if n < 0 then 45 else prefix, if precision > 0 then 32 else pad))))
        else Inr (str_buff s, 0, prefix, pad))
       (\<lambda>(buf, num_len, prefix, pad).
         rbind (wr buf num_len 0) (\<lambda>buf. rbind (strrev buf 0) (\<lambda>buf.
           let s = s\<lparr>str_buff := buf\<rparr>;
               width = width - int num_len
           in if align \<noteq> 0
              then let (cnt, s, width) =
                         if prefix \<noteq> 0 then (1, putchar prefix s, width - 1) else (0, s, width)
                   in rbind (buff_out 0 s) (\<lambda>s. Inr (pad_out width 32 (cnt + int num_len, s)))
              else let (cnt, s) = if prefix \<noteq> 0 \<and> pad = 48 then (1, putchar prefix s) else (0, s);
                       width = if prefix \<noteq> 0 then width - 1 else width;
                       (cnt, s) = pad_out width pad (cnt, s);
                       (cnt, s) = if prefix \<noteq> 0 \<and> pad \<noteq> 48 then (cnt + 1, putchar prefix s)
                                  else (cnt, s)
                   in rbind (buff_out 0 s) (\<lambda>s. Inr (cnt + int num_len, s)))))"

function unsigned_digits :: "u64 \<Rightarrow> u64 \<Rightarrow> bool \<Rightarrow> u8 list \<Rightarrow> nat \<Rightarrow> (u8 list \<times> nat) res" where
  "unsigned_digits n base upper buf num_len =
     (if base = 0 then Inl DivByZero
      else
        let digit = int_of_u64 (n mod base)
        in rbind (wr buf num_len (word_of_int (if digit < 10 then 48 + digit
                                               else (if upper then 65 else 97) + digit - 10))) (\<lambda>buf.
             let n = n div base
             in if n \<noteq> 0 then unsigned_digits n base upper buf (Suc num_len)
                else Inr (buf, Suc num_len)))"
  by pat_completeness auto
termination
  by (relation "measure (\<lambda>(n, base, upper, buf, num_len). length buf - num_len)")
    (auto simp: wr_def split: if_splits)

declare unsigned_digits.simps [simp del]

definition print_unsigned ::
    "u64 \<Rightarrow> int \<Rightarrow> int \<Rightarrow> int \<Rightarrow> int \<Rightarrow> int \<Rightarrow> bool \<Rightarrow> fmt \<Rightarrow> (int \<times> fmt) res" where
  "print_unsigned n width precision align pad base upper s =
     rbind
       (if precision \<noteq> 0 \<or> n \<noteq> 0
        then rbind (unsigned_digits n (word_of_int base) upper (str_buff s) 0) (\<lambda>(buf, num_len).
             rbind (fill_zeros precision buf num_len) (\<lambda>(buf, num_len).
               Inr (buf, num_len, if precision > 0 then 32 else pad)))
        else Inr (str_buff s, 0, pad))
       (\<lambda>(buf, num_len, pad).
         rbind (wr buf num_len 0) (\<lambda>buf. rbind (strrev buf 0) (\<lambda>buf.
           let s = s\<lparr>str_buff := buf\<rparr>;
               width = width - int num_len
           in if align \<noteq> 0
              then rbind (buff_out 0 s) (\<lambda>s. Inr (pad_out width 32 (int num_len, s)))
              else let (cnt, s) = pad_out width pad (0, s)
                   in rbind (buff_out 0 s) (\<lambda>s. Inr (cnt + int num_len, s)))))"

text \<open>\<open>for (int i = 0; i < n; i++) __putchar(' ')\<close>, without a count.\<close>

definition spaces_out :: "int \<Rightarrow> fmt \<Rightarrow> fmt" where
  "spaces_out n s = snd (pad_out n 32 (0, s))"

definition print_char :: "int \<Rightarrow> int \<Rightarrow> int \<Rightarrow> fmt \<Rightarrow> int \<times> fmt" where
  "print_char c width align s =
     (let s = if align \<noteq> 0 then putchar c s else s;
          s = spaces_out (width - 1) s;
          s = if align = 0 then putchar c s else s
      in (width, s))"

function chars_out :: "u8 list \<Rightarrow> nat \<Rightarrow> int \<Rightarrow> fmt \<Rightarrow> fmt res" where
  "chars_out str i str_len s =
     (if int i < str_len
      then rbind (rd str i) (\<lambda>c. chars_out str (Suc i) str_len (putchar (sint c) s))
      else Inr s)"
  by pat_completeness auto
termination
  by (relation "measure (\<lambda>(str, i, str_len, s). nat (str_len - int i))") auto

declare chars_out.simps [simp del]

definition print_str :: "u8 list \<Rightarrow> int \<Rightarrow> int \<Rightarrow> int \<Rightarrow> fmt \<Rightarrow> (int \<times> fmt) res" where
  "print_str str width precision align s =
     rbind (strlen str 0) (\<lambda>n.
       let str_len = int_of_u64 n;
           str_len = if precision \<ge> 0 \<and> str_len > precision then precision else str_len
       in rbind (if width > str_len then c_int (width - str_len) else Inr 0) (\<lambda>pad_len.
          rbind (c_int (str_len + pad_len)) (\<lambda>ret.
            let s = if align = 0 then spaces_out pad_len s else s
            in rbind (chars_out str 0 str_len s) (\<lambda>s.
                 let s = if align \<noteq> 0 then spaces_out pad_len s else s
                 in Inr (ret, s)))))"

section \<open>Directives\<close>

record directive =
  d_width :: int
  d_precision :: int
  d_length :: int         \<comment> \<open>negative for \<open>h\<close>, positive for \<open>l\<close>\<close>
  d_align :: int
  d_prefix :: int
  d_pad :: int
  d_conv :: u8

text \<open>The loop over the flags; \<open>p\<close> points after the character \<open>ch\<close>.\<close>

function fmt_flags ::
    "u8 list \<Rightarrow> nat \<Rightarrow> u8 \<Rightarrow> int \<Rightarrow> int \<Rightarrow> int \<Rightarrow> (nat \<times> u8 \<times> int \<times> int \<times> int) res" where
  "fmt_flags fmt p ch align prefix pad =
     (if is_fmtflag (sint ch)
      then let align = if ch = 45 then 1 else align;
               prefix = if ch = 43 then 43
                        else if ch = 32 then (if prefix \<noteq> 43 then 32 else prefix)
                        else prefix;
               pad = if ch = 48 then 48 else pad
           in rbind (rd fmt p) (\<lambda>ch. fmt_flags fmt (Suc p) ch align prefix pad)
      else Inr (p, ch, align, prefix, pad))"
  by pat_completeness auto
termination
  by (relation "measure (\<lambda>(fmt, p, ch, align, prefix, pad). length fmt - p)")
    (auto simp: rd_def split: if_splits)

declare fmt_flags.simps [simp del]

text \<open>From after the \<open>%\<close> to after the conversion character.\<close>

definition parse_width :: "u8 list \<Rightarrow> nat \<Rightarrow> u8 \<Rightarrow> (nat \<times> u8 \<times> int) res" where
  "parse_width fmt p ch =
     (if is_digit (sint ch)
      then rbind (read_int fmt (p - 1) 0) (\<lambda>(p, width).
           rbind (rd fmt p) (\<lambda>ch. Inr (Suc p, ch, width)))
      else Inr (p, ch, -1))"

definition parse_precision :: "u8 list \<Rightarrow> nat \<Rightarrow> u8 \<Rightarrow> (nat \<times> u8 \<times> int) res" where
  "parse_precision fmt p ch =
     (if ch = 46
      then rbind (read_int fmt p 0) (\<lambda>(p, precision).
           rbind (rd fmt p) (\<lambda>ch. Inr (Suc p, ch, precision)))
      else Inr (p, ch, -1))"

definition parse_length :: "u8 list \<Rightarrow> nat \<Rightarrow> u8 \<Rightarrow> (nat \<times> u8 \<times> int) res" where
  "parse_length fmt p ch =
     (if ch = 104 \<or> ch = 108
      then rbind (rd fmt p) (\<lambda>nxt.
             let len = if ch = 104 then -1 else 1;
                 (p, len) = if nxt = ch then (Suc p, len * 2) else (p, len)
             in rbind (rd fmt p) (\<lambda>ch. Inr (Suc p, ch, len)))
      else Inr (p, ch, 0))"

definition parse_directive :: "u8 list \<Rightarrow> nat \<Rightarrow> (directive \<times> nat) res" where
  "parse_directive fmt p =
     rbind (rd fmt p) (\<lambda>ch.
     rbind (fmt_flags fmt (Suc p) ch 0 0 32) (\<lambda>(p, ch, align, prefix, pad).
     rbind (parse_width fmt p ch) (\<lambda>(p, ch, width).
     rbind (parse_precision fmt p ch) (\<lambda>(p, ch, precision).
     rbind (parse_length fmt p ch) (\<lambda>(p, ch, len).
       Inr (\<lparr>d_width = width, d_precision = precision, d_length = len, d_align = align,
             d_prefix = prefix, d_pad = pad, d_conv = ch\<rparr>, p))))))"

text \<open>
  An argument is a 64-bit slot; where it is a pointer to a string, the bytes it points to
  are given with it.
\<close>

datatype va = VWord u64 | VPtr u64 "u8 list"

fun va_word :: "va list \<Rightarrow> (u64 \<times> va list) res" where
  "va_word [] = Inl BadVararg"
| "va_word (VWord w # ap) = Inr (w, ap)"
| "va_word (VPtr a str # ap) = Inr (a, ap)"

fun va_str :: "va list \<Rightarrow> (u8 list \<times> va list) res" where
  "va_str (VPtr a str # ap) = Inr (str, ap)"
| "va_str _ = Inl BadVararg"

text \<open>The value of the slot in the type the length modifier selects.\<close>

definition signed_arg :: "int \<Rightarrow> u64 \<Rightarrow> int" where
  "signed_arg len w =
     (if len = -2 then sint (ucast w :: u8)
      else if len = -1 then sint (ucast w :: u16)
      else if len = 0 then sint (ucast w :: u32)
      else sint w)"

definition unsigned_arg :: "int \<Rightarrow> u64 \<Rightarrow> u64" where
  "unsigned_arg len w =
     (if len = -2 then ucast (ucast w :: u8)
      else if len = -1 then ucast (ucast w :: u16)
      else if len = 0 then ucast (ucast w :: u32)
      else w)"

text \<open>The \<open>switch\<close> over the conversion character: what it adds to the count, the arguments left.\<close>

definition print_directive :: "directive \<Rightarrow> va list \<Rightarrow> fmt \<Rightarrow> (int \<times> va list \<times> fmt) res" where
  "print_directive d ap s =
     (if d_conv d = 100 \<or> d_conv d = 105
      then rbind (va_word ap) (\<lambda>(w, ap).
           rbind (print_int (signed_arg (d_length d) w) (d_width d) (d_precision d) (d_align d)
                    (d_prefix d) (d_pad d) s) (\<lambda>(k, s). Inr (k, ap, s)))
      else if d_conv d \<in> {98, 117, 111, 120, 88}
      then let upper = (d_conv d = 88);
               base = if d_conv d = 98 then 2 else if d_conv d = 117 then 10
                      else if d_conv d = 111 then 8 else 16
           in rbind (va_word ap) (\<lambda>(w, ap).
              rbind (print_unsigned (unsigned_arg (d_length d) w) (d_width d) (d_precision d)
                       (d_align d) (d_pad d) base upper s) (\<lambda>(k, s). Inr (k, ap, s)))
      else if d_conv d = 99
      then rbind (va_word ap) (\<lambda>(w, ap).
             let (k, s) = print_char (sint (ucast w :: u8)) (d_width d) (d_align d) s
             in Inr (k, ap, s))
      else if d_conv d = 115
      then rbind (va_str ap) (\<lambda>(str, ap).
           rbind (print_str str (d_width d) (d_precision d) (d_align d) s) (\<lambda>(k, s).
             Inr (k, ap, s)))
      else if d_conv d = 112
      then rbind (va_word ap) (\<lambda>(w, ap).
           rbind (print_unsigned w 16 (-1) 0 48 16 True s) (\<lambda>(k, s). Inr (k, ap, s)))
      else if d_conv d = 37
      then let (k, s) = print_char 37 (d_width d) (d_align d) s in Inr (k, ap, s)
      else Inr (0, ap, s))"

lemma read_int_forward: "read_int fmt p ret = Inr (p', v) \<Longrightarrow> p \<le> p'"
proof (induction fmt p ret rule: read_int.induct)
  case (1 fmt p ret)
  from 1(2) show ?case
    by (auto simp: read_int.simps [of fmt p] rbind_eq_Inr c_int_Inr split: if_splits
        dest!: 1(1) [rotated -1])
qed

lemma fmt_flags_forward: "fmt_flags fmt p ch a b c = Inr (p', r) \<Longrightarrow> p \<le> p'"
proof (induction fmt p ch a b c rule: fmt_flags.induct)
  case (1 fmt p ch align prefix pad)
  from 1(2) show ?case
    by (auto simp: fmt_flags.simps [of fmt p] rbind_eq_Inr Let_def split: if_splits
        dest!: 1(1) [rotated -1])
qed

lemma parse_directive_forward:
  assumes "parse_directive fmt p = Inr (d, p')"
  shows "p < p' \<and> p < length fmt"
proof -
  have w: "p \<le> p'" if "parse_width fmt p ch = Inr (p', ch', v)" "0 < p" for p p' ch ch' v
    using that read_int_forward [of fmt "p - 1"]
    by (fastforce simp: parse_width_def rbind_eq_Inr split: if_splits)
  have r: "p \<le> p'" if "parse_precision fmt p ch = Inr (p', ch', v)" for p p' ch ch' v
    using that read_int_forward [of fmt p]
    by (fastforce simp: parse_precision_def rbind_eq_Inr split: if_splits)
  have l: "p \<le> p'" if "parse_length fmt p ch = Inr (p', ch', v)" for p p' ch ch' v
    using that by (auto simp: parse_length_def rbind_eq_Inr Let_def split: if_splits)
  from assms obtain ch p1 ch1 a1 a2 a3 p2 ch2 w2 p3 ch3 w3 ch4 w4 where
    s: "rd fmt p = Inr ch" "fmt_flags fmt (Suc p) ch 0 0 32 = Inr (p1, ch1, a1, a2, a3)"
      "parse_width fmt p1 ch1 = Inr (p2, ch2, w2)" "parse_precision fmt p2 ch2 = Inr (p3, ch3, w3)"
      "parse_length fmt p3 ch3 = Inr (p', ch4, w4)"
    by (auto simp: parse_directive_def rbind_eq_Inr)
  have "Suc p \<le> p1" by (rule fmt_flags_forward [OF s(2)])
  moreover from this have "p1 \<le> p2" by (intro w [OF s(3)]) simp
  moreover have "p2 \<le> p3" "p3 \<le> p'" by (rule r [OF s(4)], rule l [OF s(5)])
  ultimately show ?thesis using s(1) by (auto simp: rd_def split: if_splits)
qed

section \<open>The main loop\<close>

function proto_print_loop ::
    "u8 list \<Rightarrow> nat \<Rightarrow> va list \<Rightarrow> int \<Rightarrow> fmt \<Rightarrow> (int \<times> fmt) res" where
  "proto_print_loop fmt p ap ret s =
     rbind (rd fmt p) (\<lambda>ch.
       if ch = 0 then Inr (ret, s)
       else if ch = 37
       then rbind (parse_directive fmt (Suc p)) (\<lambda>(d, p).
            rbind (print_directive d ap s) (\<lambda>(k, ap, s).
            rbind (c_int (ret + k)) (\<lambda>ret. proto_print_loop fmt p ap ret s)))
       else let s = putchar (sint ch) s
            in rbind (c_int (ret + 1)) (\<lambda>ret. proto_print_loop fmt (Suc p) ap ret s))"
  by pat_completeness auto
termination
proof (relation "measure (\<lambda>(fmt, p, ap, ret, s). length fmt - p)", goal_cases)
  case (2 fmt p ap ret s ch x d p' y)
  then show ?case
    using parse_directive_forward [of fmt "Suc p" d p'] by (auto simp: rd_def split: if_splits)
qed (auto simp: rd_def split: if_splits)

declare proto_print_loop.simps [simp del]

definition proto_print :: "u8 list \<Rightarrow> va list \<Rightarrow> fmt \<Rightarrow> (int \<times> fmt) res" where
  "proto_print format ap s = proto_print_loop format 0 ap 0 s"

end
