(* ===== verification/FmtNumbers.thy ===== *)
theory FmtNumbers
  imports Fmt
begin

text \<open>
  Numerals: what the digit loops of \<open>fmt.c\<close> write, as the digits of the number in its base,
  and what the two number printers give to \<open>__putchar\<close>.
\<close>

section \<open>Digits\<close>

function digits :: "nat \<Rightarrow> nat \<Rightarrow> nat list" where
  "digits b n = (if n < b \<or> b < 2 then [n] else digits b (n div b) @ [n mod b])"
  by pat_completeness auto
termination
  by (relation "measure snd") (auto simp: div_less_dividend)

declare digits.simps [simp del]

definition numeral_value :: "nat \<Rightarrow> nat list \<Rightarrow> nat" where
  "numeral_value b ds = foldl (\<lambda>a d. b * a + d) 0 ds"

lemma digits_value: "2 \<le> b \<Longrightarrow> numeral_value b (digits b n) = n"
proof (induction b n rule: digits.induct)
  case (1 b n)
  then show ?case by (cases "n < b") (simp_all add: digits.simps [of b n] numeral_value_def)
qed

lemma digits_less: "2 \<le> b \<Longrightarrow> d \<in> set (digits b n) \<Longrightarrow> d < b"
proof (induction b n rule: digits.induct)
  case (1 b n)
  then show ?case by (cases "n < b") (auto simp: digits.simps [of b n])
qed

lemma digits_nonempty [simp]: "digits b n \<noteq> []"
  by (subst digits.simps) simp

lemma digits_leading: "2 \<le> b \<Longrightarrow> b \<le> n \<Longrightarrow> hd (digits b n) \<noteq> 0"
proof (induction b n rule: digits.induct)
  case (1 b n)
  have step: "digits b n = digits b (n div b) @ [n mod b]" using 1(2,3) by (subst digits.simps) simp
  show ?case
  proof (cases "b \<le> n div b")
    case True
    then show ?thesis using 1 by (simp add: step)
  next
    case False
    then have "digits b (n div b) = [n div b]" by (subst digits.simps) simp
    then show ?thesis using 1(2,3) by (simp add: step div_eq_0_iff)
  qed
qed

text \<open>Every numeral without a leading zero is the one \<open>digits\<close> gives.\<close>

lemma digits_numeral_value:
  assumes "2 \<le> b"
  shows "ds \<noteq> [] \<Longrightarrow> \<forall>d\<in>set ds. d < b \<Longrightarrow> 1 < length ds \<longrightarrow> hd ds \<noteq> 0 \<Longrightarrow> digits b (numeral_value b ds) = ds"
proof (induction ds rule: rev_induct)
  case Nil
  then show ?case by simp
next
  case (snoc d ds)
  have d: "d < b" using snoc.prems by simp
  have v: "numeral_value b (ds @ [d]) = b * numeral_value b ds + d" by (simp add: numeral_value_def)
  show ?case
  proof (cases "ds = []")
    case True
    then show ?thesis using d by (simp add: numeral_value_def digits.simps [of b d])
  next
    case False
    then have hd: "hd ds \<noteq> 0" using snoc.prems(3) by simp
    have ds: "digits b (numeral_value b ds) = ds" using snoc False hd by simp
    with hd have pos: "0 < numeral_value b ds" using assms by (cases "numeral_value b ds") (auto simp: digits.simps [of b 0])
    then have "b \<le> b * numeral_value b ds + d" using assms by (cases "numeral_value b ds") simp_all
    then have "digits b (b * numeral_value b ds + d) = digits b (numeral_value b ds) @ [d]"
      using assms d by (subst digits.simps) simp
    then show ?thesis by (simp add: v ds)
  qed
qed

lemma digits_length_le: "2 \<le> b \<Longrightarrow> 0 < k \<Longrightarrow> n < b ^ k \<Longrightarrow> length (digits b n) \<le> k"
proof (induction b n arbitrary: k rule: digits.induct)
  case (1 b n)
  show ?case
  proof (cases "n < b")
    case True
    then show ?thesis using 1 by (simp add: digits.simps [of b n])
  next
    case False
    then obtain l where l: "k = Suc l" "0 < l"
      using 1(3,4) by (cases k; cases "k - 1") auto
    have "n div b < b ^ l" using 1(2,4) l by (simp add: div_less_iff_less_mult mult.commute)
    with 1 False l show ?thesis by (simp add: digits.simps [of b n])
  qed
qed

text \<open>The character of a digit, and its byte.\<close>

definition digit_char :: "bool \<Rightarrow> nat \<Rightarrow> int" where
  "digit_char upper d = (if d < 10 then 48 + int d else (if upper then 65 else 97) + int d - 10)"

definition byte :: "int \<Rightarrow> u8" where
  "byte c = word_of_int c"

lemma sint_byte: "0 \<le> c \<Longrightarrow> c < 128 \<Longrightarrow> sint (byte c) = c"
  unfolding byte_def sint_sbintrunc' by (rule signed_take_bit_int_eq_self) simp_all

lemma byte_nonzero: "0 < c \<Longrightarrow> c < 128 \<Longrightarrow> byte c \<noteq> 0"
  using sint_byte [of c] by auto

lemma digit_char_range: "d < 16 \<Longrightarrow> 48 \<le> digit_char upper d \<and> digit_char upper d < 128"
  by (auto simp: digit_char_def)

section \<open>The digit loops\<close>

lemma int_of_u64_small: "unat w < 2 ^ 31 \<Longrightarrow> int_of_u64 w = int (unat w)"
proof -
  assume "unat w < 2 ^ 31"
  then have "int_of_u64 w = sint (word_of_int (int (unat w)) :: u32)"
    using ucast_u32_of_nat [of "unat w"] by (simp add: int_of_u64_def)
  also have "\<dots> = int (unat w)"
  proof (rule sint_u32_small)
    show "INT_MIN \<le> int (unat w)" by (rule order_trans [of _ 0]) (simp_all add: INT_MIN_def)
    have "int (unat w) < int (2 ^ 31)" using \<open>unat w < 2 ^ 31\<close> by (simp only: of_nat_less_iff)
    then show "int (unat w) \<le> INT_MAX" by (simp add: INT_MAX_def)
  qed
  finally show ?thesis .
qed

lemma wr_append:
  assumes "k < length buf"
  shows "buf[k := v] = take k buf @ v # drop (Suc k) buf"
  using assms by (rule upd_conv_take_nth_drop)

lemma unsigned_digits_result:
  assumes "2 \<le> base" and "base \<le> 16"
  shows "unsigned_digits n (of_nat base) upper buf k =
    (let ds = map (\<lambda>d. byte (digit_char upper d)) (digits base (unat n))
     in if k + length ds \<le> length buf
        then Inr (take k buf @ rev ds @ drop (k + length ds) buf, k + length ds)
        else Inl OutOfBounds)"
proof (induction "unat n" arbitrary: n buf k rule: less_induct)
  case less
  have ub: "unat (of_nat base :: u64) = base"
    by (rule unat_of_nat_small) (use assms in simp)
  then have b0: "(of_nat base :: u64) \<noteq> 0" using assms by auto
  have um: "unat (n mod of_nat base) = unat n mod base" by (simp add: unat_mod_distrib ub)
  have ud: "unat (n div of_nat base) = unat n div base" by (simp add: unat_div_distrib ub)
  have lt: "unat n mod base < 16" using assms mod_less_divisor [of base "unat n"] by linarith
  have dig: "int_of_u64 (n mod of_nat base) = int (unat n mod base)"
    using lt by (subst int_of_u64_small) (simp_all add: um)
  let ?c = "byte (digit_char upper (unat n mod base))"
  have step: "unsigned_digits n (of_nat base) upper buf k =
      (if k < length buf
       then if unat n < base then Inr (buf[k := ?c], Suc k)
            else unsigned_digits (n div of_nat base) (of_nat base) upper (buf[k := ?c]) (Suc k)
       else Inl OutOfBounds)"
  proof -
    have z: "n div of_nat base = 0 \<longleftrightarrow> unat n < base"
      using assms by (simp add: word_unat_eq_iff ud div_eq_0_iff)
    show ?thesis
      by (subst unsigned_digits.simps)
        (auto simp: b0 dig Let_def wr_def z byte_def digit_char_def of_nat_less_iff)
  qed
  show ?case
  proof (cases "unat n < base")
    case True
    then show ?thesis
      unfolding step using assms by (auto simp: digits.simps [of base "unat n"] wr_append Let_def)
  next
    case False
    have dec: "unat (n div of_nat base) < unat n"
      unfolding ud using False assms by (intro div_less_dividend) auto
    have ds: "digits base (unat n) = digits base (unat n div base) @ [unat n mod base]"
      using False assms by (subst digits.simps) simp
    show ?thesis
    proof (cases "k < length buf")
      case True
      define l where "l = length (digits base (unat n div base))"
      have "take (Suc k) (buf[k := ?c]) = take k buf @ [?c]"
        using True by (simp add: wr_append)
      moreover have "drop (Suc k + l) (buf[k := ?c]) = drop (Suc k + l) buf"
        by simp
      ultimately show ?thesis
        unfolding step less(1) [OF dec] ud ds
        using False True by (simp add: Let_def l_def)
    qed (simp add: step ds Let_def)
  qed
qed

lemma utoa_loop_digits: "utoa_loop n buf k base = unsigned_digits n base True buf k"
proof (induction n buf k base rule: utoa_loop.induct)
  case (1 n buf k base)
  show ?case
  proof (cases "base = 0 \<or> \<not> k < length buf")
    case True
    then show ?thesis
      by (auto simp: utoa_loop.simps [of n buf] unsigned_digits.simps [of n base] Let_def wr_def)
  next
    case False
    then show ?thesis using 1
      by (simp add: utoa_loop.simps [of n buf] unsigned_digits.simps [of n base] Let_def)
  qed
qed

lemma int_digits_unsigned:
  assumes "0 \<le> n" and "n \<le> LLONG_MAX"
  shows "int_digits n buf k = unsigned_digits (word_of_int n) 10 True buf k"
  using assms
proof (induction n buf k rule: int_digits.induct)
  case (1 n buf k)
  have un: "uint (word_of_int n :: u64) = n"
    by (rule uint_word_of_int_eq [THEN trans]) (use 1(2,3) in \<open>simp add: LLONG_MAX_def take_bit_int_eq_self\<close>)
  have um: "(word_of_int n mod 10 :: u64) = word_of_int (n mod 10)"
    and ud: "(word_of_int n div 10 :: u64) = word_of_int (n div 10)"
    using un by (simp_all add: word_mod_def word_div_def)
  have small: "uint (word_of_int (n div 10) :: u64) = n div 10"
    using un uint_div_distrib [of "word_of_int n :: u64" 10] by (simp add: ud)
  have z: "(word_of_int (n div 10) :: u64) = 0 \<longleftrightarrow> n div 10 = 0"
    using small by (metis of_int_0 uint_0_iff)
  have m: "uint (word_of_int (n mod 10) :: u64) = n mod 10"
    using un uint_mod_distrib [of "word_of_int n :: u64" 10] by (simp add: um)
  have dig: "int_of_u64 (word_of_int (n mod 10)) = n mod 10"
    by (subst int_of_u64_small) (use m in \<open>simp_all add: unat_eq_nat_uint\<close>)
  show ?case
  proof (cases "k < length buf")
    case False
    then show ?thesis
      by (simp add: int_digits.simps [of n] unsigned_digits.simps [of _ 10] Let_def wr_def)
  next
    case True
    define buf' where "buf' = buf[k := word_of_int (48 + n mod 10)]"
    have "int_digits n buf k =
        (if n div 10 = 0 then Inr (buf', Suc k) else int_digits (n div 10) buf' (Suc k))"
      using True by (subst int_digits.simps) (simp add: Let_def buf'_def)
    moreover have "unsigned_digits (word_of_int n) 10 True buf k =
        (if n div 10 = 0 then Inr (buf', Suc k)
         else unsigned_digits (word_of_int (n div 10)) 10 True buf' (Suc k))"
      using True by (subst unsigned_digits.simps) (simp only: um ud dig z Let_def, simp add: buf'_def)
    moreover have "int_digits (n div 10) buf' (Suc k) =
        unsigned_digits (word_of_int (n div 10)) 10 True buf' (Suc k)" if "n div 10 \<noteq> 0"
      by (rule 1(1)) (use True that 1(2,3) in \<open>simp_all add: buf'_def LLONG_MAX_def\<close>)
    ultimately show ?thesis by simp
  qed
qed

lemma fill_zeros_result:
  "fill_zeros precision buf k =
    (let m = nat (precision - int k)
     in if m = 0 then Inr (buf, k)
        else if k + m \<le> length buf then Inr (take k buf @ replicate m 48 @ drop (k + m) buf, k + m)
        else Inl OutOfBounds)"
proof (induction "nat (precision - int k)" arbitrary: buf k)
  case 0
  then show ?case by (simp add: fill_zeros.simps [of precision])
next
  case (Suc m)
  then have lt: "int k < precision" and m: "m = nat (precision - int (Suc k))" by simp_all
  show ?case
  proof (cases "k < length buf")
    case False
    then show ?thesis
      using lt Suc.hyps(2) by (simp add: fill_zeros.simps [of precision] Let_def)
  next
    case True
    have eq: "fill_zeros precision buf k = fill_zeros precision (buf[k := 48]) (Suc k)"
      using lt True by (subst fill_zeros.simps) simp
    have tk: "take (Suc k) (buf[k := 48]) = take k buf @ [48]" using True by (simp add: wr_append)
    show ?thesis
      unfolding eq Suc.hyps(1) [OF m] Suc.hyps(2) [symmetric] m [symmetric] Let_def
      using True tk by (cases "m = 0") (auto simp: wr_append add.commute)
  qed
qed

section \<open>The text of a number\<close>

definition number_text :: "bool \<Rightarrow> nat \<Rightarrow> int \<Rightarrow> nat \<Rightarrow> int list" where
  "number_text upper base precision n =
     (if precision = 0 \<and> n = 0 then []
      else let ds = map (digit_char upper) (digits base n)
           in replicate (nat (precision - int (length ds))) 48 @ ds)"

text \<open>A sign, and filling up to the width on the left, on the right or after the sign.\<close>

definition field_text :: "int \<Rightarrow> int \<Rightarrow> int \<Rightarrow> int list \<Rightarrow> int list \<Rightarrow> int list" where
  "field_text width align pad sign body =
     (let k = nat (width - int (length sign + length body))
      in if align \<noteq> 0 then sign @ body @ replicate k 32
         else if pad = 48 then sign @ replicate k 48 @ body
         else replicate k pad @ sign @ body)"

definition stored :: "u8 list \<Rightarrow> int list \<Rightarrow> u8 list" where
  "stored buf body = map byte body @ 0 # drop (Suc (length body)) buf"

lemma number_text_range:
  assumes "2 \<le> base" and "base \<le> 16" and "c \<in> set (number_text upper base precision n)"
  shows "48 \<le> c \<and> c < 128"
  using assms digits_less [of base _ n] digit_char_range [of _ upper]
  by (fastforce simp: number_text_def Let_def split: if_splits)

text \<open>Both printers: digits, zeros, the final 0 and the reversal.\<close>

definition write_number ::
    "u64 \<Rightarrow> nat \<Rightarrow> bool \<Rightarrow> int \<Rightarrow> u8 list \<Rightarrow> (u8 list \<times> nat) res" where
  "write_number n base upper precision buf =
     (if precision \<noteq> 0 \<or> n \<noteq> 0
      then rbind (unsigned_digits n (of_nat base) upper buf 0) (\<lambda>(buf, num_len).
             fill_zeros precision buf num_len)
      else Inr (buf, 0))"

lemma write_number_result:
  assumes "2 \<le> base" and "base \<le> 16" and "length buf = 32"
  shows "write_number n base upper precision buf =
    (let body = number_text upper base precision (unat n)
     in if length body \<le> 32
        then Inr (rev (map byte body) @ drop (length body) buf, length body)
        else Inl OutOfBounds)"
proof (cases "precision = 0 \<and> n = 0")
  case True
  then show ?thesis by (simp add: write_number_def number_text_def)
next
  case False
  define ds where "ds = map (digit_char upper) (digits base (unat n))"
  define m where "m = nat (precision - int (length ds))"
  have nz: "\<not> (precision = 0 \<and> unat n = 0)" using False by (simp add: unat_eq_0)
  have body: "number_text upper base precision (unat n) = replicate m 48 @ ds"
    using nz by (simp add: number_text_def ds_def m_def Let_def)
  have "map (\<lambda>d. byte (digit_char upper d)) (digits base (unat n)) = map byte ds"
    by (simp add: ds_def)
  then have ud: "unsigned_digits n (of_nat base) upper buf 0 =
      (if length ds \<le> 32 then Inr (rev (map byte ds) @ drop (length ds) buf, length ds)
       else Inl OutOfBounds)"
    unfolding unsigned_digits_result [OF assms(1,2)] using assms(3)
    by (simp add: Let_def)
  have b48: "byte 48 = 48" by (simp add: byte_def)
  show ?thesis
  proof (cases "length ds \<le> 32")
    case True
    then show ?thesis
      using False assms(3)
      by (auto simp: write_number_def ud body fill_zeros_result Let_def b48 add.commute
          simp flip: m_def)
  next
    case False
    then show ?thesis
      using nz by (auto simp: write_number_def ud body Let_def)
  qed
qed

lemma terminate_number:
  assumes "length buf = 32" and "\<And>c. c \<in> set body \<Longrightarrow> 48 \<le> c \<and> c < 128" and "length body \<le> 32"
  shows "rbind (wr (rev (map byte body) @ drop (length body) buf) (length body) 0)
      (\<lambda>buf. strrev buf 0) =
    (if length body \<le> 31 then Inr (stored buf body) else Inl OutOfBounds)"
proof (cases "length body \<le> 31")
  case False
  then show ?thesis using assms(1,3) by simp
next
  case True
  have nz: "0 \<notin> set (rev (map byte body))"
  proof
    assume "0 \<in> set (rev (map byte body))"
    then obtain c where "c \<in> set body" "byte c = 0" by auto
    with assms(2) [of c] byte_nonzero [of c] show False by simp
  qed
  let ?b = "rev (map byte body) @ 0 # drop (Suc (length body)) buf"
  have w: "(rev (map byte body) @ drop (length body) buf)[length body := 0] = ?b"
  proof -
    have "drop (length body) buf = buf ! length body # drop (Suc (length body)) buf"
      using True assms(1) by (simp add: Cons_nth_drop_Suc)
    then show ?thesis by (simp add: list_update_append)
  qed
  have "cstr ?b 0 (rev (map byte body))" unfolding cstr_def using nz by auto
  then have "strrev ?b 0 = Inr (stored buf body)"
    using strrev_cstr [of ?b 0 "rev (map byte body)"] True by (simp add: stored_def)
  then show ?thesis using True assms(1) by (simp add: w)
qed

lemma buff_out_string:
  assumes "str_buff s = pre @ map byte cs @ 0 # post" and "\<And>c. c \<in> set cs \<Longrightarrow> 0 < c \<and> c < 128"
  shows "buff_out (length pre) s = Inr (s\<lparr>out := out s @ cs\<rparr>)"
  using assms
proof (induction cs arbitrary: pre s)
  case Nil
  then show ?case by (subst buff_out.simps) (simp add: rd_def)
next
  case (Cons c cs)
  have c: "sint (byte c) = c" "byte c \<noteq> 0"
    using Cons.prems(2) [of c] sint_byte byte_nonzero by simp_all
  let ?s = "putchar c s"
  have "str_buff ?s = (pre @ [byte c]) @ map byte cs @ 0 # post"
    using Cons.prems(1) by (simp add: putchar_def)
  from Cons.IH [OF this] Cons.prems(2)
  have "buff_out (Suc (length pre)) ?s = Inr (?s\<lparr>out := out ?s @ cs\<rparr>)" by simp
  then show ?case
    using Cons.prems(1) c by (subst buff_out.simps) (simp add: rd_def putchar_def)
qed

lemma buff_out_stored:
  assumes "\<And>c. c \<in> set body \<Longrightarrow> 48 \<le> c \<and> c < 128" and "str_buff s = stored buf body"
  shows "buff_out 0 s = Inr (s\<lparr>out := out s @ body\<rparr>)"
  using buff_out_string [of s "[]" body] assms by (fastforce simp: stored_def)

lemma pad_out_result: "pad_out w c (cnt, s) =
    (cnt + int (nat w), s\<lparr>out := out s @ replicate (nat w) c\<rparr>)"
proof (induction "nat w" arbitrary: w cnt s)
  case 0
  then show ?case by (simp add: pad_out.simps)
next
  case (Suc k)
  then have "k = nat (w - 1)" and w: "0 < w" by auto
  from Suc.hyps(1) [OF this(1), of "cnt + 1" "putchar c s"] Suc.hyps(2) show ?case
    by (subst pad_out.simps)
      (simp add: w putchar_def flip: \<open>k = nat (w - 1)\<close> Suc.hyps(2) replicate_append_same)
qed

section \<open>The number printers\<close>

lemma write_number_stage:
  "(if precision \<noteq> 0 \<or> n \<noteq> 0
    then rbind (unsigned_digits n (of_nat base) upper buf 0) (\<lambda>(buf, num_len).
           rbind (fill_zeros precision buf num_len) (\<lambda>(buf, num_len).
             Inr (buf, num_len, if precision > 0 then 32 else pad)))
    else Inr (buf, 0, pad)) =
   rbind (write_number n base upper precision buf) (\<lambda>(buf, num_len).
     Inr (buf, num_len, if precision > 0 then 32 else pad))"
  by (simp add: write_number_def rbind_assoc split_def)

lemma print_unsigned_text:
  assumes "length (str_buff s) = 32" and "2 \<le> base" "base \<le> 16" and "pad = 32 \<or> pad = 48"
  shows "print_unsigned n width precision align pad (int base) upper s =
    (let body = number_text upper base precision (unat n);
         text = field_text width align (if precision > 0 then 32 else pad) [] body
     in if length body \<le> 31
        then Inr (int (length text),
          s\<lparr>str_buff := stored (str_buff s) body, out := out s @ text\<rparr>)
        else Inl OutOfBounds)"
proof -
  let ?body = "number_text upper base precision (unat n)"
  note range = number_text_range [OF assms(2,3), of _ upper precision "unat n"]
  have wi: "(word_of_int (int base) :: u64) = of_nat base" by simp
  note written = write_number_result [OF assms(2,3,1), of n upper precision, unfolded Let_def]
  show ?thesis
  proof (cases "length ?body \<le> 32")
    case False
    then show ?thesis
      unfolding print_unsigned_def wi write_number_stage written by (simp add: Let_def)
  next
    case True
    note ended = terminate_number [OF assms(1) range True]
    have split: "rbind (wr b k 0) (\<lambda>buf. rbind (strrev buf 0) f) =
        rbind (rbind (wr b k 0) (\<lambda>buf. strrev buf 0)) f" for b k and f :: "u8 list \<Rightarrow> (int \<times> fmt) res"
      by (simp add: rbind_assoc)
    show ?thesis
    proof (cases "length ?body \<le> 31")
      case False
      then show ?thesis
        unfolding print_unsigned_def wi write_number_stage written
        using True ended by (simp add: Let_def split)
    next
      case len: True
      then show ?thesis
        unfolding print_unsigned_def wi write_number_stage written
        using True ended assms(4)
        by (auto simp: Let_def split buff_out_stored [OF range] pad_out_result field_text_def)
    qed
  qed
qed

text \<open>The sign \<open>__print_int\<close> prints: a minus, or the prefix the flags ask for.\<close>

definition sign_text :: "int \<Rightarrow> int \<Rightarrow> int list" where
  "sign_text n prefix = (if n < 0 then [45] else if prefix \<noteq> 0 then [prefix] else [])"

lemma print_int_stage:
  assumes "LLONG_MIN < n" and "n \<le> LLONG_MAX"
  shows "(if precision \<noteq> 0 \<or> n \<noteq> 0
        then rbind (if n < 0 then c_llong (- n) else Inr n) (\<lambda>m.
             rbind (int_digits m buf 0) (\<lambda>(buf, num_len).
             rbind (fill_zeros precision buf num_len) (\<lambda>(buf, num_len).
               Inr (buf, num_len, if n < 0 then 45 else prefix, if precision > 0 then 32 else pad))))
        else Inr (buf, 0, prefix, pad)) =
      rbind (write_number (word_of_int \<bar>n\<bar>) 10 True precision buf) (\<lambda>(buf, num_len).
        Inr (buf, num_len, if n < 0 then 45 else prefix, if precision > 0 then 32 else pad))"
proof -
  have abs: "\<bar>n\<bar> \<le> LLONG_MAX" using assms by (simp add: LLONG_MAX_def LLONG_MIN_def)
  have m: "(if n < 0 then c_llong (- n) else Inr n) = Inr \<bar>n\<bar>"
    using abs by (auto simp: LLONG_MIN_def)
  have "uint (word_of_int \<bar>n\<bar> :: u64) = \<bar>n\<bar>"
    using abs by (subst uint_word_of_int_eq) (simp add: LLONG_MAX_def take_bit_int_eq_self)
  then have z: "(word_of_int \<bar>n\<bar> :: u64) = 0 \<longleftrightarrow> n = 0"
    by (metis abs_eq_0 of_int_0 uint_0_iff)
  have d: "int_digits \<bar>n\<bar> buf 0 = unsigned_digits (word_of_int \<bar>n\<bar>) (of_nat 10) True buf 0"
    using int_digits_unsigned [OF abs_ge_zero abs] by simp
  show ?thesis
    unfolding m by (auto simp: write_number_def z d rbind_assoc split_def)
qed

lemma print_int_text:
  assumes "length (str_buff s) = 32" and "LLONG_MIN < n" and "n \<le> LLONG_MAX"
    and "pad = 32 \<or> pad = 48"
  shows "print_int n width precision align prefix pad s =
    (let body = number_text True 10 precision (nat \<bar>n\<bar>);
         text = field_text width align (if precision > 0 then 32 else pad) (sign_text n prefix) body
     in if length body \<le> 31
        then Inr (int (length text),
          s\<lparr>str_buff := stored (str_buff s) body, out := out s @ text\<rparr>)
        else Inl OutOfBounds)"
proof -
  let ?w = "word_of_int \<bar>n\<bar> :: u64"
  have abs: "\<bar>n\<bar> \<le> LLONG_MAX" using assms(2,3) by (simp add: LLONG_MAX_def LLONG_MIN_def)
  have "uint ?w = \<bar>n\<bar>"
    using abs by (subst uint_word_of_int_eq) (simp add: LLONG_MAX_def take_bit_int_eq_self)
  then have u: "unat ?w = nat \<bar>n\<bar>" by (simp only: unat_eq_nat_uint)
  let ?body = "number_text True 10 precision (nat \<bar>n\<bar>)"
  note range = number_text_range [of 10 _ True precision "nat \<bar>n\<bar>"]
  note written = write_number_result [of 10, OF _ _ assms(1), of ?w True precision,
      unfolded Let_def u]
  have split: "rbind (wr b k 0) (\<lambda>buf. rbind (strrev buf 0) f) =
      rbind (rbind (wr b k 0) (\<lambda>buf. strrev buf 0)) f" for b k and f :: "u8 list \<Rightarrow> (int \<times> fmt) res"
    by (simp add: rbind_assoc)
  show ?thesis
  proof (cases "length ?body \<le> 31")
    case False
    have "length ?body \<le> 32 \<Longrightarrow> rbind (rbind (wr (rev (map byte ?body) @ drop (length ?body)
        (str_buff s)) (length ?body) 0) (\<lambda>buf. strrev buf 0)) f = Inl OutOfBounds"
      for f :: "u8 list \<Rightarrow> (int \<times> fmt) res"
      using terminate_number [OF assms(1) range, simplified] False by simp
    then show ?thesis
      unfolding print_int_def print_int_stage [OF assms(2,3)]
      using False by (simp add: written Let_def split)
  next
    case True
    then have "length ?body \<le> 32" by simp
    note ended = terminate_number [OF assms(1) range this, simplified]
    show ?thesis
      unfolding print_int_def print_int_stage [OF assms(2,3)]
      using True ended assms(4)
      by (simp add: written Let_def split buff_out_stored [OF range] pad_out_result
          field_text_def putchar_def sign_text_def algebra_simps)
  qed
qed

section \<open>Reading a numeral back\<close>

definition digit_bytes :: "nat \<Rightarrow> u8 list" where
  "digit_bytes n = map (\<lambda>d. byte (digit_char True d)) (digits 10 n)"

lemma foldl_digits_mono: "b \<le> foldl (\<lambda>a d. 10 * a + d) b ds" for b :: nat
proof (induction ds arbitrary: b)
  case (Cons e ds)
  have "b \<le> 10 * b + e" by simp
  also have "\<dots> \<le> foldl (\<lambda>a d. 10 * a + d) (10 * b + e) ds" by (rule Cons.IH)
  finally show ?case by simp
qed simp

lemma read_digits:
  assumes "fmt = pre @ map (\<lambda>d. byte (digit_char True d)) ds @ c # post"
    and "\<And>d. d \<in> set ds \<Longrightarrow> d < 10" and "\<not> is_digit (sint c)" and "int a \<le> INT_MAX"
  shows "read_int fmt (length pre) (int a) =
    (let v = int (foldl (\<lambda>a d. 10 * a + d) a ds)
     in if v \<le> INT_MAX then Inr (length pre + length ds, v) else Inl SignedOverflow)"
  using assms
proof (induction ds arbitrary: pre a)
  case Nil
  then show ?case by (subst read_int.simps) (simp add: rd_def)
next
  case (Cons d ds)
  have d: "d < 10" using Cons.prems(2) by simp
  then have c: "sint (byte (digit_char True d)) = 48 + int d"
    by (subst sint_byte) (simp_all add: digit_char_def)
  have ok: "rbind (c_int (int a * 10)) (\<lambda>m. rbind (c_int (m + int d)) f) =
      (if int (10 * a + d) \<le> INT_MAX then f (int (10 * a + d)) else Inl SignedOverflow)" for f :: "int \<Rightarrow> (nat \<times> int) res"
    by (simp add: c_int_def INT_MIN_def mult.commute)
  have eq: "fmt = (pre @ [byte (digit_char True d)]) @ map (\<lambda>d. byte (digit_char True d)) ds @ c # post"
    using Cons.prems(1) by simp
  have run: "read_int fmt (length pre) (int a) =
      (if int (10 * a + d) \<le> INT_MAX then read_int fmt (Suc (length pre)) (int (10 * a + d)) else Inl SignedOverflow)"
    using Cons.prems(1) c d
    by (subst read_int.simps) (simp add: rd_def is_digit_def chint_def ok del: of_nat_add of_nat_mult)
  show ?case
  proof (cases "int (10 * a + d) \<le> INT_MAX")
    case True
    then have "read_int fmt (Suc (length pre)) (int (10 * a + d)) =
        (let v = int (foldl (\<lambda>a d. 10 * a + d) (10 * a + d) ds)
         in if v \<le> INT_MAX then Inr (Suc (length pre) + length ds, v) else Inl SignedOverflow)"
      using Cons.IH [OF eq _ Cons.prems(3), of "10 * a + d"] Cons.prems(2) by (simp add: Let_def)
    then show ?thesis using True unfolding run by (simp add: Let_def)
  next
    case False
    then have "\<not> int (foldl (\<lambda>a d. 10 * a + d) (10 * a + d) ds) \<le> INT_MAX"
      using foldl_digits_mono [of "10 * a + d" ds] by linarith
    then show ?thesis using False by (simp add: run Let_def)
  qed
qed

lemma read_int_any:
  assumes "fmt = pre @ digit_bytes n @ c # post" and "\<not> is_digit (sint c)"
  shows "read_int fmt (length pre) 0 =
    (if int n \<le> INT_MAX then Inr (length pre + length (digit_bytes n), int n) else Inl SignedOverflow)"
proof -
  have v: "foldl (\<lambda>a d. 10 * a + d) 0 (digits 10 n) = n"
    using digits_value [of 10 n] by (simp add: numeral_value_def)
  show ?thesis
    using read_digits [of fmt pre "digits 10 n" c post 0] assms digits_less [of 10 _ n] v
    by (simp add: digit_bytes_def Let_def INT_MAX_def)
qed

lemma read_int_digits:
  assumes "fmt = pre @ digit_bytes n @ c # post" and "\<not> is_digit (sint c)" and "int n \<le> INT_MAX"
  shows "read_int fmt (length pre) 0 = Inr (length pre + length (digit_bytes n), int n)"
  using read_int_any [OF assms(1,2)] assms(3) by simp

text \<open>What \<open>__utoa\<close> leaves in the buffer.\<close>

lemma utoa_result:
  assumes "2 \<le> base" and "base \<le> 16"
  shows "utoa n buf off (int base) =
    (let ds = map (\<lambda>d. byte (digit_char True d)) (digits base (unat n))
     in if off + length ds < length buf
        then Inr (take off buf @ ds @ 0 # drop (Suc (off + length ds)) buf)
        else Inl OutOfBounds)"
proof -
  let ?ds = "map (\<lambda>d. byte (digit_char True d)) (digits base (unat n))"
  have wi: "(word_of_int (int base) :: u64) = of_nat base" by simp
  note loop = utoa_loop_digits unsigned_digits_result [OF assms] Let_def
  show ?thesis
  proof (cases "off + length ?ds < length buf")
    case False
    then show ?thesis
      unfolding utoa_def wi loop by (cases "off + length ?ds \<le> length buf") simp_all
  next
    case True
    let ?b = "take off buf @ rev ?ds @ 0 # drop (Suc (off + length ?ds)) buf"
    have wrote: "(take off buf @ rev ?ds @ drop (off + length ?ds) buf)[off + length ?ds := 0] = ?b"
    proof -
      have "drop (off + length ?ds) buf = buf ! (off + length ?ds) # drop (Suc (off + length ?ds)) buf"
        using True by (rule Cons_nth_drop_Suc [symmetric])
      then show ?thesis using True by (simp add: list_update_append)
    qed
    have "0 \<notin> set (rev ?ds)"
    proof
      assume "0 \<in> set (rev ?ds)"
      then obtain d where d: "d \<in> set (digits base (unat n))" "byte (digit_char True d) = 0" by auto
      then have "d < 16" using digits_less [OF assms(1)] assms(2) by (metis less_le_trans)
      with digit_char_range [of d True] byte_nonzero d(2) show False by auto
    qed
    then have c: "cstr ?b off (rev ?ds)" unfolding cstr_def using True by auto
    have "unat n < 2 ^ 64" using unsigned_less [of n, where 'a = nat] by simp
    also have "(2 :: nat) ^ 64 \<le> base ^ 64" using assms(1) by (rule power_mono) simp
    finally have "length (digits base (unat n)) \<le> 64"
      by (intro digits_length_le) (use assms in auto)
    then have "strrev ?b off = Inr (take off buf @ ?ds @ 0 # drop (Suc (off + length ?ds)) buf)"
      using strrev_cstr [OF c] True by simp
    then show ?thesis
      unfolding utoa_def wi loop using True wrote by simp
  qed
qed

end
