(* ===== verification/FmtLoop.thy ===== *)
theory FmtLoop
  imports FmtNumbers
begin

text \<open>
  The rest of \<open>fmt.c\<close>: strings and characters, the syntax of directives, and what
  \<open>__proto_print\<close> counts.
\<close>

section \<open>Strings\<close>

lemma spaces_out_result: "spaces_out n s = s\<lparr>out := out s @ replicate (nat n) 32\<rparr>"
  by (simp add: spaces_out_def pad_out_result)

lemma chars_out_result:
  assumes "n \<le> length xs" and "cstr str i xs"
  shows "chars_out str i (int i + int n) s = Inr (s\<lparr>out := out s @ map sint (take n xs)\<rparr>)"
  using assms
proof (induction n arbitrary: i xs s)
  case 0
  then show ?case by (subst chars_out.simps) simp
next
  case (Suc n)
  then obtain x ys where xs: "xs = x # ys" "n \<le> length ys" by (cases xs) auto
  with Suc.prems(2) have x: "rd str i = Inr x" "cstr str (Suc i) ys" using cstr_Cons by auto
  have "chars_out str i (int i + int (Suc n)) s =
      chars_out str (Suc i) (int (Suc i) + int n) (putchar (sint x) s)"
    using x(1) by (subst chars_out.simps) (simp add: algebra_simps)
  also have "\<dots> = Inr ((putchar (sint x) s)\<lparr>out := out (putchar (sint x) s) @ map sint (take n ys)\<rparr>)"
    by (rule Suc.IH [OF xs(2) x(2)])
  finally show ?case by (simp add: putchar_def xs(1))
qed

lemma print_str_text:
  assumes "cstr str 0 xs" and "int (length xs) \<le> INT_MAX" and "width \<le> INT_MAX"
  shows "print_str str width precision align s =
    (let text = map sint (if precision \<ge> 0 then take (nat precision) xs else xs);
         fill = replicate (nat (width - int (length text))) 32
     in Inr (max width (int (length text)),
          s\<lparr>out := out s @ (if align \<noteq> 0 then text @ fill else fill @ text)\<rparr>))"
proof -
  have small: "unat (of_nat (length xs) :: u64) = length xs"
    by (rule unat_of_nat_small) (use assms(2) in \<open>simp add: INT_MAX_def\<close>)
  have len: "int_of_u64 (of_nat (length xs)) = int (length xs)"
    by (subst int_of_u64_small) (use small assms(2) in \<open>simp_all add: INT_MAX_def\<close>)
  define n where "n = (if precision \<ge> 0 then min (length xs) (nat precision) else length xs)"
  have n: "(if precision \<ge> 0 \<and> int (length xs) > precision then precision else int (length xs)) = int n"
    by (auto simp: n_def)
  have nle: "n \<le> length xs" by (simp add: n_def)
  have taken: "(if precision \<ge> 0 then take (nat precision) xs else xs) = take n xs"
    by (auto simp: n_def min_def)
  have pad: "(if width > int n then c_int (width - int n) else Inr 0) = Inr (int (nat (width - int n)))"
    using assms(3) by (auto simp: INT_MIN_def)
  have tot: "int n + int (nat (width - int n)) = max width (int n)" by auto
  have ok: "c_int (max width (int n)) = Inr (max width (int n))"
    using assms(2,3) nle by (simp add: INT_MIN_def)
  have co: "chars_out str 0 (int n) t = Inr (t\<lparr>out := out t @ map sint (take n xs)\<rparr>)" for t
    using chars_out_result [OF nle assms(1), of t] by simp
  show ?thesis
    unfolding print_str_def strlen_cstr [OF assms(1)] rbind_simps len Let_def n pad tot ok taken
    using nle by (auto simp: co spaces_out_result)
qed

section \<open>Directives\<close>

text \<open>A directive as it is written: flags, width, precision, length modifier, conversion.\<close>

record dir_syntax =
  ds_flags :: "u8 list"
  ds_width :: "nat option"
  ds_precision :: "nat option"
  ds_length :: int
  ds_conv :: u8

definition length_text :: "int \<Rightarrow> u8 list" where
  "length_text len = (if len = -2 then [104, 104] else if len = -1 then [104]
     else if len = 1 then [108] else if len = 2 then [108, 108] else [])"

definition dir_text :: "dir_syntax \<Rightarrow> u8 list" where
  "dir_text d = ds_flags d @
     (case ds_width d of None \<Rightarrow> [] | Some w \<Rightarrow> digit_bytes w) @
     (case ds_precision d of None \<Rightarrow> [] | Some p \<Rightarrow> 46 # digit_bytes p) @
     length_text (ds_length d) @ [ds_conv d]"

definition dir_ok :: "dir_syntax \<Rightarrow> bool" where
  "dir_ok d \<longleftrightarrow> set (ds_flags d) \<subseteq> {45, 43, 32, 48} \<and>
     (\<forall>w. ds_width d = Some w \<longrightarrow> 0 < w \<and> int w \<le> INT_MAX) \<and>
     (\<forall>p. ds_precision d = Some p \<longrightarrow> int p \<le> INT_MAX) \<and>
     ds_length d \<in> {-2, -1, 0, 1, 2} \<and>
     ds_conv d \<in> {100, 105, 98, 117, 111, 120, 88, 102, 99, 115, 112, 37}"

definition dir_meaning :: "dir_syntax \<Rightarrow> directive" where
  "dir_meaning d =
     \<lparr>d_width = (case ds_width d of None \<Rightarrow> -1 | Some w \<Rightarrow> int w),
      d_precision = (case ds_precision d of None \<Rightarrow> -1 | Some p \<Rightarrow> int p),
      d_length = ds_length d,
      d_align = (if 45 \<in> set (ds_flags d) then 1 else 0),
      d_prefix = (if 43 \<in> set (ds_flags d) then 43 else if 32 \<in> set (ds_flags d) then 32 else 0),
      d_pad = (if 48 \<in> set (ds_flags d) then 48 else 32),
      d_conv = ds_conv d\<rparr>"

lemma sint_inj: "sint (c :: 'a::len word) = sint d \<longleftrightarrow> c = d"
proof
  assume "sint c = sint d"
  then have "word_of_int (sint c) = (word_of_int (sint d) :: 'a word)" by simp
  then show "c = d" by simp
qed simp

lemma flag_chars [simp]: "is_fmtflag (sint (c :: u8)) \<longleftrightarrow> c \<in> {45, 43, 32, 48}"
proof -
  have s: "sint (45 :: u8) = 45" "sint (43 :: u8) = 43" "sint (32 :: u8) = 32" "sint (48 :: u8) = 48"
    by simp_all
  have "sint c = sint (d :: u8) \<longleftrightarrow> c = d" for d using sint_inj [of c d] .
  from this [of 45] this [of 43] this [of 32] this [of 48] show ?thesis
    unfolding s by (simp add: is_fmtflag_def)
qed

lemma fmt_flags_run:
  assumes "fmt = pre @ fs @ c # post" and "set fs \<subseteq> {45, 43, 32, 48}" and "c \<notin> {45, 43, 32, 48}"
  shows "rbind (rd fmt (length pre)) (\<lambda>ch. fmt_flags fmt (Suc (length pre)) ch align prefix pad) =
    Inr (length pre + length fs + 1, c, if 45 \<in> set fs then 1 else align,
      if 43 \<in> set fs then 43 else if 32 \<in> set fs \<and> prefix \<noteq> 43 then 32 else prefix,
      if 48 \<in> set fs then 48 else pad)"
  using assms
proof (induction fs arbitrary: pre align prefix pad)
  case Nil
  then show ?case by (subst fmt_flags.simps) (simp add: rd_def)
next
  case (Cons f fs)
  have f: "f \<in> {45, 43, 32, 48}" and fs: "set fs \<subseteq> {45, 43, 32, 48}" using Cons.prems(2) by auto
  have eq: "fmt = (pre @ [f]) @ fs @ c # post" using Cons.prems(1) by simp
  let ?a = "if f = 45 then 1 else align"
  let ?x = "if f = 43 then 43 else if f = 32 then (if prefix \<noteq> 43 then 32 else prefix) else prefix"
  let ?p = "if f = 48 then 48 else pad"
  have "rbind (rd fmt (length pre)) (\<lambda>ch. fmt_flags fmt (Suc (length pre)) ch align prefix pad) =
      fmt_flags fmt (Suc (length pre)) f align prefix pad"
    using Cons.prems(1) by (simp add: rd_def)
  also have "\<dots> = rbind (rd fmt (length (pre @ [f]))) (\<lambda>ch.
      fmt_flags fmt (Suc (length (pre @ [f]))) ch ?a ?x ?p)"
    using f by (subst fmt_flags.simps) (simp add: Let_def)
  also have "\<dots> = Inr (length (pre @ [f]) + length fs + 1, c, if 45 \<in> set fs then 1 else ?a,
      if 43 \<in> set fs then 43 else if 32 \<in> set fs \<and> ?x \<noteq> 43 then 32 else ?x,
      if 48 \<in> set fs then 48 else ?p)"
    by (rule Cons.IH [OF eq fs Cons.prems(3)])
  finally show ?case using f by auto
qed

lemma digit_bytes_head:
  assumes "digit_bytes n = c # cs"
  shows "is_digit (sint c)" and "0 < n \<Longrightarrow> c \<noteq> 48"
proof -
  from assms obtain d ds where d: "digits 10 n = d # ds" "c = byte (digit_char True d)"
    by (auto simp: digit_bytes_def)
  have "d < 10" using digits_less [of 10 d n] d(1) by simp
  then have c: "sint c = 48 + int d" unfolding d(2) by (subst sint_byte) (simp_all add: digit_char_def)
  with \<open>d < 10\<close> show "is_digit (sint c)" by (simp add: is_digit_def)
  have pos: "0 < n \<Longrightarrow> digits b n = d # ds \<Longrightarrow> 2 \<le> b \<Longrightarrow> 0 < d" for b n d ds
  proof (induction b n arbitrary: ds rule: digits.induct)
    case (1 b n)
    show ?case
    proof (cases "n < b")
      case True
      then show ?thesis using "1.prems" by (simp add: digits.simps [of b n])
    next
      case False
      then have "0 < n div b" using "1.prems"(3) by (simp add: div_greater_zero_iff)
      moreover obtain es where "digits b (n div b) = d # es"
        using False "1.prems"(2,3)
        by (cases "digits b (n div b)") (auto simp: digits.simps [of b n])
      ultimately show ?thesis using "1.IH" False "1.prems"(3) by auto
    qed
  qed
  show "c \<noteq> 48" if "0 < n"
  proof
    assume "c = 48"
    then have "d = 0" using c by simp
    with pos [OF that d(1)] show False by simp
  qed
qed

lemma parse_width_run:
  assumes "fmt = pre @ ws @ c # post" and "\<not> is_digit (sint c)"
    and "ws = (case w of None \<Rightarrow> [] | Some n \<Rightarrow> digit_bytes n)" and "\<And>n. w = Some n \<Longrightarrow> int n \<le> INT_MAX"
  shows "parse_width fmt (Suc (length pre)) (hd (ws @ [c])) =
    Inr (length pre + length ws + 1, c, case w of None \<Rightarrow> -1 | Some n \<Rightarrow> int n)"
proof (cases w)
  case None
  then show ?thesis using assms by (simp add: parse_width_def)
next
  case (Some n)
  then have ws: "ws = digit_bytes n" using assms(3) by simp
  then have "ws \<noteq> []" by (simp add: digit_bytes_def)
  then obtain d ds where d: "ws = d # ds" by (cases ws) auto
  have "is_digit (sint d)" using digit_bytes_head(1) ws d by metis
  moreover have "read_int fmt (length pre) 0 = Inr (length pre + length ws, int n)"
    unfolding ws by (rule read_int_digits) (use assms Some ws in simp_all)
  moreover have "rd fmt (length pre + length ws) = Inr c" using assms(1) by (simp add: rd_def nth_append)
  ultimately show ?thesis using d Some by (simp add: parse_width_def)
qed

lemma parse_precision_run:
  assumes "fmt = pre @ ws @ c # post" and "\<not> is_digit (sint c)" and "c \<noteq> 46"
    and "ws = (case w of None \<Rightarrow> [] | Some n \<Rightarrow> 46 # digit_bytes n)"
    and "\<And>n. w = Some n \<Longrightarrow> int n \<le> INT_MAX"
  shows "parse_precision fmt (Suc (length pre)) (hd (ws @ [c])) =
    Inr (length pre + length ws + 1, c, case w of None \<Rightarrow> -1 | Some n \<Rightarrow> int n)"
proof (cases w)
  case None
  then show ?thesis using assms by (simp add: parse_precision_def)
next
  case (Some n)
  then have ws: "ws = 46 # digit_bytes n" using assms(4) by simp
  have "read_int fmt (length (pre @ [46])) 0 = Inr (length (pre @ [46]) + length (digit_bytes n), int n)"
    by (rule read_int_digits) (use assms Some ws in simp_all)
  moreover have "rd fmt (Suc (length pre + length (digit_bytes n))) = Inr c"
    using assms(1) ws by (simp add: rd_def nth_append)
  ultimately show ?thesis using ws Some by (simp add: parse_precision_def)
qed

lemma parse_length_run:
  assumes "fmt = pre @ length_text len @ c # post" and "len \<in> {-2, -1, 0, 1, 2}"
    and "c \<noteq> 104" and "c \<noteq> 108"
  shows "parse_length fmt (Suc (length pre)) (hd (length_text len @ [c])) =
    Inr (length pre + length (length_text len) + 1, c, len)"
  using assms by (auto simp: parse_length_def length_text_def rd_def nth_append Let_def)

lemma parse_directive_text:
  assumes ok: "dir_ok d" and fmt: "fmt = pre @ dir_text d @ post"
  shows "parse_directive fmt (length pre) = Inr (dir_meaning d, length pre + length (dir_text d))"
proof -
  define fs where "fs = ds_flags d"
  define ws where "ws = (case ds_width d of None \<Rightarrow> [] | Some w \<Rightarrow> digit_bytes w)"
  define ps where "ps = (case ds_precision d of None \<Rightarrow> [] | Some p \<Rightarrow> 46 # digit_bytes p)"
  define ls where "ls = length_text (ds_length d)"
  define c where "c = ds_conv d"
  have conv: "c \<in> {100, 105, 98, 117, 111, 120, 88, 102, 99, 115, 112, 37}"
    using ok by (simp add: dir_ok_def c_def)
  have cd: "\<not> is_digit (sint c)" "c \<notin> {45, 43, 32, 48, 46, 104, 108}"
    using conv by (auto simp: is_digit_def)
  have lh: "hd (ls @ [c]) \<in> {c, 104, 108}" by (auto simp: ls_def length_text_def)
  have lhd: "\<not> is_digit (sint (hd (ls @ [c])))" "hd (ls @ [c]) \<notin> {45, 43, 32, 48, 46}"
    using lh cd by (auto simp: is_digit_def)
  have ph: "hd (ps @ ls @ [c]) \<in> {46, hd (ls @ [c])}" by (auto simp: ps_def split: option.splits)
  have phd: "\<not> is_digit (sint (hd (ps @ ls @ [c])))" "hd (ps @ ls @ [c]) \<notin> {45, 43, 32, 48}"
    using ph lhd by (auto simp: is_digit_def)
  have whd: "hd (ws @ ps @ ls @ [c]) \<notin> {45, 43, 32, 48}"
  proof (cases "ds_width d")
    case None
    then show ?thesis using phd(2) by (simp add: ws_def)
  next
    case (Some w)
    then have ws: "ws = digit_bytes w" and w: "0 < w" using ok by (simp_all add: ws_def dir_ok_def)
    then obtain e es where e: "digit_bytes w = e # es" by (cases "digit_bytes w") (simp_all add: digit_bytes_def)
    from digit_bytes_head [OF e] w have "is_digit (sint e)" "e \<noteq> 48" by auto
    then have "e \<notin> {45, 43, 32, 48}" by (auto simp: is_digit_def)
    then show ?thesis by (simp add: ws e)
  qed
  have split: "xs @ c # post = hd (xs @ [c]) # tl (xs @ [c]) @ post" for xs
    by (cases xs) simp_all
  have dt: "dir_text d = fs @ ws @ ps @ ls @ [c]"
    by (simp add: dir_text_def fs_def ws_def ps_def ls_def c_def)
  have e1: "fmt = pre @ fs @ hd (ws @ ps @ ls @ [c]) # tl (ws @ ps @ ls @ [c]) @ post"
    unfolding fmt dt using split [of "ws @ ps @ ls"] by simp
  have e2: "fmt = (pre @ fs) @ ws @ hd (ps @ ls @ [c]) # tl (ps @ ls @ [c]) @ post"
    unfolding fmt dt using split [of "ps @ ls"] by simp
  have e3: "fmt = (pre @ fs @ ws) @ ps @ hd (ls @ [c]) # tl (ls @ [c]) @ post"
    unfolding fmt dt using split [of "ls"] by simp
  have e4: "fmt = (pre @ fs @ ws @ ps) @ ls @ c # post"
    unfolding fmt dt by simp
  have s1: "rbind (rd fmt (length pre)) (\<lambda>ch. fmt_flags fmt (Suc (length pre)) ch 0 0 32) =
      Inr (length pre + length fs + 1, hd (ws @ ps @ ls @ [c]), d_align (dir_meaning d),
        d_prefix (dir_meaning d), d_pad (dir_meaning d))"
    using fmt_flags_run [OF e1 _ whd, of 0 0 32] ok
    by (simp add: dir_ok_def dir_meaning_def fs_def)
  have s2: "parse_width fmt (length pre + length fs + 1) (hd (ws @ ps @ ls @ [c])) =
      Inr (length pre + length fs + length ws + 1, hd (ps @ ls @ [c]), d_width (dir_meaning d))"
  proof -
    have "hd (ws @ ps @ ls @ [c]) = hd (ws @ [hd (ps @ ls @ [c])])" by (cases ws) simp_all
    then show ?thesis
      using parse_width_run [OF e2 phd(1) ws_def] ok by (simp add: dir_ok_def dir_meaning_def)
  qed
  have s3: "parse_precision fmt (length pre + length fs + length ws + 1) (hd (ps @ ls @ [c])) =
      Inr (length pre + length fs + length ws + length ps + 1, hd (ls @ [c]),
        d_precision (dir_meaning d))"
  proof -
    have "hd (ps @ ls @ [c]) = hd (ps @ [hd (ls @ [c])])" by (cases ps) simp_all
    then show ?thesis
      using parse_precision_run [OF e3 lhd(1) _ ps_def] lhd(2) ok
      by (simp add: dir_ok_def dir_meaning_def add.assoc)
  qed
  have s4: "parse_length fmt (length pre + length fs + length ws + length ps + 1) (hd (ls @ [c])) =
      Inr (length pre + length fs + length ws + length ps + length ls + 1, c, ds_length d)"
    using parse_length_run [OF e4 [unfolded ls_def]] cd(2) ok
    by (simp add: dir_ok_def ls_def add.assoc)
  have "parse_directive fmt (length pre) =
      rbind (rbind (rd fmt (length pre)) (\<lambda>ch. fmt_flags fmt (Suc (length pre)) ch 0 0 32))
       (\<lambda>(p, ch, align, prefix, pad).
         rbind (parse_width fmt p ch) (\<lambda>(p, ch, width).
         rbind (parse_precision fmt p ch) (\<lambda>(p, ch, precision).
         rbind (parse_length fmt p ch) (\<lambda>(p, ch, len).
           Inr (\<lparr>d_width = width, d_precision = precision, d_length = len, d_align = align,
                 d_prefix = prefix, d_pad = pad, d_conv = ch\<rparr>, p)))))"
    by (simp add: parse_directive_def rbind_assoc)
  also have "\<dots> = Inr (dir_meaning d, length pre + length (dir_text d))"
    unfolding s1 rbind_simps prod.case s2 s3 s4 by (simp add: dt dir_meaning_def c_def)
  finally show ?thesis .
qed

section \<open>What a format prints\<close>

text \<open>The text of one directive, what it adds to the result, and the arguments left.\<close>

definition string_at :: "u8 list \<Rightarrow> u8 list option" where
  "string_at str =
     (if 0 \<in> set str \<and> int (length str) \<le> INT_MAX then Some (takeWhile (\<lambda>c. c \<noteq> 0) str) else None)"

definition char_text :: "int \<Rightarrow> int \<Rightarrow> int \<Rightarrow> int list" where
  "char_text c width align =
     (let fill = replicate (nat (width - 1)) 32 in if align \<noteq> 0 then c # fill else fill @ [c])"

definition field_output :: "int list \<Rightarrow> int list \<Rightarrow> va list \<Rightarrow> (int list \<times> int \<times> va list) option" where
  "field_output body text ap =
     (if 32 \<le> length body then None else Some (text, int (length text), ap))"

definition dir_output :: "directive \<Rightarrow> va list \<Rightarrow> (int list \<times> int \<times> va list) option" where
  "dir_output d ap =
     (let pad = (if d_precision d > 0 then 32 else d_pad d)
      in if d_conv d \<in> {100, 105}
         then case va_word ap of Inl _ \<Rightarrow> None
           | Inr (w, ap) \<Rightarrow>
               let n = signed_arg (d_length d) w;
                   body = number_text True 10 (d_precision d) (nat \<bar>n\<bar>)
               in if n = LLONG_MIN then None
                  else field_output body (field_text (d_width d) (d_align d) pad
                         (sign_text n (d_prefix d)) body) ap
         else if d_conv d \<in> {98, 117, 111, 120, 88}
         then case va_word ap of Inl _ \<Rightarrow> None
           | Inr (w, ap) \<Rightarrow>
               let base = if d_conv d = 98 then 2 else if d_conv d = 117 then 10
                          else if d_conv d = 111 then 8 else 16;
                   body = number_text (d_conv d = 88) base (d_precision d)
                            (unat (unsigned_arg (d_length d) w))
               in field_output body (field_text (d_width d) (d_align d) pad [] body) ap
         else if d_conv d = 99
         then case va_word ap of Inl _ \<Rightarrow> None
           | Inr (w, ap) \<Rightarrow>
               Some (char_text (sint (ucast w :: u8)) (d_width d) (d_align d), d_width d, ap)
         else if d_conv d = 115
         then case va_str ap of Inl _ \<Rightarrow> None
           | Inr (str, ap) \<Rightarrow>
               (case string_at str of None \<Rightarrow> None
                | Some xs \<Rightarrow>
                    let text = map sint (if d_precision d \<ge> 0 then take (nat (d_precision d)) xs else xs);
                        fill = replicate (nat (d_width d - int (length text))) 32
                    in Some (if d_align d \<noteq> 0 then text @ fill else fill @ text,
                             max (d_width d) (int (length text)), ap))
         else if d_conv d = 112
         then case va_word ap of Inl _ \<Rightarrow> None
           | Inr (w, ap) \<Rightarrow>
               let body = number_text True 16 (- 1) (unat w)
               in field_output body (field_text 16 0 48 [] body) ap
         else if d_conv d = 37 then Some (char_text 37 (d_width d) (d_align d), d_width d, ap)
         else Some ([], 0, ap))"

lemma stored_length: "length buf = 32 \<Longrightarrow> length body \<le> 31 \<Longrightarrow> length (stored buf body) = 32"
  by (simp add: stored_def)

lemma print_char_text:
  "print_char c width align s = (width, s\<lparr>out := out s @ char_text c width align\<rparr>)"
  by (simp add: print_char_def char_text_def spaces_out_result putchar_def Let_def)

lemma signed_arg_range: "LLONG_MIN \<le> signed_arg len w \<and> signed_arg len w \<le> LLONG_MAX"
  using sint_ge [of w] sint_lt [of w] sint_ge [of "ucast w :: u32"] sint_lt [of "ucast w :: u32"]
    sint_ge [of "ucast w :: u16"] sint_lt [of "ucast w :: u16"]
    sint_ge [of "ucast w :: u8"] sint_lt [of "ucast w :: u8"]
  by (simp add: signed_arg_def LLONG_MIN_def LLONG_MAX_def)

lemma string_at_cstr:
  assumes "string_at str = Some xs"
  shows "cstr str 0 xs" and "int (length xs) \<le> INT_MAX"
proof -
  have xs: "xs = takeWhile (\<lambda>c. c \<noteq> 0) str" "0 \<in> set str" "int (length str) \<le> INT_MAX"
    using assms by (auto simp: string_at_def split: if_splits)
  then show "cstr str 0 xs" using cstr_or_unterminated [of 0 str] by simp
  have "length xs \<le> length str" unfolding xs(1) by (rule length_takeWhile_le)
  with xs(3) show "int (length xs) \<le> INT_MAX" by simp
qed

lemma field_outputD:
  "field_output body txt ap = Some (text, k, ap') \<Longrightarrow>
     length body \<le> 31 \<and> text = txt \<and> k = int (length txt) \<and> ap' = ap"
  by (auto simp: field_output_def split: if_splits)

lemma output_int:
  assumes conv: "d_conv d \<in> {100, 105}" and o: "dir_output d ap = Some (text, k, ap')"
    and buf: "length (str_buff s) = 32" and pad: "d_pad d = 32 \<or> d_pad d = 48"
  shows "\<exists>b. print_directive d ap s = Inr (k, ap', s\<lparr>str_buff := b, out := out s @ text\<rparr>) \<and>
    length b = 32"
proof -
  obtain w rest where w: "va_word ap = Inr (w, rest)"
    using conv o by (cases "va_word ap") (auto simp: dir_output_def Let_def)
  let ?n = "signed_arg (d_length d) w"
  let ?body = "number_text True 10 (d_precision d) (nat \<bar>?n\<bar>)"
  have eq: "dir_output d ap = (if ?n = LLONG_MIN then None
      else field_output ?body (field_text (d_width d) (d_align d)
        (if d_precision d > 0 then 32 else d_pad d) (sign_text ?n (d_prefix d)) ?body) rest)"
    using conv w by (auto simp: dir_output_def Let_def)
  have n: "?n \<noteq> LLONG_MIN" using o eq by auto
  note f = field_outputD [OF o [unfolded eq if_not_P [OF n]]]
  have "LLONG_MIN < ?n" "?n \<le> LLONG_MAX" using signed_arg_range [of "d_length d" w] n by auto
  from print_int_text [OF buf this pad, of "d_width d" "d_precision d" "d_align d" "d_prefix d"]
  have "print_int ?n (d_width d) (d_precision d) (d_align d) (d_prefix d) (d_pad d) s =
      Inr (k, s\<lparr>str_buff := stored (str_buff s) ?body, out := out s @ text\<rparr>)"
    using f by (simp add: Let_def)
  moreover have "print_directive d ap s = rbind (va_word ap) (\<lambda>(w, ap).
      rbind (print_int (signed_arg (d_length d) w) (d_width d) (d_precision d) (d_align d)
        (d_prefix d) (d_pad d) s) (\<lambda>(k, s). Inr (k, ap, s)))"
    using conv by (auto simp: print_directive_def)
  ultimately have "print_directive d ap s =
      Inr (k, ap', s\<lparr>str_buff := stored (str_buff s) ?body, out := out s @ text\<rparr>)"
    using f w by simp
  moreover have "length (stored (str_buff s) ?body) = 32"
    using f by (intro stored_length [OF buf]) simp
  ultimately show ?thesis by blast
qed

lemma output_unsigned:
  assumes conv: "d_conv d \<in> {98, 117, 111, 120, 88}" and o: "dir_output d ap = Some (text, k, ap')"
    and buf: "length (str_buff s) = 32" and pad: "d_pad d = 32 \<or> d_pad d = 48"
  shows "\<exists>b. print_directive d ap s = Inr (k, ap', s\<lparr>str_buff := b, out := out s @ text\<rparr>) \<and>
    length b = 32"
proof -
  obtain w rest where w: "va_word ap = Inr (w, rest)"
    using conv o by (cases "va_word ap") (auto simp: dir_output_def Let_def)
  define base :: nat where "base = (if d_conv d = 98 then 2 else if d_conv d = 117 then 10
    else if d_conv d = 111 then 8 else 16)"
  let ?body = "number_text (d_conv d = 88) base (d_precision d) (unat (unsigned_arg (d_length d) w))"
  have eq: "dir_output d ap = field_output ?body (field_text (d_width d) (d_align d)
      (if d_precision d > 0 then 32 else d_pad d) [] ?body) rest"
    using conv w by (auto simp: dir_output_def Let_def base_def)
  note f = field_outputD [OF o [unfolded eq]]
  have base: "2 \<le> base" "base \<le> 16" by (simp_all add: base_def)
  from print_unsigned_text [OF buf base pad, of "unsigned_arg (d_length d) w" "d_width d"
      "d_precision d" "d_align d" "d_conv d = 88"]
  have "print_unsigned (unsigned_arg (d_length d) w) (d_width d) (d_precision d) (d_align d)
      (d_pad d) (int base) (d_conv d = 88) s =
      Inr (k, s\<lparr>str_buff := stored (str_buff s) ?body, out := out s @ text\<rparr>)"
    using f by (simp add: Let_def)
  moreover have "print_directive d ap s = rbind (va_word ap) (\<lambda>(w, ap).
      rbind (print_unsigned (unsigned_arg (d_length d) w) (d_width d) (d_precision d) (d_align d)
        (d_pad d) (int base) (d_conv d = 88) s) (\<lambda>(k, s). Inr (k, ap, s)))"
    using conv by (auto simp: print_directive_def base_def)
  ultimately have "print_directive d ap s =
      Inr (k, ap', s\<lparr>str_buff := stored (str_buff s) ?body, out := out s @ text\<rparr>)"
    using f w by simp
  moreover have "length (stored (str_buff s) ?body) = 32"
    using f by (intro stored_length [OF buf]) simp
  ultimately show ?thesis by blast
qed

lemma output_ptr:
  assumes conv: "d_conv d = 112" and o: "dir_output d ap = Some (text, k, ap')"
    and buf: "length (str_buff s) = 32"
  shows "\<exists>b. print_directive d ap s = Inr (k, ap', s\<lparr>str_buff := b, out := out s @ text\<rparr>) \<and>
    length b = 32"
proof -
  obtain w rest where w: "va_word ap = Inr (w, rest)"
    using conv o by (cases "va_word ap") (auto simp: dir_output_def Let_def)
  let ?body = "number_text True 16 (- 1) (unat w)"
  have eq: "dir_output d ap = field_output ?body (field_text 16 0 48 [] ?body) rest"
    using conv w by (simp add: dir_output_def Let_def)
  note f = field_outputD [OF o [unfolded eq]]
  from print_unsigned_text [OF buf, of 16 48 w 16 "- 1" 0 True]
  have "print_unsigned w 16 (- 1) 0 48 16 True s =
      Inr (k, s\<lparr>str_buff := stored (str_buff s) ?body, out := out s @ text\<rparr>)"
    using f by (simp add: Let_def)
  then have "print_directive d ap s =
      Inr (k, ap', s\<lparr>str_buff := stored (str_buff s) ?body, out := out s @ text\<rparr>)"
    using f w conv by (simp add: print_directive_def)
  moreover have "length (stored (str_buff s) ?body) = 32"
    using f by (intro stored_length [OF buf]) simp
  ultimately show ?thesis by blast
qed

lemma output_str:
  assumes conv: "d_conv d = 115" and o: "dir_output d ap = Some (text, k, ap')"
    and wid: "d_width d \<le> INT_MAX"
  shows "print_directive d ap s = Inr (k, ap', s\<lparr>out := out s @ text\<rparr>)"
proof -
  obtain str rest where w: "va_str ap = Inr (str, rest)"
    using conv o by (cases "va_str ap") (auto simp: dir_output_def Let_def)
  obtain xs where xs: "string_at str = Some xs"
    using conv o w by (cases "string_at str") (auto simp: dir_output_def Let_def)
  from print_str_text [OF string_at_cstr [OF xs] wid]
  show ?thesis
    using conv o w xs by (simp add: print_directive_def dir_output_def Let_def)
qed

lemma output_other:
  assumes conv: "d_conv d \<notin> {100, 105, 98, 117, 111, 120, 88, 115, 112}"
    and o: "dir_output d ap = Some (text, k, ap')"
  shows "print_directive d ap s = Inr (k, ap', s\<lparr>out := out s @ text\<rparr>)"
proof -
  consider "d_conv d = 99" | "d_conv d = 37" | "d_conv d \<noteq> 99" "d_conv d \<noteq> 37" by blast
  then show ?thesis
  proof cases
    case 1
    then obtain w rest where w: "va_word ap = Inr (w, rest)"
      using o by (cases "va_word ap") (auto simp: dir_output_def Let_def)
    with 1 o show ?thesis by (auto simp: print_directive_def dir_output_def print_char_text)
  next
    case 2
    then show ?thesis using o by (auto simp: print_directive_def dir_output_def print_char_text)
  next
    case 3
    then show ?thesis using conv o by (simp add: print_directive_def dir_output_def)
  qed
qed

lemma print_directive_output:
  assumes "dir_output d ap = Some (text, k, ap')" and "length (str_buff s) = 32"
    and "d_pad d = 32 \<or> d_pad d = 48" and "d_width d \<le> INT_MAX"
  shows "\<exists>b. print_directive d ap s = Inr (k, ap', s\<lparr>str_buff := b, out := out s @ text\<rparr>) \<and>
    length b = 32"
proof -
  have keep: "s\<lparr>out := o'\<rparr> = s\<lparr>str_buff := str_buff s, out := o'\<rparr>" for o' by simp
  consider "d_conv d \<in> {100, 105}" | "d_conv d \<in> {98, 117, 111, 120, 88}" | "d_conv d = 112"
    | "d_conv d = 115" | "d_conv d \<notin> {100, 105, 98, 117, 111, 120, 88, 115, 112}" by blast
  then show ?thesis
  proof cases
    case 1
    then show ?thesis using output_int assms(1,2,3) by blast
  next
    case 2
    then show ?thesis using output_unsigned assms(1,2,3) by blast
  next
    case 3
    then show ?thesis using output_ptr assms(1,2) by blast
  next
    case 4
    from output_str [OF this assms(1,4)] show ?thesis using assms(2) keep by metis
  next
    case 5
    from output_other [OF this assms(1)] show ?thesis using assms(2) keep by metis
  qed
qed

end
