(* ===== verification/FmtItems.thy ===== *)
theory FmtItems
  imports FmtLoop
begin

text \<open>
  Whole formats: a sequence of characters and directives, the text it prints for a list of
  arguments, and the run of the main loop over it.
\<close>

datatype item = Lit u8 | Dir dir_syntax

fun item_text :: "item \<Rightarrow> u8 list" where
  "item_text (Lit c) = [c]"
| "item_text (Dir d) = 37 # dir_text d"

fun item_ok :: "item \<Rightarrow> bool" where
  "item_ok (Lit c) = (c \<noteq> 0 \<and> c \<noteq> 37)"
| "item_ok (Dir d) = dir_ok d"

definition format_text :: "item list \<Rightarrow> u8 list" where
  "format_text items = concat (map item_text items)"

text \<open>The text, the running result, which has to stay an \<open>int\<close>, and the arguments left.\<close>

fun item_output :: "item \<Rightarrow> va list \<Rightarrow> (int list \<times> int \<times> va list) option" where
  "item_output (Lit c) ap = Some ([sint c], 1, ap)"
| "item_output (Dir d) ap = dir_output (dir_meaning d) ap"

fun items_output :: "item list \<Rightarrow> va list \<Rightarrow> int \<Rightarrow> (int list \<times> int) option" where
  "items_output [] ap ret = Some ([], ret)"
| "items_output (x # xs) ap ret =
     (case item_output x ap of
        None \<Rightarrow> None
      | Some (text, k, ap) \<Rightarrow>
          if INT_MIN \<le> ret + k \<and> ret + k \<le> INT_MAX
          then map_option (\<lambda>(rest, ret). (text @ rest, ret)) (items_output xs ap (ret + k))
          else None)"

lemma dir_meaning_pad: "d_pad (dir_meaning d) = 32 \<or> d_pad (dir_meaning d) = 48"
  by (simp add: dir_meaning_def)

lemma dir_meaning_width: "dir_ok d \<Longrightarrow> d_width (dir_meaning d) \<le> INT_MAX"
  by (auto simp: dir_ok_def dir_meaning_def INT_MAX_def split: option.split)

lemma loop_items:
  assumes "items_output items ap ret = Some (outp, ret')"
    and "\<And>x. x \<in> set items \<Longrightarrow> item_ok x"
    and "fmt = pre @ format_text items @ 0 # post" and "length (str_buff s) = 32"
  shows "\<exists>b. proto_print_loop fmt (length pre) ap ret s =
    Inr (ret', s\<lparr>str_buff := b, out := out s @ outp\<rparr>) \<and> length b = 32"
  using assms
proof (induction items arbitrary: ap ret outp pre s)
  case Nil
  then have "rd fmt (length pre) = Inr 0" by (simp add: format_text_def rd_def)
  then have "proto_print_loop fmt (length pre) ap ret s = Inr (ret, s)"
    by (subst proto_print_loop.simps) simp
  then show ?case using Nil.prems(1,4) by (intro exI [of _ "str_buff s"]) simp
next
  case (Cons x xs)
  obtain t k ap1 where x: "item_output x ap = Some (t, k, ap1)"
    using Cons.prems(1) by (cases "item_output x ap") auto
  have rng: "INT_MIN \<le> ret + k \<and> ret + k \<le> INT_MAX"
    using Cons.prems(1) x by (auto split: if_splits)
  then obtain rest where rest: "items_output xs ap1 (ret + k) = Some (rest, ret')" "outp = t @ rest"
    using Cons.prems(1) x by (auto split: if_splits)
  have ok: "item_ok x" and oks: "\<And>x. x \<in> set xs \<Longrightarrow> item_ok x" using Cons.prems(2) by auto
  have eq: "fmt = (pre @ item_text x) @ format_text xs @ 0 # post"
    using Cons.prems(3) by (simp add: format_text_def)
  have cint: "c_int (ret + k) = Inr (ret + k)" using rng by simp
  have "\<exists>b. proto_print_loop fmt (length pre) ap ret s =
      proto_print_loop fmt (length (pre @ item_text x)) ap1 (ret + k)
        (s\<lparr>str_buff := b, out := out s @ t\<rparr>) \<and> length b = 32"
  proof (cases x)
    case (Lit c)
    then have "rd fmt (length pre) = Inr c" "c \<noteq> 0" "c \<noteq> 37"
      using eq ok by (simp_all add: rd_def)
    then have "proto_print_loop fmt (length pre) ap ret s =
        proto_print_loop fmt (Suc (length pre)) ap1 (ret + k) (putchar (sint c) s)"
      using cint x Lit by (subst proto_print_loop.simps) (simp add: Let_def)
    then show ?thesis
      using x Lit Cons.prems(4) by (intro exI [of _ "str_buff s"]) (simp add: putchar_def)
  next
    case (Dir d)
    then have dok: "dir_ok d" and o: "dir_output (dir_meaning d) ap = Some (t, k, ap1)"
      using ok x by simp_all
    have "rd fmt (length pre) = Inr 37" using eq Dir by (simp add: rd_def)
    moreover have "parse_directive fmt (length (pre @ [37])) =
        Inr (dir_meaning d, length (pre @ [37]) + length (dir_text d))"
      by (rule parse_directive_text [OF dok]) (use eq Dir in simp)
    moreover obtain b where b: "print_directive (dir_meaning d) ap s =
        Inr (k, ap1, s\<lparr>str_buff := b, out := out s @ t\<rparr>)" "length b = 32"
      using print_directive_output [OF o Cons.prems(4) dir_meaning_pad dir_meaning_width [OF dok]]
      by blast
    ultimately have "proto_print_loop fmt (length pre) ap ret s =
        proto_print_loop fmt (length (pre @ item_text x)) ap1 (ret + k)
          (s\<lparr>str_buff := b, out := out s @ t\<rparr>)"
      using cint Dir by (subst proto_print_loop.simps) (simp add: Let_def)
    with b(2) show ?thesis by blast
  qed
  then obtain b where b: "proto_print_loop fmt (length pre) ap ret s =
      proto_print_loop fmt (length (pre @ item_text x)) ap1 (ret + k)
        (s\<lparr>str_buff := b, out := out s @ t\<rparr>)" "length b = 32" by blast
  have "\<exists>b'. proto_print_loop fmt (length (pre @ item_text x)) ap1 (ret + k)
        (s\<lparr>str_buff := b, out := out s @ t\<rparr>) =
      Inr (ret', s\<lparr>str_buff := b', out := out s @ outp\<rparr>) \<and> length b' = 32"
    using Cons.IH [OF rest(1) oks eq, of "s\<lparr>str_buff := b, out := out s @ t\<rparr>"] b(2)
    by (simp add: rest(2))
  then show ?case by (simp only: b(1))
qed

text \<open>A \<open>%c\<close> or \<open>%%\<close> without a width prints one character and adds -1 to the result.\<close>

fun miscounted :: "item \<Rightarrow> bool" where
  "miscounted (Lit c) = False"
| "miscounted (Dir d) = (ds_conv d \<in> {99, 37} \<and> ds_width d = None)"

lemma field_text_length:
  "length (field_text width align pad sign body) =
    max (nat width) (length sign + length body)"
  by (auto simp: field_text_def Let_def)

lemma item_output_count:
  assumes "item_output x ap = Some (outp, k, ap')" and "item_ok x"
  shows "int (length outp) = k + (if miscounted x then 2 else 0)"
proof (cases x)
  case (Lit c)
  then show ?thesis using assms(1) by auto
next
  case (Dir d)
  let ?d = "dir_meaning d"
  have o: "dir_output ?d ap = Some (outp, k, ap')" using assms(1) Dir by simp
  have conv: "d_conv ?d = ds_conv d" by (simp add: dir_meaning_def)
  have width: "d_width ?d = (case ds_width d of None \<Rightarrow> -1 | Some w \<Rightarrow> int w)"
    by (simp add: dir_meaning_def)
  have pos: "0 < w" if "ds_width d = Some w" for w using assms(2) Dir that by (simp add: dir_ok_def)
  have char: "int (length (char_text c w a)) = max w 1" for c w a
    by (auto simp: char_text_def Let_def)
  have mis: "max (d_width ?d) 1 = d_width ?d + (if ds_width d = None then 2 else 0)"
    using pos by (auto simp: width split: option.split)
  consider "ds_conv d \<in> {100, 105, 98, 117, 111, 120, 88, 112}" | "ds_conv d = 115"
    | "ds_conv d \<in> {99, 37}" | "ds_conv d \<notin> {100, 105, 98, 117, 111, 120, 88, 112, 115, 99, 37}"
    by blast
  then show ?thesis
  proof cases
    case 1
    have "int (length outp) = k"
      using 1 o conv
      by (auto simp: dir_output_def Let_def field_output_def split: sum.splits if_splits)
    then show ?thesis using Dir 1 by auto
  next
    case 2
    then obtain str rest xs where st: "va_str ap = Inr (str, rest)" "string_at str = Some xs"
      using o conv by (auto simp: dir_output_def Let_def split: sum.splits option.splits)
    show ?thesis using o 2 conv st Dir
      by (auto simp: dir_output_def Let_def)
  next
    case 3
    then show ?thesis using o conv char mis Dir
      by (auto simp: dir_output_def split: sum.splits)
  next
    case 4
    then show ?thesis using o conv Dir by (auto simp: dir_output_def)
  qed
qed

lemma items_output_count:
  assumes "items_output items ap ret = Some (outp, ret')" and "\<And>x. x \<in> set items \<Longrightarrow> item_ok x"
  shows "int (length outp) = ret' - ret + 2 * int (length (filter miscounted items))"
  using assms
proof (induction items arbitrary: ap ret outp)
  case Nil
  then show ?case by simp
next
  case (Cons x xs)
  obtain t k ap1 where x: "item_output x ap = Some (t, k, ap1)"
    using Cons.prems(1) by (cases "item_output x ap") auto
  then obtain rest where rest: "items_output xs ap1 (ret + k) = Some (rest, ret')" "outp = t @ rest"
    using Cons.prems(1) by (auto split: if_splits)
  have "item_ok x" using Cons.prems(2) by simp
  from item_output_count [OF x this] Cons.IH [OF rest(1)] Cons.prems(2) show ?case
    by (auto simp: rest(2))
qed

end
