(* ===== verification/FmtProperties.thy ===== *)
theory FmtProperties
  imports FmtItems
begin

text \<open>
  The properties of formatted output: the text each directive prints, directives read back,
  numerals read back, and what \<open>__proto_print\<close> returns.
\<close>

definition empty_fmt :: fmt where
  "empty_fmt = \<lparr>str_buff = replicate 32 0, out = []\<rparr>"

lemma replicate_2_3: "replicate 2 c = [c, c]" "replicate 3 c = [c, c, c]"
  by (simp_all add: numeral_2_eq_2 numeral_3_eq_3)

section \<open>Numbers\<close>

text \<open>C25. \<open>__print_int\<close> prints the number in decimal with at least \<open>precision\<close> digits, the sign,
  and filling up to \<open>width\<close> on the side the flags say (zeros between sign and digits only without a
  precision), and returns the number of characters printed. It faults on the least \<open>long long\<close>,
  and when 32 digits or more are asked for, which overruns \<open>__str_buff\<close>.\<close>

theorem print_int_result:
  assumes "length (str_buff s) = 32" and "LLONG_MIN \<le> n" and "n \<le> LLONG_MAX"
    and "pad = 32 \<or> pad = 48"
  shows "print_int n width precision align prefix pad s =
    (let body = number_text True 10 precision (nat \<bar>n\<bar>);
         text = field_text width align (if precision > 0 then 32 else pad)
           (if n < 0 then [45] else if prefix \<noteq> 0 then [prefix] else []) body
     in if n = LLONG_MIN then Inl SignedOverflow
        else if 32 \<le> length body then Inl OutOfBounds
        else Inr (int (length text),
          s\<lparr>str_buff := stored (str_buff s) body, out := out s @ text\<rparr>))"
proof (cases "n = LLONG_MIN")
  case True
  then have "c_llong (- n) = Inl SignedOverflow" and "n < 0" and "n \<noteq> 0"
    by (simp_all add: c_llong_def LLONG_MIN_def LLONG_MAX_def)
  with True show ?thesis by (simp add: print_int_def Let_def)
next
  case False
  then show ?thesis
    using print_int_text [OF assms(1) _ assms(3,4), of width precision align prefix] assms(2)
    by (auto simp: Let_def sign_text_def)
qed

theorem print_int_result_witness:
  "map_sum id (\<lambda>(k, s). (k, out s)) (print_int (- 42) 6 (- 1) 0 0 48 empty_fmt) =
    Inr (6, [45, 48, 48, 48, 52, 50])"
  using print_int_result [of empty_fmt "- 42" 48 6 "- 1" 0 0]
  by (simp add: empty_fmt_def LLONG_MIN_def LLONG_MAX_def number_text_def digits.simps
      digit_char_def field_text_def Let_def replicate_2_3)

text \<open>C26. \<open>__print_unsigned\<close> prints the number in its base with at least \<open>precision\<close> digits, filled
  up to \<open>width\<close>, and returns the number of characters printed; 32 digits or more, as a binary
  number of \<open>2 ^ 31\<close> or more has, overrun \<open>__str_buff\<close>.\<close>

theorem print_unsigned_result:
  assumes "length (str_buff s) = 32" and "2 \<le> base" and "base \<le> 16" and "pad = 32 \<or> pad = 48"
  shows "print_unsigned n width precision align pad (int base) upper s =
    (let body = number_text upper base precision (unat n);
         text = field_text width align (if precision > 0 then 32 else pad) [] body
     in if 32 \<le> length body then Inl OutOfBounds
        else Inr (int (length text),
          s\<lparr>str_buff := stored (str_buff s) body, out := out s @ text\<rparr>))"
  using print_unsigned_text [OF assms, of n width precision align upper]
  by (auto simp: Let_def)

theorem print_unsigned_result_witness:
  "map_sum id (\<lambda>(k, s). (k, out s)) (print_unsigned 0x2F 4 (- 1) 1 32 (int 16) False empty_fmt) =
    Inr (4, [50, 102, 32, 32])"
  using print_unsigned_result [of empty_fmt 16 32 "0x2F" 4 "- 1" 1 False]
  by (simp add: empty_fmt_def number_text_def digits.simps digit_char_def field_text_def Let_def
      replicate_2_3)

text \<open>The digits printed are those of the number: read as a numeral in the base they give it
  back, each is below the base, and 64 of them are enough in any base.\<close>

theorem printed_digits:
  assumes "2 \<le> base" and "base \<le> 16"
  shows "\<exists>ds. number_text upper base precision (unat (n :: u64)) =
      (if precision = 0 \<and> n = 0 then []
       else map (digit_char upper) (replicate (nat (precision - int (length ds))) 0 @ ds)) \<and>
    numeral_value base ds = unat n \<and> (\<forall>d\<in>set ds. d < base) \<and> 0 < length ds \<and> length ds \<le> 64"
proof -
  have "unat n < 2 ^ 64" using unsigned_less [of n, where 'a = nat] by simp
  also have "(2 :: nat) ^ 64 \<le> base ^ 64" using assms(1) by (rule power_mono) simp
  finally have "length (digits base (unat n)) \<le> 64"
    by (intro digits_length_le) (use assms in auto)
  then show ?thesis
    using digits_value [OF assms(1)] digits_less [OF assms(1)]
    by (intro exI [of _ "digits base (unat n)"])
      (simp add: number_text_def Let_def digit_char_def unat_eq_0)
qed

theorem printed_digits_witness:
  "\<exists>ds. number_text True 2 (- 1) (unat (5 :: u64)) = map (digit_char True) ds \<and>
    numeral_value 2 ds = 5"
  using printed_digits [of 2 True "- 1" 5] by auto

lemma canonical_read:
  assumes "ds \<noteq> [] \<and> (\<forall>d\<in>set ds. d < 10) \<and> (1 < length ds \<longrightarrow> hd ds \<noteq> 0) \<and>
      read_int (map (\<lambda>d. of_nat (48 + d)) ds @ [0]) 0 0 = Inr (p, v)"
    and "off + 20 < length buf"
  shows "p = length ds \<and> v = int (numeral_value 10 ds) \<and>
    utoa (word_of_int v) buf off 10 =
      Inr (take off buf @ map (\<lambda>d. of_nat (48 + d)) ds @ 0 # drop (Suc (off + length ds)) buf)"
proof -
  let ?n = "numeral_value 10 ds"
  have chars: "map (\<lambda>d. of_nat (48 + d)) ds = digit_bytes ?n"
  proof -
    have "digits 10 ?n = ds" by (rule digits_numeral_value) (use assms(1) in auto)
    then show ?thesis using assms(1) by (auto simp: digit_bytes_def digit_char_def byte_def)
  qed
  have len: "length (digit_bytes ?n) = length ds" by (simp flip: chars)
  have "read_int (digit_bytes ?n @ [0]) 0 0 = Inr (p, v)" using assms(1) unfolding chars by blast
  then have "(if int ?n \<le> INT_MAX then Inr (length (digit_bytes ?n), int ?n) else Inl SignedOverflow) = Inr (p, v)"
    using read_int_any [OF refl, of 0 "[]" ?n "[]"] by (simp add: is_digit_def)
  then have v: "p = length ds" "v = int ?n" and small: "int ?n \<le> INT_MAX"
    by (simp_all add: len split: if_splits)
  then have "nat (int ?n) \<le> nat INT_MAX" by (intro nat_mono)
  then have "?n \<le> 2147483647" by (simp add: INT_MAX_def)
  then have n: "unat (word_of_int v :: u64) = ?n" and "?n < 10 ^ 20"
    by (simp_all add: v(2) unat_of_nat_small)
  then have "length (digit_bytes ?n) \<le> 20"
    unfolding digit_bytes_def length_map by (intro digits_length_le) simp_all
  then have "utoa (word_of_int v) buf off 10 =
      Inr (take off buf @ digit_bytes ?n @ 0 # drop (Suc (off + length (digit_bytes ?n))) buf)"
    using utoa_result [of 10 "word_of_int v" buf off] n assms(2) by (simp add: Let_def digit_bytes_def)
  then show ?thesis using v by (simp add: chars len del: of_nat_add)
qed

text \<open>C38. What \<open>__utoa\<close> writes in base 10 \<open>__read_int\<close> reads back: the number, and the position of
  the zero byte after it, if an \<open>int\<close> holds the number, and otherwise a signed overflow. What \<open>__read_int\<close>
  reads of a numeral without leading zeros \<open>__utoa\<close> writes as that numeral.\<close>

theorem utoa_read_int:
  assumes "off + 20 < length buf"
  shows "(\<exists>buf'. utoa n buf off 10 = Inr buf' \<and> length buf' = length buf \<and> take off buf' = take off buf \<and>
      (if int (unat n) \<le> INT_MAX
       then \<exists>p. read_int buf' off 0 = Inr (p, int (unat n)) \<and> rd buf' p = Inr 0
       else read_int buf' off 0 = Inl SignedOverflow)) \<and>
    (\<forall>ds v p. ds \<noteq> [] \<and> (\<forall>d\<in>set ds. d < 10) \<and> (1 < length ds \<longrightarrow> hd ds \<noteq> 0) \<and>
       read_int (map (\<lambda>d. of_nat (48 + d)) ds @ [0]) 0 0 = Inr (p, v) \<longrightarrow>
       p = length ds \<and> v = int (numeral_value 10 ds) \<and>
       utoa (word_of_int v) buf off 10 =
         Inr (take off buf @ map (\<lambda>d. of_nat (48 + d)) ds @ 0 # drop (Suc (off + length ds)) buf))"
proof (intro conjI allI impI)
  let ?d = "digit_bytes (unat n)"
  let ?b = "take off buf @ ?d @ 0 # drop (Suc (off + length ?d)) buf"
  have "unat n < 10 ^ 20" using unsigned_less [of n, where 'a = nat] by simp
  then have len: "length ?d \<le> 20" unfolding digit_bytes_def length_map by (rule digits_length_le [rotated 2]) simp_all
  have run: "utoa n buf off 10 = Inr ?b"
    using utoa_result [of 10 n buf off] len assms by (simp add: Let_def digit_bytes_def)
  have "read_int ?b (length (take off buf)) 0 = (if int (unat n) \<le> INT_MAX
      then Inr (length (take off buf) + length ?d, int (unat n)) else Inl SignedOverflow)"
    by (rule read_int_any [OF refl]) (simp add: is_digit_def)
  then have "read_int ?b off 0 = (if int (unat n) \<le> INT_MAX
      then Inr (off + length ?d, int (unat n)) else Inl SignedOverflow)"
    using assms by simp
  moreover have "rd ?b (off + length ?d) = Inr 0" using assms by (simp add: rd_def nth_append)
  moreover have "length ?b = length buf" using len assms by simp
  ultimately show "\<exists>buf'. utoa n buf off 10 = Inr buf' \<and> length buf' = length buf \<and> take off buf' = take off buf \<and>
      (if int (unat n) \<le> INT_MAX
       then \<exists>p. read_int buf' off 0 = Inr (p, int (unat n)) \<and> rd buf' p = Inr 0
       else read_int buf' off 0 = Inl SignedOverflow)"
    using run assms by (intro exI [of _ ?b]) simp
next
  fix ds v p
  assume "ds \<noteq> [] \<and> (\<forall>d\<in>set ds. d < 10) \<and> (1 < length ds \<longrightarrow> hd ds \<noteq> 0) \<and>
    read_int (map (\<lambda>d. of_nat (48 + d)) ds @ [0]) 0 0 = Inr (p, v)"
  note read = canonical_read [OF this assms]
  from read show "p = length ds" "v = int (numeral_value 10 ds)" by blast+
  from read show "utoa (word_of_int v) buf off 10 =
       Inr (take off buf @ map (\<lambda>d. of_nat (48 + d)) ds @ 0 # drop (Suc (off + length ds)) buf)" by blast
qed

theorem utoa_read_int_witness:
  "(\<exists>buf' p. utoa 1234 (replicate 30 7) 3 10 = Inr buf' \<and> read_int buf' 3 0 = Inr (p, 1234)) \<and>
   (\<exists>buf'. utoa 4294967296 (replicate 30 7) 3 10 = Inr buf' \<and> read_int buf' 3 0 = Inl SignedOverflow)"
  using utoa_read_int [of 3 "replicate 30 7" 1234] utoa_read_int [of 3 "replicate 30 7" 4294967296]
  by (auto simp: INT_MAX_def)

section \<open>Strings and directives\<close>

text \<open>\<open>__print_str\<close> prints the string, or its first \<open>precision\<close> characters, filled with spaces
  up to the width, and returns the number of characters printed.\<close>

theorem print_str_result:
  assumes "cstr str 0 xs" and "int (length xs) \<le> INT_MAX" and "width \<le> INT_MAX"
  shows "\<exists>text. print_str str width precision align s =
      Inr (max width (int (length (if precision \<ge> 0 then take (nat precision) xs else xs))),
        s\<lparr>out := out s @ text\<rparr>) \<and>
    int (length text) =
      max width (int (length (if precision \<ge> 0 then take (nat precision) xs else xs))) \<and>
    (let shown = map sint (if precision \<ge> 0 then take (nat precision) xs else xs);
         fill = replicate (length text - length shown) 32
     in text = (if align \<noteq> 0 then shown @ fill else fill @ shown))"
  using print_str_text [OF assms, of precision align s] by (auto simp: Let_def max_def)

theorem print_str_result_witness:
  "print_str [104, 105, 33, 0] 4 2 0 empty_fmt =
    Inr (4, empty_fmt\<lparr>out := [32, 32, 104, 105]\<rparr>)"
proof -
  have "cstr [104, 105, 33, 0] 0 [104, 105, 33]"
    unfolding cstr_def by (rule conjI, rule exI [of _ "[]"], rule exI [of _ "[]"], simp_all)
  from print_str_result [OF this, of 4 2 0 empty_fmt] show ?thesis
    by (auto simp: INT_MAX_def empty_fmt_def Let_def replicate_2_3)
qed

text \<open>C21. A directive written with flags, a width, a precision, a length modifier and a conversion
  is read back as those, wherever it stands in the format.\<close>

theorem parse_directive_roundtrip:
  assumes "dir_ok d"
  shows "parse_directive (pre @ dir_text d @ post) (length pre) =
    Inr (dir_meaning d, length pre + length (dir_text d))"
  by (rule parse_directive_text [OF assms refl])

definition sample_dir :: dir_syntax where
  "sample_dir = \<lparr>ds_flags = [45, 48], ds_width = Some 12, ds_precision = None, ds_length = 1,
     ds_conv = 120\<rparr>"

lemma sample_dir_ok: "dir_ok sample_dir"
  by (auto simp: dir_ok_def sample_dir_def INT_MAX_def)

lemma sample_dir_text: "dir_text sample_dir = [45, 48, 49, 50, 108, 120]"
  by (simp add: dir_text_def sample_dir_def digit_bytes_def digits.simps digit_char_def byte_def
      length_text_def)

theorem parse_directive_roundtrip_witness:
  "parse_directive [37, 45, 48, 49, 50, 108, 120, 0] 1 =
    Inr (\<lparr>d_width = 12, d_precision = -1, d_length = 1, d_align = 1, d_prefix = 0, d_pad = 48,
      d_conv = 120\<rparr>, 7)"
  using parse_directive_roundtrip [OF sample_dir_ok, of "[37]" "[0]"]
  unfolding sample_dir_text by (simp add: dir_meaning_def sample_dir_def)

section \<open>Whole formats\<close>

text \<open>C9. \<open>__proto_print\<close> on a format of characters and directives prints, in order, the characters
  and the text of each directive for its argument, and returns the sum of what they return.\<close>

theorem proto_print_items:
  assumes "items_output items ap 0 = Some (printed, ret)"
    and "\<And>x. x \<in> set items \<Longrightarrow> item_ok x" and "length (str_buff s) = 32"
  shows "\<exists>b. proto_print (format_text items @ 0 # post) ap s =
    Inr (ret, s\<lparr>str_buff := b, out := out s @ printed\<rparr>) \<and> length b = 32"
  using loop_items [OF assms(1,2), of _ "[]" post s] assms(3) by (simp add: proto_print_def)

lemma sample_format:
  "format_text [Lit 120, Lit 61, Dir sample_dir] = [120, 61, 37, 45, 48, 49, 50, 108, 120]"
  by (simp add: format_text_def sample_dir_text)

lemma sample_output:
  "items_output [Lit 120, Lit 61, Dir sample_dir] [VWord 255] 0 =
    Some ([120, 61, 102, 102, 32, 32, 32, 32, 32, 32, 32, 32, 32, 32], 14)"
proof -
  have "replicate 10 (32 :: int) = [32, 32, 32, 32, 32, 32, 32, 32, 32, 32]"
    by (simp add: numeral_eq_Suc)
  then show ?thesis
    by (simp add: sample_dir_def dir_meaning_def dir_output_def field_output_def unsigned_arg_def
        number_text_def digits.simps digit_char_def field_text_def INT_MIN_def INT_MAX_def Let_def)
qed

theorem proto_print_items_witness:
  "\<exists>b. proto_print [120, 61, 37, 45, 48, 49, 50, 108, 120, 0] [VWord 255] empty_fmt =
    Inr (14, empty_fmt\<lparr>str_buff := b, out := [120, 61, 102, 102, 32, 32, 32, 32, 32, 32, 32, 32, 32, 32]\<rparr>)"
proof -
  have ok: "item_ok x" if "x \<in> set [Lit 120, Lit 61, Dir sample_dir]" for x
    using that sample_dir_ok by auto
  from proto_print_items [OF sample_output ok, of empty_fmt "[]"] show ?thesis
    unfolding sample_format by (auto simp: empty_fmt_def)
qed

text \<open>\<open>__proto_print\<close> returns the number of characters it printed, but two less for each \<open>%c\<close>
  and each \<open>%%\<close> without a width.\<close>

theorem proto_print_count:
  assumes "items_output items ap 0 = Some (printed, ret)"
    and "\<And>x. x \<in> set items \<Longrightarrow> item_ok x" and "length (str_buff s) = 32"
  shows "\<exists>s'. proto_print (format_text items @ 0 # post) ap s = Inr (ret, s') \<and>
    int (length (out s')) - int (length (out s)) =
      ret + 2 * int (length (filter miscounted items))"
proof -
  obtain b where "proto_print (format_text items @ 0 # post) ap s =
      Inr (ret, s\<lparr>str_buff := b, out := out s @ printed\<rparr>)"
    using loop_items [OF assms(1,2), of _ "[]" post s] assms(3) by (auto simp: proto_print_def)
  then show ?thesis using items_output_count [OF assms(1,2)] by simp
qed

definition percent_dir :: dir_syntax where
  "percent_dir = \<lparr>ds_flags = [], ds_width = None, ds_precision = None, ds_length = 0, ds_conv = 37\<rparr>"

theorem proto_print_count_witness:
  "\<exists>s'. proto_print [37, 37, 0] [] empty_fmt = Inr (-1, s') \<and> length (out s') = 1"
proof -
  have o: "items_output [Dir percent_dir] [] 0 = Some ([37], -1)"
    by (simp add: percent_dir_def dir_meaning_def dir_output_def char_text_def INT_MIN_def
        INT_MAX_def Let_def)
  have ok: "item_ok x" if "x \<in> set [Dir percent_dir]" for x
    using that by (simp add: percent_dir_def dir_ok_def)
  have t: "format_text [Dir percent_dir] = [37, 37]"
    by (simp add: format_text_def percent_dir_def dir_text_def length_text_def)
  from proto_print_count [OF o ok, of empty_fmt "[]"] show ?thesis
    unfolding t by (simp add: empty_fmt_def percent_dir_def)
qed

text \<open>C39. A format whose last character is a single \<open>%\<close> is read beyond its end.\<close>

theorem proto_print_trailing_percent:
  assumes "0 \<notin> set xs" and "37 \<notin> set xs" and "int (length xs) \<le> INT_MAX"
  shows "proto_print (xs @ [37, 0]) ap s = Inl OutOfBounds"
proof -
  have "proto_print_loop (pre @ ys @ [37, 0]) (length pre) ap (int (length pre)) s = Inl OutOfBounds"
    if "0 \<notin> set ys" "37 \<notin> set ys" "int (length pre + length ys) \<le> INT_MAX" for pre ys s
    using that
  proof (induction ys arbitrary: pre s)
    case Nil
    let ?fmt = "pre @ [37, 0]"
    have "parse_directive ?fmt (Suc (length pre)) =
        Inr (\<lparr>d_width = -1, d_precision = -1, d_length = 0, d_align = 0, d_prefix = 0, d_pad = 32,
          d_conv = 0\<rparr>, length ?fmt)"
      by (simp add: parse_directive_def rd_def fmt_flags.simps parse_width_def parse_precision_def
          parse_length_def is_digit_def nth_append)
    then have "proto_print_loop ?fmt (length pre) ap (int (length pre)) s =
        proto_print_loop ?fmt (length ?fmt) ap (int (length pre)) s"
      using Nil.prems(3)
      by (subst proto_print_loop.simps) (simp add: rd_def print_directive_def INT_MIN_def)
    moreover have "proto_print_loop ?fmt (length ?fmt) ap (int (length pre)) s = Inl OutOfBounds"
      by (subst proto_print_loop.simps) simp
    ultimately show ?case by simp
  next
    case (Cons y ys)
    have "proto_print_loop (pre @ (y # ys) @ [37, 0]) (length pre) ap (int (length pre)) s =
        proto_print_loop ((pre @ [y]) @ ys @ [37, 0]) (length (pre @ [y])) ap
          (int (length (pre @ [y]))) (putchar (sint y) s)"
      using Cons.prems by (subst proto_print_loop.simps) (simp add: rd_def INT_MIN_def Let_def add.commute)
    also have "\<dots> = Inl OutOfBounds" by (rule Cons.IH) (use Cons.prems in auto)
    finally show ?case .
  qed
  from this [of xs "[]" s] assms show ?thesis by (simp add: proto_print_def)
qed

theorem proto_print_trailing_percent_witness:
  "proto_print [53, 48, 37, 0] [] empty_fmt = Inl OutOfBounds"
  using proto_print_trailing_percent [of "[53, 48]" "[]" empty_fmt] by (simp add: INT_MAX_def)

end
