(* ===== verification/Memory.thy ===== *)
theory Memory
  imports Prelude
begin

text \<open>
  Physical memory as the kernel's pointers see it: a byte at every 64-bit address, with
  little-endian 32- and 64-bit accesses, and the two byte loops \<open>ppa_memset\<close> and
  \<open>ppa_memcpy\<close> of \<open>page_frames.c\<close>. The lemmas say what a read returns after a write
  to the same, or to a disjoint, range of addresses.
\<close>

type_synonym mem = "u64 \<Rightarrow> u8"

section \<open>Little-endian accesses\<close>

fun load_bytes :: "nat \<Rightarrow> mem \<Rightarrow> u64 \<Rightarrow> 'a::len word" where
  "load_bytes 0 m a = 0"
| "load_bytes (Suc k) m a = ucast (m a) OR push_bit 8 (load_bytes k m (a + 1))"

definition store_bytes :: "nat \<Rightarrow> mem \<Rightarrow> u64 \<Rightarrow> 'a::len word \<Rightarrow> mem" where
  "store_bytes k m a v =
     (\<lambda>x. if unat (x - a) < k then ucast (drop_bit (8 * unat (x - a)) v) else m x)"

definition load32 :: "mem \<Rightarrow> u64 \<Rightarrow> u32" where "load32 m a = load_bytes 4 m a"
definition load64 :: "mem \<Rightarrow> u64 \<Rightarrow> u64" where "load64 m a = load_bytes 8 m a"
definition store32 :: "mem \<Rightarrow> u64 \<Rightarrow> u32 \<Rightarrow> mem" where "store32 m a v = store_bytes 4 m a v"
definition store64 :: "mem \<Rightarrow> u64 \<Rightarrow> u64 \<Rightarrow> mem" where "store64 m a v = store_bytes 8 m a v"

lemma load32_unfold: "load32 m a = ucast (m a) OR push_bit 8 (ucast (m (a + 1)) OR
    push_bit 8 (ucast (m (a + 2)) OR push_bit 8 (ucast (m (a + 3)))))"
  by (simp add: load32_def numeral_eq_Suc add.assoc)

lemma load64_unfold: "load64 m a = ucast (m a) OR push_bit 8 (ucast (m (a + 1)) OR
    push_bit 8 (ucast (m (a + 2)) OR push_bit 8 (ucast (m (a + 3)) OR
    push_bit 8 (ucast (m (a + 4)) OR push_bit 8 (ucast (m (a + 5)) OR
    push_bit 8 (ucast (m (a + 6)) OR push_bit 8 (ucast (m (a + 7)))))))))"
  by (simp add: load64_def numeral_eq_Suc add.assoc)

lemma bit_load_bytes:
  "bit (load_bytes k m a :: 'a::len word) n \<longleftrightarrow>
     n < LENGTH('a) \<and> n < 8 * k \<and> bit (m (a + of_nat (n div 8))) (n mod 8)"
proof (induction k arbitrary: a n)
  case 0
  then show ?case by simp
next
  case (Suc k)
  show ?case
  proof (cases "n < 8")
    case True
    then show ?thesis
      by (auto simp: bit_or_iff bit_push_bit_iff bit_ucast_iff)
  next
    case False
    then obtain j where j: "n = 8 + j" by (metis le_add_diff_inverse not_less)
    have dj: "(of_nat ((8 + j) div 8) :: u64) = 1 + of_nat (j div 8)"
      by (simp add: div_add_self1)
    have "bit (m a) n = False"
      using False bit_imp_le_length[of "m a" n] by auto
    then show ?thesis
      by (auto simp: j bit_or_iff bit_push_bit_iff bit_ucast_iff Suc.IH add.assoc dj)
  qed
qed

text \<open>The \<open>k\<close> bytes from \<open>a\<close> and the \<open>l\<close> bytes from \<open>b\<close> have no address in common.\<close>

definition apart :: "u64 \<Rightarrow> nat \<Rightarrow> u64 \<Rightarrow> nat \<Rightarrow> bool" where
  "apart a k b l \<longleftrightarrow> (\<forall>x. \<not> (unat (x - a) < k \<and> unat (x - b) < l))"

lemma apart_sym: "apart a k b l \<longleftrightarrow> apart b l a k"
  by (auto simp: apart_def)

lemma load_bytes_cong:
  "(\<And>i. i < k \<Longrightarrow> m (a + of_nat i) = m' (a + of_nat i)) \<Longrightarrow>
     (load_bytes k m a :: 'a::len word) = load_bytes k m' a"
  by (rule bit_word_eqI) (auto simp: bit_load_bytes)

lemma load_store_bytes_same:
  assumes "LENGTH('a) = 8 * k" and "k < 2 ^ 64"
  shows "load_bytes k (store_bytes k m a v) a = (v :: 'a::len word)"
proof (rule bit_word_eqI)
  fix n
  assume n: "n < LENGTH('a)"
  have "n div 8 < k" using n assms(1) by auto
  moreover from this have "unat (of_nat (n div 8) :: u64) = n div 8"
    using assms(2) by (intro unat_of_nat_small) auto
  ultimately show "bit (load_bytes k (store_bytes k m a v) a :: 'a word) n = bit v n"
    using n assms(1)
    by (auto simp: bit_load_bytes store_bytes_def bit_ucast_iff bit_drop_bit_eq)
qed

lemma load_store_bytes_apart:
  assumes "apart a k b l" and "k < 2 ^ 64"
  shows "load_bytes k (store_bytes l m b v) a = (load_bytes k m a :: 'a::len word)"
proof (rule load_bytes_cong)
  fix i
  assume "i < k"
  then have "unat (a + of_nat i - a) < k"
    using assms(2) by (simp add: unat_of_nat_small)
  then have "\<not> unat (a + of_nat i - b) < l"
    using assms(1) by (auto simp: apart_def)
  then show "store_bytes l m b v (a + of_nat i) = m (a + of_nat i)"
    by (simp add: store_bytes_def)
qed

lemma load32_store32_same [mem_simps]: "load32 (store32 m a v) a = v"
  by (simp add: load32_def store32_def load_store_bytes_same)

lemma load64_store64_same [mem_simps]: "load64 (store64 m a v) a = v"
  by (simp add: load64_def store64_def load_store_bytes_same)

lemma load32_store32_apart: "apart a 4 b 4 \<Longrightarrow> load32 (store32 m b v) a = load32 m a"
  by (simp add: load32_def store32_def load_store_bytes_apart)

lemma load64_store64_apart: "apart a 8 b 8 \<Longrightarrow> load64 (store64 m b v) a = load64 m a"
  by (simp add: load64_def store64_def load_store_bytes_apart)

lemma load64_store32_apart: "apart a 8 b 4 \<Longrightarrow> load64 (store32 m b v) a = load64 m a"
  by (simp add: load64_def store32_def load_store_bytes_apart)

lemma load32_store64_apart: "apart a 4 b 8 \<Longrightarrow> load32 (store64 m b v) a = load32 m a"
  by (simp add: load32_def store64_def load_store_bytes_apart)

text \<open>Storing over a store, and storing what is there.\<close>

lemma store32_store32_same [mem_simps]: "store32 (store32 m a v) a w = store32 m a w"
  by (auto simp: store32_def store_bytes_def)

lemma store32_load32 [mem_simps]: "store32 m a (load32 m a) = m"
proof
  fix x
  show "store32 m a (load32 m a) x = m x"
  proof (cases "unat (x - a) < 4")
    case True
    have "(ucast (drop_bit (8 * unat (x - a)) (load32 m a)) :: u8) = m x"
    proof (rule bit_word_eqI)
      fix n
      assume n: "n < LENGTH(8)"
      have "a + of_nat (unat (x - a)) = x" by simp
      then show "bit (ucast (drop_bit (8 * unat (x - a)) (load32 m a)) :: u8) n = bit (m x) n"
        using n True by (simp add: load32_def bit_ucast_iff bit_drop_bit_eq bit_load_bytes)
    qed
    with True show ?thesis by (simp add: store32_def store_bytes_def)
  qed (simp add: store32_def store_bytes_def)
qed

lemma apart_array:
  assumes "i \<noteq> j" and "k * (i + 1) \<le> 2 ^ 64" and "k * (j + 1) \<le> 2 ^ 64"
  shows "apart (a + of_nat (k * i)) k (a + of_nat (k * j)) k"
  unfolding apart_def
proof (intro allI notI, elim conjE)
  fix x :: u64
  define d where "d = x - a"
  assume 1: "unat (x - (a + of_nat (k * i))) < k" and 2: "unat (x - (a + of_nat (k * j))) < k"
  have hit: "k * l \<le> unat d \<and> unat d < k * l + k"
    if l: "k * (l + 1) \<le> 2 ^ 64" "unat (x - (a + of_nat (k * l))) < k" for l
  proof -
    define r where "r = x - (a + of_nat (k * l))"
    define b :: u64 where "b = of_nat (k * l)"
    have "unat r < k" using l(2) by (simp only: r_def)
    then have sum: "k * l + unat r < 2 ^ 64" using l(1) by (simp add: algebra_simps)
    have b: "unat b = k * l"
      unfolding b_def by (rule unat_of_nat_small) (use sum in simp)
    have "d = b + r" by (simp add: d_def r_def b_def)
    then have "unat d = k * l + unat r"
      using sum b by (simp add: unat_plus_nowrap)
    then show ?thesis using \<open>unat r < k\<close> by linarith
  qed
  from hit[OF assms(2) 1] have "unat d div k = i"
    by (intro div_nat_eqI) (auto simp: algebra_simps)
  moreover from hit[OF assms(3) 2] have "unat d div k = j"
    by (intro div_nat_eqI) (auto simp: algebra_simps)
  ultimately show False using assms(1) by simp
qed

section \<open>The byte loops of page\_frames.c\<close>

fun memset_loop :: "nat \<Rightarrow> u64 \<Rightarrow> u8 \<Rightarrow> mem \<Rightarrow> mem" where
  "memset_loop 0 ptr val m = m"
| "memset_loop (Suc len) ptr val m = memset_loop len (ptr + 1) val (m(ptr := val))"

definition ppa_memset :: "u64 \<Rightarrow> u8 \<Rightarrow> u64 \<Rightarrow> mem \<Rightarrow> mem \<times> u64" where
  "ppa_memset dest val len m = (memset_loop (unat len) dest val m, dest)"

fun memcpy_loop :: "nat \<Rightarrow> u64 \<Rightarrow> u64 \<Rightarrow> mem \<Rightarrow> mem" where
  "memcpy_loop 0 d s m = m"
| "memcpy_loop (Suc len) d s m = memcpy_loop len (d + 1) (s + 1) (m(d := m s))"

definition ppa_memcpy :: "u64 \<Rightarrow> u64 \<Rightarrow> u64 \<Rightarrow> mem \<Rightarrow> mem \<times> u64" where
  "ppa_memcpy dest src len m = (memcpy_loop (unat len) dest src m, dest)"

lemma unat_minus_one_u64: "unat (- 1 :: u64) = 2 ^ 64 - 1"
  by (simp add: unat_eq_nat_uint uint_word_ariths)

text \<open>
  Stepping a range by one byte: an address of the range that is not its first byte is in
  the range that starts one byte later.
\<close>

lemma unat_minus_Suc:
  fixes x a :: u64
  assumes "x \<noteq> a"
  shows "unat (x - a) = Suc (unat (x - (a + 1)))"
proof -
  define d where "d = x - a"
  have "d \<noteq> 0" using assms by (simp add: d_def)
  then have "unat d = Suc (unat (d - 1))"
    by (metis Suc_pred' unat_gt_0 unat_minus_one)
  moreover have "x - (a + 1) = d - 1" by (simp add: d_def)
  ultimately show ?thesis by (simp only: d_def)
qed

lemma memset_loop_apply:
  "len \<le> 2 ^ 64 \<Longrightarrow>
     memset_loop len ptr val m x = (if unat (x - ptr) < len then val else m x)"
proof (induction len arbitrary: ptr m)
  case 0
  then show ?case by simp
next
  case (Suc len)
  note last = unat_minus_one_u64
  show ?case
  proof (cases "x = ptr")
    case True
    have "x - (ptr + 1) = - 1" by (simp add: True)
    then have "\<not> unat (x - (ptr + 1)) < len" using Suc.prems by (simp add: last)
    then have "memset_loop (Suc len) ptr val m x = (m(ptr := val)) x"
      using Suc.prems by (simp only: memset_loop.simps Suc.IH if_False Suc_leD)
    then show ?thesis by (simp add: True)
  next
    case False
    then show ?thesis using Suc.prems by (simp add: Suc.IH unat_minus_Suc)
  qed
qed

lemma ppa_memset_apply [mem_simps]:
  "fst (ppa_memset dest val len m) x = (if unat (x - dest) < unat len then val else m x)"
  using unsigned_less[of len, where 'a = nat] by (simp add: ppa_memset_def memset_loop_apply less_imp_le)

lemma load_memset_zero:
  assumes "\<And>i. i < k \<Longrightarrow> unat (a + of_nat i - dest) < unat len"
  shows "load_bytes k (fst (ppa_memset dest 0 len m)) a = (0 :: 'a::len word)"
  by (rule bit_word_eqI) (auto simp: bit_load_bytes mem_simps assms)

text \<open>
  The copy runs upwards. On ranges that do not meet it copies the source; it also does
  so when the destination starts below the source.
\<close>

lemma memcpy_loop_apply:
  assumes "apart d len s len" and "len \<le> 2 ^ 64"
  shows "memcpy_loop len d s m x = (if unat (x - d) < len then m (s + (x - d)) else m x)"
  using assms
proof (induction len arbitrary: d s m)
  case 0
  then show ?case by simp
next
  case (Suc len)
  have apart': "apart (d + 1) len (s + 1) len"
    unfolding apart_def
  proof (intro allI notI, elim conjE)
    fix x
    assume h: "unat (x - (d + 1)) < len" "unat (x - (s + 1)) < len"
    have "unat (x - d) < Suc len" by (cases "x = d") (use h in \<open>auto simp: unat_minus_Suc\<close>)
    moreover have "unat (x - s) < Suc len"
      by (cases "x = s") (use h in \<open>auto simp: unat_minus_Suc\<close>)
    ultimately show False using Suc.prems(1) by (auto simp: apart_def)
  qed
  note last = unat_minus_one_u64
  have IH: "memcpy_loop len (d + 1) (s + 1) (m(d := m s)) x =
      (if unat (x - (d + 1)) < len then (m(d := m s)) (s + 1 + (x - (d + 1)))
       else (m(d := m s)) x)"
    using Suc.IH[OF apart'] Suc.prems(2) by simp
  show ?case
  proof (cases "x = d")
    case True
    have "x - (d + 1) = - 1" by (simp add: True)
    then have "\<not> unat (x - (d + 1)) < len" using Suc.prems(2) by (simp add: last)
    then have "memcpy_loop (Suc len) d s m x = (m(d := m s)) x"
      by (simp only: memcpy_loop.simps IH if_False)
    then show ?thesis by (simp add: True)
  next
    case False
    have src: "s + 1 + (x - (d + 1)) = s + (x - d)" by simp
    have "s + (x - d) \<noteq> d" if "unat (x - d) < Suc len"
    proof
      assume e: "s + (x - d) = d"
      then have "unat (d - s) < Suc len" using that by (metis add_diff_cancel_left')
      then show False using Suc.prems(1) by (auto simp: apart_def)
    qed
    then show ?thesis using False by (simp add: IH src unat_minus_Suc)
  qed
qed

section \<open>Pages\<close>

text \<open>
  A page is named by the address of its first byte; \<open>page_of\<close> gives the page a byte
  belongs to.
\<close>

definition page_aligned :: "u64 \<Rightarrow> bool" where
  "page_aligned p \<longleftrightarrow> take_bit 12 p = 0"

definition page_of :: "u64 \<Rightarrow> u64" where
  "page_of x = push_bit 12 (drop_bit 12 x)"

lemma bit_page_of: "bit (page_of x) n \<longleftrightarrow> 12 \<le> n \<and> bit x n"
  by (auto simp: page_of_def bit_push_bit_iff bit_drop_bit_eq dest: bit_imp_le_length)

lemma page_aligned_bits: "page_aligned p \<longleftrightarrow> (\<forall>n<12. \<not> bit p n)"
proof -
  have "take_bit 12 p = 0 \<longleftrightarrow> (\<forall>n. \<not> bit (take_bit 12 p) n)"
    by (metis bit_0_eq bot_apply bot_bool_def bit_word_eqI)
  then show ?thesis by (auto simp: page_aligned_def bit_take_bit_iff)
qed

lemma page_of_aligned [simp]: "page_aligned p \<Longrightarrow> page_of p = p"
  by (rule bit_word_eqI) (auto simp: bit_page_of page_aligned_bits not_less)

lemma page_aligned_page_of [simp]: "page_aligned (page_of x)"
  by (simp add: page_aligned_bits bit_page_of)

lemma bit_small:
  assumes "unat (d :: 'a::len word) < 2 ^ k" and "k \<le> n"
  shows "\<not> bit d n"
proof -
  have "take_bit k (unat d) = unat d" using assms(1) by (simp add: take_bit_nat_eq_self)
  then have "take_bit k d = d" by (metis word_unat_eq_iff unsigned_take_bit_eq)
  then show ?thesis by (metis assms(2) bit_take_bit_iff not_less)
qed

lemma page_of_plus:
  assumes "page_aligned p" and "unat d < 4096"
  shows "page_of (p + d) = p"
proof -
  have d: "\<not> bit d n" if "12 \<le> n" for n
    using bit_small[of d 12 n] assms(2) that by simp
  have p: "\<not> bit p n" if "n < 12" for n
    using assms(1) that by (simp add: page_aligned_bits)
  have "p AND d = 0"
    by (rule bit_word_eqI) (metis bit_and_iff bit_0_eq bot_apply bot_bool_def d p not_less)
  then have "p + d = p OR d" by (simp add: disjunctive_add_eq_or)
  then show ?thesis
    by (intro bit_word_eqI) (use p in \<open>force simp: bit_page_of bit_or_iff d not_less\<close>)
qed

lemma page_of_diff: "unat (x - page_of x) < 4096"
proof -
  have "x = page_of x OR take_bit 12 x"
    by (rule bit_word_eqI) (auto simp: bit_page_of bit_or_iff bit_take_bit_iff)
  moreover have "page_of x AND take_bit 12 x = 0"
    by (rule bit_word_eqI) (auto simp: bit_page_of bit_and_iff bit_take_bit_iff)
  ultimately have "x = page_of x + take_bit 12 x" by (metis disjunctive_add_eq_or)
  then have "x - page_of x = take_bit 12 x" by (metis add_diff_cancel_left')
  then show ?thesis
    using take_bit_nat_less_exp[of 12 "unat x"] by (simp add: unsigned_take_bit_eq)
qed

lemma page_of_iff: "page_aligned p \<Longrightarrow> page_of x = p \<longleftrightarrow> unat (x - p) < 4096"
  by (metis page_of_diff page_of_plus add.commute diff_add_cancel)

end
