(* ===== verification/Font.thy ===== *)
theory Font
  imports Memory
begin

text \<open>
  The font renderer, \<open>ssfn.c\<close> with the structures and codes of \<open>ssfn.h\<close> it uses: decoding of UTF-8,
  the search for a glyph in the font, and the drawing of its fragments into the frame buffer. The two
  public variables, \<open>ssfn_src\<close> and \<open>ssfn_dst\<close>, are one record; font and frame buffer are in memory.
\<close>

section \<open>Structures\<close>

definition SSFN_OK :: int where "SSFN_OK = 0"
definition SSFN_ERR_ALLOC :: int where "SSFN_ERR_ALLOC = -1"
definition SSFN_ERR_BADFILE :: int where "SSFN_ERR_BADFILE = -2"
definition SSFN_ERR_NOFACE :: int where "SSFN_ERR_NOFACE = -3"
definition SSFN_ERR_INVINP :: int where "SSFN_ERR_INVINP = -4"
definition SSFN_ERR_BADSTYLE :: int where "SSFN_ERR_BADSTYLE = -5"
definition SSFN_ERR_BADSIZE :: int where "SSFN_ERR_BADSIZE = -6"
definition SSFN_ERR_NOGLYPH :: int where "SSFN_ERR_NOGLYPH = -7"

definition ssfn_errstr :: "string list" where
  "ssfn_errstr = ['''', ''Memory allocation error'', ''Bad file format'', ''No font face found'',
     ''Invalid input value'', ''Invalid style'', ''Invalid size'', ''Glyph not found'']"

record ssfn_font_t =
  magic :: "u8 list"
  f_size :: u32
  f_type :: u8
  features :: u8
  width :: u8
  height :: u8
  baseline :: u8
  underline :: u8
  fragments_offs :: u16
  characters_offs :: u32
  ligature_offs :: u32
  kerning_offs :: u32
  cmap_offs :: u32

definition load_font :: "mem \<Rightarrow> u64 \<Rightarrow> ssfn_font_t" where
  "load_font m a =
     \<lparr>magic = [m a, m (a + 1), m (a + 2), m (a + 3)], f_size = load32 m (a + 4), f_type = m (a + 8),
      features = m (a + 9), width = m (a + 10), height = m (a + 11), baseline = m (a + 12),
      underline = m (a + 13), fragments_offs = load_bytes 2 m (a + 14),
      characters_offs = load32 m (a + 16), ligature_offs = load32 m (a + 20),
      kerning_offs = load32 m (a + 24), cmap_offs = load32 m (a + 28)\<rparr>"

text \<open>\<open>ssfn_src\<close> and the fields of \<open>ssfn_dst\<close>.\<close>

record console =
  ssfn_src :: u64
  dst_ptr :: u64
  dst_w :: int
  dst_h :: int
  dst_p :: u16
  dst_x :: int
  dst_y :: int
  dst_fg :: u32
  dst_bg :: u32

section \<open>UTF-8\<close>

text \<open>The character is in a buffer, its pointer an offset; bytes are taken from it as needed.\<close>

definition ssfn_utf8 :: "u8 list \<Rightarrow> nat \<Rightarrow> (u32 \<times> nat) res" where
  "ssfn_utf8 buf s =
     rbind (rd buf s) (\<lambda>b.
       if b AND 128 \<noteq> 0
       then if b AND 32 = 0
            then rbind (rd buf (s + 1)) (\<lambda>b1.
                 Inr (push_bit 6 (ucast b AND 0x1F) OR (ucast b1 AND 0x3F), s + 2))
            else if b AND 16 = 0
            then rbind (rd buf (s + 1)) (\<lambda>b1. rbind (rd buf (s + 2)) (\<lambda>b2.
                 Inr (push_bit 12 (ucast b AND 0xF) OR push_bit 6 (ucast b1 AND 0x3F) OR
                      (ucast b2 AND 0x3F), s + 3)))
            else if b AND 8 = 0
            then rbind (rd buf (s + 1)) (\<lambda>b1. rbind (rd buf (s + 2)) (\<lambda>b2. rbind (rd buf (s + 3)) (\<lambda>b3.
                 Inr (push_bit 18 (ucast b AND 0x7) OR push_bit 12 (ucast b1 AND 0x3F) OR
                      push_bit 6 (ucast b2 AND 0x3F) OR (ucast b3 AND 0x3F), s + 4))))
            else Inr (0, s + 1)
       else Inr (ucast b, s + 1))"

section \<open>The glyph of a character\<close>

text \<open>Runs of missing characters are skipped, present ones are stepped over by their fragments.\<close>

function find_chr :: "mem \<Rightarrow> u64 \<Rightarrow> nat \<Rightarrow> u32 \<Rightarrow> u64 option" where
  "find_chr m ptr i unicode =
     (if i < 0x110000
      then let b = m ptr
           in if b = 0xFF then find_chr m (ptr + 1) (i + 65535 + 1) unicode
              else if b AND 0xC0 = 0xC0
              then let j = unat (push_bit 8 (ucast (b AND 0x3F)) OR ucast (m (ptr + 1)) :: u32)
                   in find_chr m (ptr + 2) (i + j + 1) unicode
              else if b AND 0xC0 = 0x80
              then let j = unat (b AND 0x3F) in find_chr m (ptr + 1) (i + j + 1) unicode
              else if of_nat i = unicode then Some ptr
              else find_chr m (ptr + 6 + ucast (m (ptr + 1)) * (if b AND 0x40 \<noteq> 0 then 6 else 5))
                     (i + 1) unicode
      else None)"
  by pat_completeness auto
termination
  by (relation "measure (\<lambda>(m, ptr, i, unicode). 0x110000 - i)") auto

declare find_chr.simps [simp del]

section \<open>Drawing\<close>

text \<open>\<open>!ssfn_dst.h || ssfn_dst.y + y < ssfn_dst.h\<close> and \<open>!w || ssfn_dst.x + j < w\<close>\<close>

definition row_inside :: "console \<Rightarrow> int \<Rightarrow> bool res" where
  "row_inside c y =
     (if dst_h c = 0 then Inr True else rbind (c_int (dst_y c + y)) (\<lambda>v. Inr (v < dst_h c)))"

definition col_inside :: "console \<Rightarrow> int \<Rightarrow> int \<Rightarrow> bool res" where
  "col_inside c w j = (if w = 0 then Inr True else rbind (c_int (dst_x c + j)) (\<lambda>v. Inr (v < w)))"

lemma byte_less: "uint (b :: u8) < 256" "unat b < 256"
  using unsigned_less [of b, where 'a = int] unsigned_less [of b, where 'a = nat] by simp_all

text \<open>The background: columns up to \<open>chr[2]\<close>, rows up to the byte at \<open>lim\<close>.\<close>

function fill_cols :: "console \<Rightarrow> int \<Rightarrow> u64 \<Rightarrow> int \<Rightarrow> u64 \<Rightarrow> mem \<Rightarrow> mem res" where
  "fill_cols c w chr j p m =
     (if j < uint (m (chr + 2))
      then rbind (col_inside c w j) (\<lambda>inside.
             if inside then fill_cols c w chr (j + 1) (p + 4) (store32 m p (dst_bg c)) else Inr m)
      else Inr m)"
  by pat_completeness auto
termination
proof (relation "measure (\<lambda>(c, w, chr, j, p, m). nat (256 - j))", goal_cases)
  case (2 c w chr j p m x)
  then show ?case using byte_less(1) [of "m (chr + 2)"] by simp
qed simp

declare fill_cols.simps [simp del]

function fill_rows ::
    "console \<Rightarrow> int \<Rightarrow> int \<Rightarrow> u64 \<Rightarrow> u64 \<Rightarrow> int \<Rightarrow> u64 \<Rightarrow> mem \<Rightarrow> (int \<times> u64 \<times> mem) res" where
  "fill_rows c w s chr lim y o' m =
     (if y < uint (m lim)
      then rbind (row_inside c y) (\<lambda>inside.
             if inside
             then rbind (fill_cols c w chr 0 o' m) (\<lambda>m.
                    fill_rows c w s chr lim (y + 1) (o' + word_of_int (4 * s)) m)
             else Inr (y, o', m))
      else Inr (y, o', m))"
  by pat_completeness auto
termination
proof (relation "measure (\<lambda>(c, w, s, chr, lim, y, o', m). nat (256 - y))", goal_cases)
  case (2 c w s chr lim y o' m x m')
  then show ?case using byte_less(1) [of "m lim"] by simp
qed simp

declare fill_rows.simps [simp del]

text \<open>One row of a bitmap fragment, a bit a pixel, the lowest bit of a byte first.\<close>

function draw_cols ::
    "console \<Rightarrow> int \<Rightarrow> int \<Rightarrow> int \<Rightarrow> u64 \<Rightarrow> u64 \<Rightarrow> u32 \<Rightarrow> mem \<Rightarrow> (u64 \<times> u32 \<times> mem) res" where
  "draw_cols c w k l p frg bm m =
     (if l < k
      then let (frg, bm) = if bm > 0x80 then (frg + 1, 1) else (frg, bm)
           in rbind (c_int (dst_x c + l)) (\<lambda>v.
                let m = if v \<ge> 0 \<and> (w = 0 \<or> v < w)
                        then if ucast (m frg) AND bm \<noteq> 0 then store32 m p (dst_fg c)
                             else if dst_bg c \<noteq> 0 then store32 m p (dst_bg c) else m
                        else m
                in draw_cols c w k (l + 1) (p + 4) frg (push_bit 1 bm) m)
      else Inr (frg, bm, m))"
  by pat_completeness auto
termination
  by (relation "measure (\<lambda>(c, w, k, l, p, frg, bm, m). nat (k - l))") auto

declare draw_cols.simps [simp del]

fun draw_rows ::
    "console \<Rightarrow> int \<Rightarrow> int \<Rightarrow> int \<Rightarrow> nat \<Rightarrow> int \<Rightarrow> u64 \<Rightarrow> u64 \<Rightarrow> u32 \<Rightarrow> mem \<Rightarrow> (int \<times> u64 \<times> mem) res" where
  "draw_rows c w s k 0 y o' frg bm m = Inr (y, o', m)"
| "draw_rows c w s k (Suc j) y o' frg bm m =
     rbind (row_inside c y) (\<lambda>inside.
       if inside
       then rbind (draw_cols c w k 0 o' frg bm m) (\<lambda>(frg, bm, m).
              draw_rows c w s k j (y + 1) (o' + word_of_int (4 * s)) frg bm m)
       else Inr (y, o', m))"

text \<open>
  The offset of a fragment, with three bytes or four. The bytes are shifted as \<open>int\<close>, so a fourth
  byte of 128 or more overflows.
\<close>

definition frag_offset :: "mem \<Rightarrow> u64 \<Rightarrow> u64 \<Rightarrow> u64 res" where
  "frag_offset m chr ptr =
     (let low = push_bit 16 (ucast (m (ptr + 4))) OR push_bit 8 (ucast (m (ptr + 3))) OR ucast (m (ptr + 2))
      in if m chr AND 0x40 \<noteq> 0
         then if m (ptr + 5) \<ge> 128 then Inl SignedOverflow
              else Inr (push_bit 24 (ucast (m (ptr + 5))) OR low)
         else Inr low)"

definition frag_step :: "mem \<Rightarrow> u64 \<Rightarrow> u64" where
  "frag_step m chr = (if m chr AND 0x40 \<noteq> 0 then 6 else 5)"

text \<open>The body of the loop over the fragments, of the fragment at \<open>frg\<close> described at \<open>ptr\<close>.\<close>

definition draw_frag ::
    "console \<Rightarrow> int \<Rightarrow> int \<Rightarrow> u64 \<Rightarrow> u64 \<Rightarrow> u64 \<Rightarrow> int \<Rightarrow> u64 \<Rightarrow> mem \<Rightarrow> (int \<times> u64 \<times> mem) res" where
  "draw_frag c w s chr ptr frg y o' m =
     rbind (if dst_bg c \<noteq> 0 then fill_rows c w s chr (ptr + 1) y o' m
            else Inr (uint (m (ptr + 1)), o' + word_of_int (4 * ((uint (m (ptr + 1)) - y) * s)), m))
       (\<lambda>(y, o', m).
         let k = (uint (m frg AND 0x1F) + 1) * 8;
             j = unat (m (frg + 1)) + 1
         in draw_rows c w s k j y o' (frg + 2) 1 m)"

function draw_frags ::
    "console \<Rightarrow> int \<Rightarrow> int \<Rightarrow> u64 \<Rightarrow> nat \<Rightarrow> u64 \<Rightarrow> int \<Rightarrow> u64 \<Rightarrow> mem \<Rightarrow> (int \<times> u64 \<times> mem) res" where
  "draw_frags c w s chr i ptr y o' m =
     (if i < unat (m (chr + 1))
      then if m ptr = 255 \<and> m (ptr + 1) = 255
           then draw_frags c w s chr (Suc i) (ptr + frag_step m chr) y o' m
           else rbind (frag_offset m chr ptr) (\<lambda>off.
                  let frg = ssfn_src c + off
                  in if m frg AND 0xE0 \<noteq> 0x80
                     then draw_frags c w s chr (Suc i) (ptr + frag_step m chr) y o' m
                     else rbind (draw_frag c w s chr ptr frg y o' m) (\<lambda>(y, o', m).
                            draw_frags c w s chr (Suc i) (ptr + frag_step m chr) y o' m))
      else Inr (y, o', m))"
  by pat_completeness auto
termination
proof (relation "measure (\<lambda>(c, w, s, chr, i, ptr, y, o', m). 256 - i)", goal_cases)
  case (2 c w s chr i ptr y o' m)
  then show ?case using byte_less(2) [of "m (chr + 1)"] by simp
next
  case (3 c w s chr i ptr y o' m off frg)
  then show ?case using byte_less(2) [of "m (chr + 1)"] by simp
next
  case (4 c w s chr i ptr y o' m off frg r y' r' o'' m')
  then show ?case using byte_less(2) [of "m (chr + 1)"] by simp
qed simp

declare draw_frags.simps [simp del]

definition ssfn_putc :: "u32 \<Rightarrow> console \<Rightarrow> mem \<Rightarrow> (int \<times> console \<times> mem) res" where
  "ssfn_putc unicode c m =
     (let s = uint (dst_p c) div 4;
          font = load_font m (ssfn_src c)
      in if ssfn_src c = 0 \<or> magic font \<noteq> [83, 70, 78, 50] \<or> dst_ptr c = 0 \<or> dst_p c = 0
         then Inr (SSFN_ERR_INVINP, c, m)
         else rbind (if dst_w c < 0 then c_int (- dst_w c) else Inr (dst_w c)) (\<lambda>w.
           case find_chr m (ssfn_src c + ucast (characters_offs font)) 0 unicode of
             None \<Rightarrow> Inr (SSFN_ERR_NOGLYPH, c, m)
           | Some chr \<Rightarrow>
               rbind (c_int (dst_y c * uint (dst_p c))) (\<lambda>row.
                 let o' = dst_ptr c + word_of_int row + word_of_int (dst_x c) * 4
                 in rbind (draw_frags c w s chr 0 (chr + 6) 0 o' m) (\<lambda>(y, o', m).
                    rbind (if dst_bg c \<noteq> 0
                           then rbind (fill_rows c w s chr (chr + 3) y o' m) (\<lambda>(y, o', m). Inr m)
                           else Inr m) (\<lambda>m.
                    rbind (c_int (dst_x c + uint (m (chr + 4)))) (\<lambda>x.
                    rbind (c_int (dst_y c + uint (m (chr + 5)))) (\<lambda>y.
                      Inr (SSFN_OK, c\<lparr>dst_x := x, dst_y := y\<rparr>, m))))))))"

end
