(* ===== verification/FontSafety.thy ===== *)
theory FontSafety
  imports Font
begin

text \<open>
  Drawing stays inside the frame buffer: every loop of \<open>ssfn_putc\<close> ends without an overflow and writes
  pixels of the visible rows and columns only, whatever the font holds.
\<close>

section \<open>The frame buffer\<close>

definition pixel :: "console \<Rightarrow> int \<Rightarrow> int \<Rightarrow> u64" where
  "pixel c row col = dst_ptr c + word_of_int (row * uint (dst_p c)) + word_of_int (4 * col)"

definition pixels :: "console \<Rightarrow> int \<Rightarrow> int \<Rightarrow> u64 set" where
  "pixels c row0 col0 = {a. \<exists>row col. row0 \<le> row \<and> row < dst_h c \<and> col0 \<le> col \<and> col < dst_w c \<and>
     unat (a - pixel c row col) < 4}"

text \<open>The visible pixels, and those of them right of and below the cursor.\<close>

definition frame :: "console \<Rightarrow> u64 set" where
  "frame c = pixels c 0 0"

definition area :: "console \<Rightarrow> u64 set" where
  "area c = pixels c (dst_y c) (dst_x c)"

text \<open>A visible screen with whole pixels to a line, the cursor not left of it or above it.\<close>

definition on_screen :: "console \<Rightarrow> bool" where
  "on_screen c \<longleftrightarrow> 0 < dst_w c \<and> 0 < dst_h c \<and> uint (dst_p c) mod 4 = 0 \<and>
     0 \<le> dst_x c \<and> dst_x c \<le> 2 ^ 30 \<and> 0 \<le> dst_y c \<and> dst_y c \<le> 2 ^ 30 \<and>
     dst_y c * uint (dst_p c) \<le> INT_MAX"

definition painted :: "console \<Rightarrow> mem \<Rightarrow> mem \<Rightarrow> bool" where
  "painted c m m' \<longleftrightarrow> (\<forall>a. a \<notin> area c \<longrightarrow> m' a = m a)"

lemma painted_refl [simp]: "painted c m m"
  by (simp add: painted_def)

lemma painted_trans: "painted c m m' \<Longrightarrow> painted c m' m'' \<Longrightarrow> painted c m m''"
  by (simp add: painted_def)

lemma painted_store:
  assumes "dst_y c \<le> row" and "row < dst_h c" and "dst_x c \<le> col" and "col < dst_w c"
  shows "painted c m (store32 m (pixel c row col) v)"
proof -
  have "a \<in> area c" if "unat (a - pixel c row col) < 4" for a
    unfolding area_def pixels_def using assms that by blast
  then show ?thesis by (auto simp: painted_def store32_def store_bytes_def)
qed

lemma area_frame:
  assumes "0 \<le> dst_x c" and "0 \<le> dst_y c"
  shows "area c \<subseteq> frame c"
proof
  fix a
  assume "a \<in> area c"
  then obtain row col where "dst_y c \<le> row" "row < dst_h c" "dst_x c \<le> col" "col < dst_w c"
      "unat (a - pixel c row col) < 4"
    by (auto simp: area_def pixels_def)
  moreover from this assms have "0 \<le> row" "0 \<le> col" by linarith+
  ultimately show "a \<in> frame c" unfolding frame_def pixels_def by blast
qed

lemma area_below: "dst_h c \<le> dst_y c \<Longrightarrow> area c = {}"
  by (auto simp: area_def pixels_def)

lemma pixel_right: "pixel c row col + 4 = pixel c row (col + 1)"
  by (simp add: pixel_def algebra_simps)

lemma pixel_down:
  assumes "uint (dst_p c) mod 4 = 0"
  shows "pixel c row col + word_of_int (4 * (n * (uint (dst_p c) div 4))) = pixel c (row + n) col"
proof -
  have eq: "4 * (n * (uint (dst_p c) div 4)) = n * uint (dst_p c)"
    using assms by (metis mult.assoc mult.commute mult_div_mod_eq add.right_neutral)
  show ?thesis unfolding pixel_def eq by (simp add: algebra_simps)
qed

lemma small_ints: "0 \<le> a \<Longrightarrow> a \<le> 2 ^ 30 \<Longrightarrow> 0 \<le> b \<Longrightarrow> b \<le> 2 ^ 20 \<Longrightarrow> c_int (a + b) = Inr (a + b)"
  by (rule c_int_ok) (simp_all add: INT_MIN_def INT_MAX_def)

lemma row_inside_ok:
  assumes "on_screen c" and "0 \<le> y" and "y \<le> 2 ^ 20"
  shows "row_inside c y = Inr (dst_y c + y < dst_h c)"
  using assms small_ints [of "dst_y c" y] by (simp add: row_inside_def on_screen_def)

lemma col_inside_ok:
  assumes "on_screen c" and "0 \<le> j" and "j \<le> 2 ^ 20"
  shows "col_inside c (dst_w c) j = Inr (dst_x c + j < dst_w c)"
  using assms small_ints [of "dst_x c" j] by (simp add: col_inside_def on_screen_def)

section \<open>The loops\<close>

lemma fill_cols_painted:
  assumes "on_screen c" and "dst_y c \<le> row" and "row < dst_h c" and "0 \<le> j"
    and "p = pixel c row (dst_x c + j)"
  shows "\<exists>m'. fill_cols c (dst_w c) chr j p m = Inr m' \<and> painted c m m'"
  using assms(4,5)
proof (induction "nat (256 - j)" arbitrary: j p m rule: less_induct)
  case less
  show ?case
  proof (cases "j < uint (m (chr + 2))")
    case False
    then show ?thesis by (subst fill_cols.simps) simp
  next
    case True
    with byte_less(1) [of "m (chr + 2)"] have j: "j < 256" by simp
    note inside = col_inside_ok [OF assms(1) less.prems(1)]
    show ?thesis
    proof (cases "dst_x c + j < dst_w c")
      case False
      with True j inside show ?thesis by (subst fill_cols.simps) simp
    next
      case vis: True
      let ?m = "store32 m p (dst_bg c)"
      have step: "painted c m ?m"
        unfolding less.prems(2)
        by (rule painted_store) (use assms less.prems vis in \<open>auto simp: on_screen_def\<close>)
      have "p + 4 = pixel c row (dst_x c + (j + 1))"
        using less.prems(2) by (simp add: pixel_right add.assoc)
      then obtain m' where "fill_cols c (dst_w c) chr (j + 1) (p + 4) ?m = Inr m'" "painted c ?m m'"
        using less.hyps [of "j + 1" "p + 4" ?m] j less.prems(1) by auto
      with True j vis inside painted_trans [OF step] show ?thesis
        by (subst fill_cols.simps) simp
    qed
  qed
qed

text \<open>
  The state between the loops: \<open>y\<close> rows below the cursor, at most \<open>n\<close>, the line starts at \<open>o'\<close>, and the
  memory has changed in that area only.
\<close>

definition at_row :: "console \<Rightarrow> int \<Rightarrow> mem \<Rightarrow> (int \<times> u64 \<times> mem) \<Rightarrow> bool" where
  "at_row c n m0 = (\<lambda>(y, o', m). 0 \<le> y \<and> y \<le> n \<and> n \<le> 2 ^ 20 \<and> o' = pixel c (dst_y c + y) (dst_x c) \<and>
     painted c m0 m)"

lemma at_row_mono: "at_row c n m0 r \<Longrightarrow> n \<le> n' \<Longrightarrow> n' \<le> 2 ^ 20 \<Longrightarrow> at_row c n' m0 r"
  by (auto simp: at_row_def)

lemma at_row_next:
  assumes "on_screen c" and "at_row c n m0 (y, o', m)" and "y < n" and "painted c m m'"
  shows "at_row c n m0 (y + 1, o' + word_of_int (4 * (uint (dst_p c) div 4)), m')"
proof -
  have "pixel c (dst_y c + y) (dst_x c) + word_of_int (4 * (uint (dst_p c) div 4)) =
      pixel c (dst_y c + y + 1) (dst_x c)"
    using pixel_down [of c "dst_y c + y" "dst_x c" 1] assms(1) by (simp add: on_screen_def)
  then show ?thesis
    using assms(2,3) painted_trans [OF _ assms(4)] by (auto simp: at_row_def add.assoc)
qed

lemma fill_rows_painted:
  assumes "on_screen c" and "at_row c n m0 (y, o', m)" and "255 \<le> n"
  shows "\<exists>r. fill_rows c (dst_w c) (uint (dst_p c) div 4) chr lim y o' m = Inr r \<and> at_row c n m0 r"
  using assms(2)
proof (induction "nat (256 - y)" arbitrary: y o' m rule: less_induct)
  case less
  have y: "0 \<le> y" "y \<le> 2 ^ 20" and o': "o' = pixel c (dst_y c + y) (dst_x c)"
    using less.prems by (simp_all add: at_row_def)
  show ?case
  proof (cases "y < uint (m lim)")
    case False
    with less.prems show ?thesis by (subst fill_rows.simps) simp
  next
    case True
    with byte_less(1) [of "m lim"] have y': "y < 255" by simp
    note inside = row_inside_ok [OF assms(1) y]
    show ?thesis
    proof (cases "dst_y c + y < dst_h c")
      case False
      with True y' inside less.prems show ?thesis by (subst fill_rows.simps) simp
    next
      case vis: True
      have "dst_y c \<le> dst_y c + y" using y(1) by simp
      from fill_cols_painted [OF assms(1) this vis order_refl, of o' chr m] o' obtain m1 where
        m1: "fill_cols c (dst_w c) chr 0 o' m = Inr m1" "painted c m m1" by auto
      have "at_row c n m0 (y + 1, o' + word_of_int (4 * (uint (dst_p c) div 4)), m1)"
        by (rule at_row_next [OF assms(1) less.prems _ m1(2)]) (use y' assms(3) in simp)
      from less.hyps [OF _ this] y' True m1 inside vis show ?thesis
        by (subst fill_rows.simps) simp
    qed
  qed
qed

lemma draw_cols_painted:
  assumes "on_screen c" and "dst_y c \<le> row" and "row < dst_h c" and "0 \<le> l" and "k \<le> 256"
    and "p = pixel c row (dst_x c + l)"
  shows "\<exists>frg' bm' m'. draw_cols c (dst_w c) k l p frg bm m = Inr (frg', bm', m') \<and> painted c m m'"
  using assms(4,6)
proof (induction "nat (k - l)" arbitrary: l p frg bm m rule: less_induct)
  case less
  show ?case
  proof (cases "l < k")
    case False
    then show ?thesis by (subst draw_cols.simps) simp
  next
    case True
    define f where "f = (if bm > 0x80 then frg + 1 else frg)"
    define b where "b = (if bm > 0x80 then 1 else bm)"
    have fb: "(if bm > 0x80 then (frg + 1, 1) else (frg, bm)) = (f, b)" by (simp add: f_def b_def)
    define m1 where "m1 = (if dst_x c + l \<ge> 0 \<and> (dst_w c = 0 \<or> dst_x c + l < dst_w c)
      then if ucast (m f) AND b \<noteq> 0 then store32 m p (dst_fg c)
           else if dst_bg c \<noteq> 0 then store32 m p (dst_bg c) else m
      else m)"
    have in_row: "dst_x c + l < dst_w c \<Longrightarrow> painted c m (store32 m p v)" for v
      unfolding less.prems(2)
      by (rule painted_store) (use assms less.prems(1) in \<open>auto simp: on_screen_def\<close>)
    have "painted c m m1" using in_row assms(1) by (auto simp: m1_def on_screen_def)
    have "c_int (dst_x c + l) = Inr (dst_x c + l)"
      using small_ints [of "dst_x c" l] assms(1,5) less.prems(1) True by (simp add: on_screen_def)
    then have "draw_cols c (dst_w c) k l p frg bm m =
        draw_cols c (dst_w c) k (l + 1) (p + 4) f (push_bit 1 b) m1"
      using True by (subst draw_cols.simps) (simp only: fb Let_def prod.case if_True rbind_simps m1_def)
    moreover have "p + 4 = pixel c row (dst_x c + (l + 1))"
      using less.prems(2) by (simp add: pixel_right add.assoc)
    then obtain frg' bm' m' where
      "draw_cols c (dst_w c) k (l + 1) (p + 4) f (push_bit 1 b) m1 = Inr (frg', bm', m')" "painted c m1 m'"
      using less.hyps [of "l + 1" "p + 4" f "push_bit 1 b" m1] True less.prems(1) by auto
    ultimately show ?thesis using painted_trans [OF \<open>painted c m m1\<close>] by auto
  qed
qed

lemma draw_rows_painted:
  assumes "on_screen c" and "k \<le> 256" and "at_row c n m0 (y, o', m)" and "y + int j \<le> n"
  shows "\<exists>r. draw_rows c (dst_w c) (uint (dst_p c) div 4) k j y o' frg bm m = Inr r \<and> at_row c n m0 r"
  using assms(3,4)
proof (induction j arbitrary: y o' frg bm m)
  case 0
  then show ?case by simp
next
  case (Suc j)
  have y: "0 \<le> y" "y \<le> 2 ^ 20" "y < n" and o': "o' = pixel c (dst_y c + y) (dst_x c + 0)"
    using Suc.prems by (simp_all add: at_row_def)
  note inside = row_inside_ok [OF assms(1) y(1,2)]
  show ?case
  proof (cases "dst_y c + y < dst_h c")
    case False
    with Suc.prems inside show ?thesis by simp
  next
    case True
    have "dst_y c \<le> dst_y c + y" using y(1) by simp
    from draw_cols_painted [OF assms(1) this True order_refl assms(2) o'] obtain frg' bm' m1 where
      m1: "draw_cols c (dst_w c) k 0 o' frg bm m = Inr (frg', bm', m1)" "painted c m m1" by blast
    have "at_row c n m0 (y + 1, o' + word_of_int (4 * (uint (dst_p c) div 4)), m1)"
      by (rule at_row_next [OF assms(1) Suc.prems(1) y(3) m1(2)])
    from Suc.IH [OF this, of frg' bm'] Suc.prems(2) m1 inside True show ?thesis by simp
  qed
qed

section \<open>Fragments\<close>

lemma draw_frag_painted:
  assumes "on_screen c" and "at_row c n m0 (y, o', m)" and "255 \<le> n" and "n + 256 \<le> 2 ^ 20"
  shows "\<exists>r. draw_frag c (dst_w c) (uint (dst_p c) div 4) chr ptr frg y o' m = Inr r \<and>
    at_row c (n + 256) m0 r"
proof -
  let ?s = "uint (dst_p c) div 4"
  let ?t = "uint (m (ptr + 1))"
  define start where "start = (if dst_bg c \<noteq> 0 then fill_rows c (dst_w c) ?s chr (ptr + 1) y o' m
    else Inr (?t, o' + word_of_int (4 * ((?t - y) * ?s)), m))"
  have "\<exists>r. start = Inr r \<and> at_row c n m0 r"
  proof (cases "dst_bg c = 0")
    case True
    have "o' + word_of_int (4 * ((?t - y) * ?s)) = pixel c (dst_y c + ?t) (dst_x c)"
      using pixel_down [of c "dst_y c + y" "dst_x c" "?t - y"] assms(1,2)
      by (simp add: on_screen_def at_row_def)
    then have "at_row c n m0 (?t, o' + word_of_int (4 * ((?t - y) * ?s)), m)"
      using assms(2,3) byte_less(1) [of "m (ptr + 1)"] by (simp add: at_row_def)
    with True show ?thesis by (simp add: start_def)
  next
    case False
    with fill_rows_painted [OF assms(1,2,3)] show ?thesis by (simp add: start_def)
  qed
  then obtain y1 o1 m1 where st: "start = Inr (y1, o1, m1)" "at_row c n m0 (y1, o1, m1)" by auto
  let ?k = "(uint (m1 frg AND 0x1F) + 1) * 8"
  let ?j = "unat (m1 (frg + 1)) + 1"
  have "m1 frg AND 0x1F \<le> 0x1F" by (rule word_and_le1)
  then have k: "?k \<le> 256" by (simp add: word_le_def)
  have "at_row c (n + 256) m0 (y1, o1, m1)" by (rule at_row_mono [OF st(2)]) (use assms(4) in simp_all)
  moreover have "y1 + int ?j \<le> n + 256"
    using st(2) byte_less [of "m1 (frg + 1)"] by (simp add: at_row_def)
  ultimately obtain r where "draw_rows c (dst_w c) ?s ?k ?j y1 o1 (frg + 2) 1 m1 = Inr r"
      "at_row c (n + 256) m0 r"
    using draw_rows_painted [OF assms(1) k] by blast
  then show ?thesis
    unfolding draw_frag_def start_def [symmetric] st(1) by (simp add: Let_def)
qed

text \<open>Fragments with offsets of three bytes, in a descriptor that is not itself on the screen.\<close>

definition plain_glyph :: "console \<Rightarrow> mem \<Rightarrow> u64 \<Rightarrow> bool" where
  "plain_glyph c m chr \<longleftrightarrow> chr \<notin> area c \<and> m chr AND 0x40 = 0"

lemma draw_frags_painted:
  assumes "on_screen c" and "at_row c (255 + 256 * int i) m0 (y, o', m)" and "i \<le> 256"
    and "plain_glyph c m0 chr"
  shows "\<exists>r. draw_frags c (dst_w c) (uint (dst_p c) div 4) chr i ptr y o' m = Inr r \<and>
    at_row c (255 + 256 * 256) m0 r"
  using assms(2,3)
proof (induction "256 - i" arbitrary: i ptr y o' m rule: less_induct)
  case less
  let ?s = "uint (dst_p c) div 4"
  let ?next = "\<lambda>y o' m. draw_frags c (dst_w c) ?s chr (Suc i) (ptr + frag_step m chr) y o' m"
  show ?case
  proof (cases "i < unat (m (chr + 1))")
    case False
    moreover have "at_row c (255 + 256 * 256) m0 (y, o', m)"
      by (rule at_row_mono [OF less.prems(1)]) (use less.prems(2) in simp_all)
    ultimately show ?thesis by (subst draw_frags.simps) simp
  next
    case True
    with byte_less(2) [of "m (chr + 1)"] have i: "i < 255" by simp
    have same: "at_row c (255 + 256 * int (Suc i)) m0 (y, o', m)"
      by (rule at_row_mono [OF less.prems(1)]) (use i in simp_all)
    have on: "\<exists>r. ?next y o' m = Inr r \<and> at_row c (255 + 256 * 256) m0 r"
      if "at_row c (255 + 256 * int (Suc i)) m0 (y, o', m)" for y o' m
      by (rule less.hyps [OF _ that]) (use i in simp_all)
    have "m chr = m0 chr" using less.prems(1) assms(4) by (simp add: at_row_def painted_def plain_glyph_def)
    then obtain off where off: "frag_offset m chr ptr = Inr off"
      using assms(4) by (simp add: frag_offset_def plain_glyph_def Let_def)
    obtain y1 o1 m1 where fr: "draw_frag c (dst_w c) ?s chr ptr (ssfn_src c + off) y o' m = Inr (y1, o1, m1)"
        "at_row c (255 + 256 * int (Suc i)) m0 (y1, o1, m1)"
      using draw_frag_painted [OF assms(1) less.prems(1), of chr ptr "ssfn_src c + off"] i
      by (auto simp: algebra_simps)
    show ?thesis
      using on [OF same] on [OF fr(2)] True off fr(1)
      by (subst draw_frags.simps) (simp add: Let_def)
  qed
qed

section \<open>A character\<close>

definition glyph_of :: "console \<Rightarrow> mem \<Rightarrow> u32 \<Rightarrow> u64 option" where
  "glyph_of c m unicode =
     find_chr m (ssfn_src c + ucast (characters_offs (load_font m (ssfn_src c)))) 0 unicode"

definition usable :: "console \<Rightarrow> mem \<Rightarrow> bool" where
  "usable c m \<longleftrightarrow> ssfn_src c \<noteq> 0 \<and> magic (load_font m (ssfn_src c)) = [83, 70, 78, 50] \<and>
     dst_ptr c \<noteq> 0 \<and> dst_p c \<noteq> 0"

lemma line_start_ok:
  assumes "on_screen c"
  shows "c_int (dst_y c * uint (dst_p c)) = Inr (dst_y c * uint (dst_p c))"
proof (rule c_int_ok)
  have "0 \<le> dst_y c * uint (dst_p c)"
    using assms by (intro mult_nonneg_nonneg) (simp_all add: on_screen_def)
  then show "INT_MIN \<le> dst_y c * uint (dst_p c)" unfolding INT_MIN_def by linarith
qed (use assms in \<open>simp add: on_screen_def\<close>)

lemma ssfn_putc_painted:
  assumes "on_screen c" and "usable c m" and "glyph_of c m unicode = Some chr" and "plain_glyph c m chr"
  shows "\<exists>m' dx dy. ssfn_putc unicode c m = Inr (SSFN_OK, c\<lparr>dst_x := dst_x c + dx, dst_y := dst_y c + dy\<rparr>, m') \<and>
    painted c m m' \<and> dx = uint (m' (chr + 4)) \<and> dy = uint (m' (chr + 5))"
proof -
  let ?s = "uint (dst_p c) div 4"
  let ?o = "dst_ptr c + word_of_int (dst_y c * uint (dst_p c)) + word_of_int (dst_x c) * 4"
  have pos: "\<not> dst_w c < 0" using assms(1) by (auto simp: on_screen_def)
  note prod = line_start_ok [OF assms(1)]
  have "at_row c (255 + 256 * int 0) m (0, ?o, m)"
    by (simp add: at_row_def pixel_def)
  from draw_frags_painted [OF assms(1) this _ assms(4), of "chr + 6"] obtain y1 o1 m1 where
    fr: "draw_frags c (dst_w c) ?s chr 0 (chr + 6) 0 ?o m = Inr (y1, o1, m1)"
      "at_row c (255 + 256 * 256) m (y1, o1, m1)" by auto
  obtain m2 where m2: "(if dst_bg c \<noteq> 0
      then rbind (fill_rows c (dst_w c) ?s chr (chr + 3) y1 o1 m1) (\<lambda>(y, o', m). Inr m)
      else Inr m1) = Inr m2" "painted c m m2"
  proof (cases "dst_bg c = 0")
    case True
    then show ?thesis using that [of m1] fr(2) by (simp add: at_row_def)
  next
    case False
    then show ?thesis
      using that fill_rows_painted [OF assms(1) fr(2), of chr "chr + 3"] by (auto simp: at_row_def)
  qed
  have add: "c_int (dst_x c + uint b) = Inr (dst_x c + uint b)"
    "c_int (dst_y c + uint b) = Inr (dst_y c + uint b)" for b :: u8
    using small_ints [of "dst_x c" "uint b"] small_ints [of "dst_y c" "uint b"] assms(1)
      byte_less(1) [of b] by (simp_all add: on_screen_def)
  show ?thesis
    using assms(2,3) pos prod fr(1) m2 add
    by (simp add: ssfn_putc_def usable_def glyph_of_def Let_def)
qed

end
