(* ===== verification/Console.thy ===== *)
theory Console
  imports FontSafety Fmt
begin

text \<open>
  The text console, \<open>conlib.c\<close> and \<open>conlib.h\<close>: the cursor, strings, colours, clearing, and the number
  conversions, which are those of \<open>fmt.c\<close> again. The state is the record of \<open>ssfn_src\<close> and \<open>ssfn_dst\<close>
  with the memory that holds font and frame buffer.
\<close>

section \<open>Set-up and colours\<close>

definition WHITE :: u32 where "WHITE = 0xffffffff"
definition YELLOW :: u32 where "YELLOW = 0x00fbf305"
definition ORANGE :: u32 where "ORANGE = 0x00ff6403"
definition RED :: u32 where "RED = 0x00dd0907"
definition MAGENTA :: u32 where "MAGENTA = 0x00f20884"
definition BLUE :: u32 where "BLUE = 0x000000d3"
definition PURPLE :: u32 where "PURPLE = 0x004700a5"
definition CYAN :: u32 where "CYAN = 0x0002abea"
definition GREEN :: u32 where "GREEN = 0x001fb714"
definition DARKGREEN :: u32 where "DARKGREEN = 0x00006412"
definition BROWN :: u32 where "BROWN = 0x00562c05"
definition TAN :: u32 where "TAN = 0x0090713a"
definition LIGHTGREY :: u32 where "LIGHTGREY = 0x00c0c0c0"
definition MEDIUMGREY :: u32 where "MEDIUMGREY = 0x00808080"
definition DARKGREY :: u32 where "DARKGREY = 0x00404040"
definition BLACK :: u32 where "BLACK = 0x00000000"

text \<open>Width and height are converted to \<open>int\<close>, the pitch to 16 bits.\<close>

definition conlib_init :: "u64 \<Rightarrow> u64 \<Rightarrow> u32 \<Rightarrow> u32 \<Rightarrow> u32 \<Rightarrow> console" where
  "conlib_init font fbbase w h p =
     \<lparr>ssfn_src = font, dst_ptr = fbbase, dst_w = sint w, dst_h = sint h, dst_p = ucast p,
      dst_x = 0, dst_y = 0, dst_fg = 0xffffffff, dst_bg = 0\<rparr>"

definition set_bg :: "u32 \<Rightarrow> console \<Rightarrow> console" where "set_bg color c = c\<lparr>dst_bg := color\<rparr>"
definition set_fg :: "u32 \<Rightarrow> console \<Rightarrow> console" where "set_fg color c = c\<lparr>dst_fg := color\<rparr>"
definition set_color :: "u32 \<Rightarrow> u32 \<Rightarrow> console \<Rightarrow> console" where
  "set_color fg bg c = c\<lparr>dst_fg := fg, dst_bg := bg\<rparr>"
definition get_bg :: "console \<Rightarrow> u32" where "get_bg c = dst_bg c"
definition get_fg :: "console \<Rightarrow> u32" where "get_fg c = dst_fg c"

section \<open>Characters and strings\<close>

type_synonym screen = "console \<times> mem"

definition newline :: "screen \<Rightarrow> screen res" where
  "newline = (\<lambda>(c, m).
     rbind (c_int (dst_y c + uint (height (load_font m (ssfn_src c))))) (\<lambda>y.
       Inr (c\<lparr>dst_y := y, dst_x := 0\<rparr>, m)))"

definition putc :: "int \<Rightarrow> screen \<Rightarrow> (int \<times> screen) res" where
  "putc ch = (\<lambda>(c, m).
     rbind (if ch = 10 then newline (c, m)
            else if ch = 13 then Inr (c\<lparr>dst_x := 0\<rparr>, m)
            else if ch = 9 then Inr (c, m)
            else rbind (ssfn_putc (word_of_int ch) c m) (\<lambda>(r, s). Inr s)) (\<lambda>(c, m).
     rbind (if dst_x c \<ge> dst_w c then newline (c, m) else Inr (c, m)) (\<lambda>s. Inr (ch, s))))"

function puts :: "u8 list \<Rightarrow> nat \<Rightarrow> screen \<Rightarrow> (int \<times> screen) res" where
  "puts str p s =
     rbind (rd str p) (\<lambda>c.
       if c \<noteq> 0 then rbind (putc (sint c) s) (\<lambda>(_, s). puts str (Suc p) s) else Inr (0, s))"
  by pat_completeness auto
termination
  by (relation "measure (\<lambda>(str, p, s). length str - p)") (auto simp: rd_def split: if_splits)

declare puts.simps [simp del]

definition putln :: "u8 list \<Rightarrow> screen \<Rightarrow> (int \<times> screen) res" where
  "putln str s = rbind (puts str 0 s) (\<lambda>(_, s). rbind (putc 10 s) (\<lambda>(_, s). Inr (0, s)))"

text \<open>\<open>n\<close> strings from the variable arguments.\<close>

primrec puts_args :: "nat \<Rightarrow> va list \<Rightarrow> screen \<Rightarrow> screen res" where
  "puts_args 0 ap s = Inr s"
| "puts_args (Suc n) ap s =
     rbind (va_str ap) (\<lambda>(crt, ap). rbind (puts crt 0 s) (\<lambda>(_, s). puts_args n ap s))"

definition puts_n :: "u64 \<Rightarrow> va list \<Rightarrow> screen \<Rightarrow> screen res" where
  "puts_n n ap s = puts_args (unat n) ap s"

definition putsx :: "u64 \<Rightarrow> u32 \<Rightarrow> u32 \<Rightarrow> va list \<Rightarrow> screen \<Rightarrow> screen res" where
  "putsx n fg bg ap = (\<lambda>(c, m).
     let old_fg = get_fg c; old_bg = get_bg c
     in rbind (puts_args (unat n) ap (set_color fg bg c, m)) (\<lambda>(c, m).
          Inr (set_color old_fg old_bg c, m)))"

definition ERR :: "u8 list list \<Rightarrow> screen \<Rightarrow> screen res" where
  "ERR strs = putsx (of_nat (length strs)) WHITE RED (map (VPtr 0) strs)"

text \<open>
  \<open>while (x < 0) x += n\<close>, the division in it computed in every round: with \<open>n = 0\<close> it never ends, with
  a negative \<open>n\<close> it overflows in the end.
\<close>

function wrap_neg :: "int \<Rightarrow> int \<Rightarrow> int \<Rightarrow> int res" where
  "wrap_neg sz cell x =
     (if x < 0
      then if cell = 0 then Inl DivByZero
           else let n = sgn sz * (\<bar>sz\<bar> div cell)
                in if n = 0 then Inl Diverges
                   else rbind (c_int (x + n)) (wrap_neg sz cell)
      else Inr x)"
  by pat_completeness auto
termination
proof (relation "measure (\<lambda>(sz, cell, x).
    if 0 < sgn sz * (\<bar>sz\<bar> div cell) then nat (- x) else nat (x - INT_MIN + 1))", goal_cases)
  case (2 sz cell x n y)
  have n: "sgn sz * (\<bar>sz\<bar> div cell) = n" using 2(3) by simp
  have "x < 0" "n \<noteq> 0" "y = x + n" "INT_MIN \<le> y" using 2(1,4,5) by (simp_all add: c_int_Inr)
  then show ?case by (simp add: n)
qed simp

declare wrap_neg.simps [simp del]

definition puts_at :: "int \<Rightarrow> int \<Rightarrow> u8 list \<Rightarrow> screen \<Rightarrow> screen res" where
  "puts_at x y str = (\<lambda>(c, m).
     let old_x = dst_x c; old_y = dst_y c; font = load_font m (ssfn_src c);
         fw = uint (width font); fh = uint (height font)
     in rbind (wrap_neg (dst_w c) fw x) (\<lambda>x. rbind (wrap_neg (dst_h c) fh y) (\<lambda>y.
        rbind (c_int (x * fw)) (\<lambda>px. rbind (c_int (y * fh)) (\<lambda>py.
        rbind (puts str 0 (c\<lparr>dst_x := px, dst_y := py\<rparr>, m)) (\<lambda>(_, c, m).
          Inr (c\<lparr>dst_x := old_x, dst_y := old_y\<rparr>, m)))))))"

primrec cls_loop :: "nat \<Rightarrow> u64 \<Rightarrow> u32 \<Rightarrow> mem \<Rightarrow> mem" where
  "cls_loop 0 ptr bg m = m"
| "cls_loop (Suc len) ptr bg m = cls_loop len (ptr + 4) bg (store32 m ptr bg)"

definition cls :: "screen \<Rightarrow> screen res" where
  "cls = (\<lambda>(c, m). rbind (c_int (dst_w c * dst_h c)) (\<lambda>n.
     Inr (c, cls_loop (unat (word_of_int n :: u32)) (dst_ptr c) (dst_bg c) m)))"

section \<open>Numbers\<close>

function itoa_digits :: "u64 \<Rightarrow> u64 \<Rightarrow> u8 list \<Rightarrow> nat \<Rightarrow> (u8 list \<times> nat) res" where
  "itoa_digits rem base buff i =
     (if base = 0 then Inl DivByZero
      else let digit = int_of_u64 (rem mod base)
           in rbind (if digit < 0xA then wr buff i (word_of_int (48 + digit))
                     else wr buff i (word_of_int (65 + digit - 0xA))) (\<lambda>buff.
                let rem = rem div base
                in if rem \<noteq> 0 then itoa_digits rem base buff (i + 1) else Inr (buff, i + 1)))"
  by pat_completeness auto
termination
  by (relation "measure (\<lambda>(rem, base, buff, i). length buff - i)") (auto simp: wr_def split: if_splits)

declare itoa_digits.simps [simp del]

definition con_itoa :: "u64 \<Rightarrow> u8 list \<Rightarrow> nat \<Rightarrow> int \<Rightarrow> u8 list res" where
  "con_itoa num buff off base =
     rbind (itoa_digits num (word_of_int base) buff off) (\<lambda>(buff, i).
     rbind (wr buff i 0) (\<lambda>buff. strrev buff off))"

definition con_itoas :: "int \<Rightarrow> u8 list \<Rightarrow> nat \<Rightarrow> int \<Rightarrow> u8 list res" where
  "con_itoas num buff off base =
     (if num < 0
      then rbind (c_llong (- num)) (\<lambda>n. rbind (con_itoa (word_of_int n) buff (off + 1) base) (\<lambda>buff.
             wr buff off 45))
      else con_itoa (word_of_int num) buff off base)"

end
