(* ===== verification/ConsoleCorrect.thy ===== *)
theory ConsoleCorrect
  imports Console
begin

text \<open>
  Strings on the console: each character keeps the cursor on a column of the screen and the memory
  outside the frame buffer, as long as the font is not in the frame buffer itself.
\<close>

section \<open>Characters without a glyph\<close>

lemma find_chr_range: "find_chr m ptr i unicode = Some chr \<Longrightarrow> unat unicode < 0x110000"
proof (induction m ptr i unicode rule: find_chr.induct)
  case (1 m ptr i unicode)
  from 1(5) show ?case
  proof (subst (asm) find_chr.simps, simp only: Let_def split: if_splits)
    assume "i < 0x110000" "word_of_nat i = unicode"
    then show "unat unicode < 0x110000" by (auto simp: unat_of_nat take_bit_nat_eq_self)
  qed (use 1(1-4) in \<open>simp_all add: Let_def\<close>)
qed

lemma find_chr_skip:
  assumes "m ptr = 0xFF"
  shows "find_chr m ptr i unicode = find_chr m (ptr + 1) (i + 65536) unicode"
proof (cases "i < 0x110000")
  case True
  with assms show ?thesis by (subst find_chr.simps) (simp add: add.commute)
next
  case False
  then show ?thesis
    by (simp add: find_chr.simps [of m ptr i] find_chr.simps [of m "ptr + 1" "i + 65536"])
qed

lemma find_chr_end:
  "\<forall>k<n. m (ptr + of_nat k) = 0xFF \<Longrightarrow> 0x110000 \<le> i + n * 65536 \<Longrightarrow> find_chr m ptr i unicode = None"
proof (induction n arbitrary: ptr i)
  case 0
  then show ?case by (subst find_chr.simps) simp
next
  case (Suc n)
  have "m ptr = 0xFF" using Suc.prems(1) [rule_format, of 0] by simp
  moreover have "find_chr m (ptr + 1) (i + 65536) unicode = None"
  proof (rule Suc.IH)
    show "\<forall>k<n. m (ptr + 1 + of_nat k) = 0xFF"
      using Suc.prems(1) [rule_format, of "Suc _"] by (simp add: add.assoc)
  qed (use Suc.prems(2) in simp)
  ultimately show ?case by (simp only: find_chr_skip)
qed

lemma ssfn_putc_missing:
  assumes "\<not> usable c m \<or> glyph_of c m unicode = None" and "dst_w c > 0"
  shows "ssfn_putc unicode c m =
    Inr (if usable c m then SSFN_ERR_NOGLYPH else SSFN_ERR_INVINP, c, m)"
  using assms by (auto simp: ssfn_putc_def usable_def glyph_of_def Let_def)

text \<open>A byte of 128 or more is negative as a \<open>char\<close> and beyond every code point as \<open>uint32_t\<close>.\<close>

lemma high_byte_glyph:
  assumes "bit (b :: u8) 7"
  shows "glyph_of c m (word_of_int (sint b)) = None"
proof -
  define v :: u32 where "v = word_of_int (sint b)"
  have "bit v 31" unfolding v_def using assms
    by (simp only: bit_word_of_int_iff) (simp add: bit_sint_iff)
  then have large: "\<not> unat v < 2 ^ 31" using bit_small [of v 31 31] by blast
  have "find_chr m p i v \<noteq> Some chr" for p i chr
  proof
    assume "find_chr m p i v = Some chr"
    from find_chr_range [OF this] large show False by simp
  qed
  then have "find_chr m p i v = None" for p i by (cases "find_chr m p i v") auto
  then show ?thesis unfolding glyph_of_def v_def .
qed

section \<open>The screen invariant\<close>

text \<open>
  What the console needs of font and geometry: looking up a glyph and the font's header do not read
  the frame buffer, and glyph descriptors are plain.
\<close>

definition font_apart :: "console \<Rightarrow> mem \<Rightarrow> bool" where
  "font_apart c m \<longleftrightarrow>
     (\<forall>m'. (\<forall>a. a \<notin> frame c \<longrightarrow> m' a = m a) \<longrightarrow>
        load_font m' (ssfn_src c) = load_font m (ssfn_src c) \<and>
        (\<forall>u. glyph_of c m' u = glyph_of c m u)) \<and>
     (\<forall>u chr. glyph_of c m u = Some chr \<longrightarrow> chr \<notin> frame c \<and> m chr AND 0x40 = 0)"

lemma font_apartD: "font_apart c m \<Longrightarrow> glyph_of c m u = Some chr \<Longrightarrow> chr \<notin> frame c \<and> m chr AND 0x40 = 0"
  unfolding font_apart_def by blast

text \<open>
  One character moves the cursor down by at most \<open>d\<close>: the glyph's own advance and a new line. Space for
  \<open>n\<close> more characters is a distance of \<open>d * n\<close> to the row where the address arithmetic overflows.
\<close>

definition steps_within :: "int \<Rightarrow> console \<Rightarrow> mem \<Rightarrow> bool" where
  "steps_within d c m \<longleftrightarrow>
     (\<forall>m'. (\<forall>a. a \<notin> frame c \<longrightarrow> m' a = m a) \<longrightarrow>
        uint (height (load_font m' (ssfn_src c))) \<le> d \<and>
        (\<forall>u chr. glyph_of c m' u = Some chr \<longrightarrow>
           uint (m' (chr + 5)) + uint (height (load_font m' (ssfn_src c))) \<le> d))"

definition screen_fits :: "int \<Rightarrow> nat \<Rightarrow> screen \<Rightarrow> bool" where
  "screen_fits d n = (\<lambda>(c, m). 0 < dst_w c \<and> dst_w c \<le> 2 ^ 29 \<and> 0 < dst_h c \<and> uint (dst_p c) mod 4 = 0 \<and>
     0 \<le> dst_x c \<and> dst_x c < dst_w c \<and> 0 \<le> dst_y c \<and> dst_y c + d * int n \<le> 32768 \<and>
     font_apart c m \<and> steps_within d c m)"

text \<open>Whatever the font, a character moves down at most 255 pixels and a line of at most 255 more.\<close>

lemma steps_within_any: "steps_within 510 c m"
proof -
  have "uint (m' a) + uint (height (load_font m' b)) \<le> 510" "uint (height (load_font m' b)) \<le> 510" for m' a b
    using byte_less(1) [of "m' a"] byte_less(1) [of "height (load_font m' b)"] by linarith+
  then show ?thesis by (simp add: steps_within_def)
qed

text \<open>What a step may change: the cursor, never upwards, and memory in the frame buffer.\<close>

definition screen_step :: "screen \<Rightarrow> screen \<Rightarrow> bool" where
  "screen_step = (\<lambda>(c, m) (c', m').
     c' = c\<lparr>dst_x := dst_x c', dst_y := dst_y c'\<rparr> \<and> dst_y c \<le> dst_y c' \<and>
     (\<forall>a. a \<notin> frame c \<longrightarrow> m' a = m a))"

lemma frame_cursor [simp]: "frame (c\<lparr>dst_x := x, dst_y := y\<rparr>) = frame c"
  by (simp add: frame_def pixels_def pixel_def)

lemma frame_step: "screen_step (c, m) (c', m') \<Longrightarrow> frame c' = frame c"
  by (simp add: screen_step_def) (metis frame_cursor)

lemma screen_step_refl: "screen_step s s"
  by (auto simp: screen_step_def split: prod.split)

lemma screen_step_trans:
  assumes "screen_step s s'" and "screen_step s' s''"
  shows "screen_step s s''"
proof -
  obtain c m c' m' c'' m'' where s: "s = (c, m)" "s' = (c', m')" "s'' = (c'', m'')"
    by (metis surj_pair)
  have f: "frame c' = frame c" using frame_step assms(1) by (simp add: s)
  have c: "c' = c\<lparr>dst_x := dst_x c', dst_y := dst_y c'\<rparr>"
    "c'' = c'\<lparr>dst_x := dst_x c'', dst_y := dst_y c''\<rparr>"
    using assms by (simp_all add: s screen_step_def)
  have "c'' = c\<lparr>dst_x := dst_x c'', dst_y := dst_y c''\<rparr>" by (subst c(2), subst c(1)) simp
  then show ?thesis using assms f by (simp add: s screen_step_def)
qed

lemma glyph_of_cursor [simp]: "glyph_of (c\<lparr>dst_x := x, dst_y := y\<rparr>) m u = glyph_of c m u"
  by (simp add: glyph_of_def)

lemma font_apart_step:
  assumes "font_apart c m" and "screen_step (c, m) (c', m')"
  shows "font_apart c' m'" and "load_font m' (ssfn_src c') = load_font m (ssfn_src c)"
proof -
  have same: "\<forall>a. a \<notin> frame c \<longrightarrow> m' a = m a" and c': "c' = c\<lparr>dst_x := dst_x c', dst_y := dst_y c'\<rparr>"
    using assms(2) by (simp_all add: screen_step_def)
  have src: "ssfn_src c' = ssfn_src c" by (subst c') simp
  have gl: "glyph_of c' m'' u = glyph_of c m'' u" for m'' u by (subst c') simp
  have fr: "frame c' = frame c" by (rule frame_step [OF assms(2)])
  have font: "load_font m'' (ssfn_src c) = load_font m (ssfn_src c) \<and> (\<forall>u. glyph_of c m'' u = glyph_of c m u)"
    if "\<forall>a. a \<notin> frame c \<longrightarrow> m'' a = m a" for m''
    using assms(1) that unfolding font_apart_def by blast
  show "load_font m' (ssfn_src c') = load_font m (ssfn_src c)"
    using font [OF same] by (simp add: src)
  show "font_apart c' m'"
    unfolding font_apart_def src gl fr
  proof (intro conjI allI impI)
    fix m'' u
    assume "\<forall>a. a \<notin> frame c \<longrightarrow> m'' a = m' a"
    then have "\<forall>a. a \<notin> frame c \<longrightarrow> m'' a = m a" using same by simp
    from font [OF this] font [OF same]
    show "load_font m'' (ssfn_src c) = load_font m' (ssfn_src c)"
      and "glyph_of c m'' u = glyph_of c m' u" by simp_all
  next
    fix u chr
    assume "glyph_of c m' u = Some chr"
    then have "glyph_of c m u = Some chr" using font [OF same] by simp
    then have *: "chr \<notin> frame c \<and> m chr AND 0x40 = 0" by (rule font_apartD [OF assms(1)])
    then show "chr \<notin> frame c" and "m' chr AND 0x40 = 0" using same by simp_all
  qed
qed

lemma steps_within_step:
  assumes "steps_within d c m" and "screen_step (c, m) (c', m')"
  shows "steps_within d c' m'"
proof -
  have same: "\<forall>a. a \<notin> frame c \<longrightarrow> m' a = m a" and c': "c' = c\<lparr>dst_x := dst_x c', dst_y := dst_y c'\<rparr>"
    using assms(2) by (simp_all add: screen_step_def)
  have src: "ssfn_src c' = ssfn_src c" by (subst c') simp
  have gl: "glyph_of c' m'' u = glyph_of c m'' u" for m'' u by (subst c') simp
  have fr: "frame c' = frame c" by (rule frame_step [OF assms(2)])
  show ?thesis using assms(1) same unfolding steps_within_def src gl fr by simp
qed

lemma steps_withinD:
  assumes "steps_within d c m" and "\<forall>a. a \<notin> frame c \<longrightarrow> m' a = m a"
  shows "uint (height (load_font m' (ssfn_src c))) \<le> d"
    and "glyph_of c m' u = Some chr \<Longrightarrow> uint (m' (chr + 5)) + uint (height (load_font m' (ssfn_src c))) \<le> d"
  using assms unfolding steps_within_def by blast+

lemma screen_fits_steps:
  assumes "screen_fits d (Suc n) (c, m)"
  shows "0 \<le> d" and "dst_y c \<le> 32768" and "dst_y c + d + d * int n \<le> 32768"
    and "uint (height (load_font m (ssfn_src c))) \<le> d"
proof -
  have "steps_within d c m" using assms by (simp add: screen_fits_def)
  from steps_withinD(1) [OF this] show h: "uint (height (load_font m (ssfn_src c))) \<le> d" by simp
  show d: "0 \<le> d" by (rule order_trans [OF _ h]) simp
  show y: "dst_y c + d + d * int n \<le> 32768"
    using assms by (simp add: screen_fits_def algebra_simps)
  have "0 \<le> d * int n" using d by simp
  with y d show "dst_y c \<le> 32768" by linarith
qed

lemma ssfn_putc_step:
  assumes "screen_fits d (Suc n) (c, m)"
  shows "\<exists>r c' m'. ssfn_putc u c m = Inr (r, c', m') \<and> screen_step (c, m) (c', m') \<and>
    0 \<le> dst_x c' \<and> dst_x c' \<le> dst_x c + 255 \<and>
    dst_y c' + uint (height (load_font m (ssfn_src c))) \<le> dst_y c + d"
proof (cases "usable c m \<and> glyph_of c m u \<noteq> None")
  case False
  have "ssfn_putc u c m = Inr (if usable c m then SSFN_ERR_NOGLYPH else SSFN_ERR_INVINP, c, m)"
    by (rule ssfn_putc_missing) (use False assms in \<open>auto simp: screen_fits_def\<close>)
  moreover have "0 \<le> dst_x c" using assms by (simp add: screen_fits_def)
  moreover have "dst_x c \<le> dst_x c + 255" "dst_y c + uint (height (load_font m (ssfn_src c))) \<le> dst_y c + d"
    using screen_fits_steps(4) [OF assms] by linarith+
  ultimately show ?thesis using screen_step_refl by blast
next
  case True
  then obtain chr where chr: "usable c m" "glyph_of c m u = Some chr" by auto
  have pos: "0 \<le> dst_x c" "0 \<le> dst_y c" using assms by (simp_all add: screen_fits_def)
  have "uint (dst_p c) < 65536" using unsigned_less [of "dst_p c", where 'a = int] by simp
  then have "dst_y c * uint (dst_p c) \<le> 32768 * 65535"
    using screen_fits_steps(2) [OF assms] pos by (intro mult_mono) simp_all
  then have scr: "on_screen c" using assms screen_fits_steps(2) [OF assms]
    by (simp add: screen_fits_def on_screen_def INT_MAX_def)
  have font: "font_apart c m" and steps: "steps_within d c m" using assms by (simp_all add: screen_fits_def)
  from font_apartD [OF font chr(2)] have "chr \<notin> frame c \<and> m chr AND 0x40 = 0" .
  then have "plain_glyph c m chr" using area_frame [OF pos] by (auto simp: plain_glyph_def)
  from ssfn_putc_painted [OF scr chr this] obtain m' dx dy where
    run: "ssfn_putc u c m = Inr (SSFN_OK, c\<lparr>dst_x := dst_x c + dx, dst_y := dst_y c + dy\<rparr>, m')"
    and "painted c m m'" and d: "dx = uint (m' (chr + 4))" "dy = uint (m' (chr + 5))" by blast
  then have same: "\<forall>a. a \<notin> frame c \<longrightarrow> m' a = m a" using area_frame [OF pos] by (auto simp: painted_def)
  have kept: "load_font m' (ssfn_src c) = load_font m (ssfn_src c)" "glyph_of c m' u = glyph_of c m u"
    using font same unfolding font_apart_def by blast+
  have "dy + uint (height (load_font m (ssfn_src c))) \<le> d"
    using steps_withinD(2) [OF steps same, of u chr] unfolding kept chr(2) d(2) by simp
  moreover have "0 \<le> dx" "dx \<le> 255" "0 \<le> dy"
    using byte_less(1) [of "m' (chr + 4)"] by (simp_all add: d)
  ultimately show ?thesis using run same pos by (simp add: screen_step_def)
qed

lemma newline_step:
  assumes "0 \<le> dst_y c" and "dst_y c \<le> 2 ^ 20"
  shows "\<exists>c'. newline (c, m) = Inr (c', m) \<and> screen_step (c, m) (c', m) \<and> dst_x c' = 0 \<and>
    dst_y c' = dst_y c + uint (height (load_font m (ssfn_src c)))"
  using small_ints [of "dst_y c" "uint (height (load_font m (ssfn_src c)))"] assms
    byte_less(1) [of "height (load_font m (ssfn_src c))"]
  by (simp add: newline_def screen_step_def)

lemma putc_step:
  assumes "screen_fits d (Suc n) (c, m)"
  shows "\<exists>s'. putc ch (c, m) = Inr (ch, s') \<and> screen_step (c, m) s' \<and> screen_fits d n s' \<and>
    dst_y (fst s') \<le> dst_y c + d"
proof -
  let ?h = "uint (height (load_font m (ssfn_src c)))"
  have g: "0 < dst_w c" "0 \<le> dst_x c" "dst_x c < dst_w c" "0 \<le> dst_y c" and font: "font_apart c m"
    using assms by (simp_all add: screen_fits_def)
  note lim = screen_fits_steps [OF assms]
  define first where "first = (if ch = 10 then newline (c, m)
    else if ch = 13 then Inr (c\<lparr>dst_x := 0\<rparr>, m)
    else if ch = 9 then Inr (c, m)
    else rbind (ssfn_putc (word_of_int ch) c m) (\<lambda>(r, s). Inr s))"
  have "\<exists>c1 m1. first = Inr (c1, m1) \<and> screen_step (c, m) (c1, m1) \<and> 0 \<le> dst_x c1 \<and>
      dst_y c1 \<le> dst_y c + d \<and> (dst_x c1 < dst_w c \<or> dst_y c1 + ?h \<le> dst_y c + d)"
  proof -
    consider "ch = 10" | "ch = 13" | "ch = 9" | "ch \<notin> {10, 13, 9}" by blast
    then show ?thesis
    proof cases
      case 1
      then show ?thesis using newline_step [of c m] g lim by (auto simp: first_def)
    next
      case 2
      then show ?thesis using g lim by (simp add: first_def screen_step_def)
    next
      case 3
      then show ?thesis using g lim screen_step_refl by (simp add: first_def)
    next
      case 4
      obtain r c1 m1 where run: "ssfn_putc (word_of_int ch) c m = Inr (r, c1, m1)"
        and st: "screen_step (c, m) (c1, m1)" "0 \<le> dst_x c1" and y: "dst_y c1 + ?h \<le> dst_y c + d"
        using ssfn_putc_step [OF assms, of "word_of_int ch"] by blast
      have "dst_y c1 \<le> dst_y c + d" by (rule order_trans [OF _ y]) simp
      moreover have "first = Inr (c1, m1)" using run 4 by (simp add: first_def)
      ultimately show ?thesis using st y by blast
    qed
  qed
  then obtain c1 m1 where f: "first = Inr (c1, m1)" "screen_step (c, m) (c1, m1)" "0 \<le> dst_x c1"
      "dst_y c1 \<le> dst_y c + d" "dst_x c1 < dst_w c \<or> dst_y c1 + ?h \<le> dst_y c + d" by blast
  define second where "second = (if dst_x c1 \<ge> dst_w c1 then newline (c1, m1) else Inr (c1, m1))"
  have geo1: "c1 = c\<lparr>dst_x := dst_x c1, dst_y := dst_y c1\<rparr>" and y1: "dst_y c \<le> dst_y c1"
    using f(2) by (simp_all add: screen_step_def)
  have w1: "dst_w c1 = dst_w c" by (subst geo1) simp
  have h1: "load_font m1 (ssfn_src c1) = load_font m (ssfn_src c)" by (rule font_apart_step(2) [OF font f(2)])
  have "\<exists>c2. second = Inr (c2, m1) \<and> screen_step (c1, m1) (c2, m1) \<and> 0 \<le> dst_x c2 \<and> dst_x c2 < dst_w c \<and>
      dst_y c2 \<le> dst_y c + d"
  proof (cases "dst_x c1 \<ge> dst_w c1")
    case True
    have "0 \<le> d * int n" using lim(1) by simp
    then have "dst_y c1 \<le> 2 ^ 20" using f(4) lim(3) by simp
    then show ?thesis using newline_step [of c1 m1] g f(5) y1 True w1 h1 by (auto simp: second_def)
  next
    case False
    then show ?thesis using f w1 screen_step_refl by (simp add: second_def)
  qed
  then obtain c2 where s: "second = Inr (c2, m1)" "screen_step (c1, m1) (c2, m1)" "0 \<le> dst_x c2"
      "dst_x c2 < dst_w c" "dst_y c2 \<le> dst_y c + d" by blast
  have step: "screen_step (c, m) (c2, m1)" by (rule screen_step_trans [OF f(2) s(2)])
  have geo: "c2 = c\<lparr>dst_x := dst_x c2, dst_y := dst_y c2\<rparr>" and y2: "dst_y c \<le> dst_y c2"
    using step by (simp_all add: screen_step_def)
  have "dst_w c2 = dst_w c" "dst_h c2 = dst_h c" "dst_p c2 = dst_p c" by (subst geo, simp)+
  then have "screen_fits d n (c2, m1)"
    using s(3,4,5) g y2 lim(3) assms font_apart_step(1) [OF font step] steps_within_step [OF _ step]
    by (simp add: screen_fits_def)
  moreover have "putc ch (c, m) = Inr (ch, c2, m1)"
    unfolding putc_def prod.case first_def [symmetric] f(1) rbind_simps second_def [symmetric] s(1)
    by simp
  ultimately show ?thesis using step s(5) by auto
qed

section \<open>Strings\<close>

lemma puts_step:
  assumes "screen_fits d (length xs + n) s" and "cstr str p xs"
  shows "\<exists>s'. puts str p s = Inr (0, s') \<and> screen_step s s' \<and> screen_fits d n s'"
  using assms
proof (induction xs arbitrary: p s)
  case Nil
  then show ?case using screen_step_refl by (subst puts.simps) (simp add: cstr_Nil)
next
  case (Cons x xs)
  from cstr_Cons [OF Cons.prems(2)] have x: "rd str p = Inr x" "x \<noteq> 0" "cstr str (Suc p) xs" by auto
  obtain c m where s: "s = (c, m)" by (cases s)
  have "screen_fits d (Suc (length xs + n)) (c, m)" using Cons.prems(1) by (simp add: s)
  from putc_step [OF this, of "sint x"] obtain s1 where
    s1: "putc (sint x) s = Inr (sint x, s1)" "screen_step s s1" "screen_fits d (length xs + n) s1"
    unfolding s by blast
  from Cons.IH [OF s1(3) x(3)] obtain s2 where
    s2: "puts str (Suc p) s1 = Inr (0, s2)" "screen_step s1 s2" "screen_fits d n s2" by blast
  have "puts str p s = Inr (0, s2)" using x s1(1) s2(1) by (subst puts.simps) simp
  then show ?case using screen_step_trans [OF s1(2) s2(2)] s2(3) by blast
qed

text \<open>Any string: its characters are printed up to one before which the cursor is within \<open>d\<close> of the limit.\<close>

lemma puts_prefix:
  assumes "screen_fits d 0 (c, m)" and "cstr str p xs"
  shows "\<exists>k c' m'. k \<le> length xs \<and> screen_step (c, m) (c', m') \<and> screen_fits d 0 (c', m') \<and>
    dst_y c' \<le> dst_y c + d * int k \<and> puts str p (c, m) = puts str (p + k) (c', m') \<and>
    (k = length xs \<and> puts str p (c, m) = Inr (0, c', m') \<or> k < length xs \<and> 32768 < dst_y c' + d)"
  using assms
proof (induction xs arbitrary: p c m)
  case Nil
  then have "puts str p (c, m) = Inr (0, c, m)" by (subst puts.simps) (simp add: cstr_Nil)
  then show ?case using Nil.prems(1) screen_step_refl by (intro exI [of _ 0] exI [of _ c] exI [of _ m]) simp
next
  case (Cons x xs)
  from cstr_Cons [OF Cons.prems(2)] have x: "rd str p = Inr x" "x \<noteq> 0" "cstr str (Suc p) xs" by auto
  show ?case
  proof (cases "32768 < dst_y c + d")
    case True
    then show ?thesis using Cons.prems(1) screen_step_refl by (intro exI [of _ 0] exI [of _ c] exI [of _ m]) simp
  next
    case False
    then have "screen_fits d (Suc 0) (c, m)" using Cons.prems(1) by (simp add: screen_fits_def)
    from putc_step [OF this, of "sint x"] obtain c1 m1 where
      s1: "putc (sint x) (c, m) = Inr (sint x, c1, m1)" "screen_step (c, m) (c1, m1)" "screen_fits d 0 (c1, m1)"
        "dst_y c1 \<le> dst_y c + d"
      by auto
    have one: "puts str p (c, m) = puts str (Suc p) (c1, m1)" using x s1(1) by (subst puts.simps) simp
    from Cons.IH [OF s1(3) x(3)] obtain k c2 m2 where
      s2: "k \<le> length xs" "screen_step (c1, m1) (c2, m2)" "screen_fits d 0 (c2, m2)"
        "dst_y c2 \<le> dst_y c1 + d * int k" "puts str (Suc p) (c1, m1) = puts str (Suc p + k) (c2, m2)"
        "k = length xs \<and> puts str (Suc p) (c1, m1) = Inr (0, c2, m2) \<or> k < length xs \<and> 32768 < dst_y c2 + d"
      by blast
    have "dst_y c2 \<le> dst_y c + d * int (Suc k)" using s1(4) s2(4) by (simp add: algebra_simps)
    moreover have "puts str p (c, m) = puts str (p + Suc k) (c2, m2)" using one s2(5) by simp
    moreover have "Suc k = length (x # xs) \<and> puts str p (c, m) = Inr (0, c2, m2) \<or>
        Suc k < length (x # xs) \<and> 32768 < dst_y c2 + d" using s2(6) one by simp
    ultimately show ?thesis
      using s2(1,3) screen_step_trans [OF s1(2) s2(2)]
      by (intro exI [of _ "Suc k"] exI [of _ c2] exI [of _ m2] conjI) simp_all
  qed
qed

text \<open>The strings of a variable argument list, one after the other.\<close>

lemma puts_args_step:
  assumes "screen_fits d (length (concat xss) + n) s" and "list_all2 (\<lambda>str xs. cstr str 0 xs) strs xss"
  shows "\<exists>s'. puts_args (length strs) (map (VPtr 0) strs) s = Inr s' \<and> screen_step s s' \<and> screen_fits d n s'"
  using assms(2,1)
proof (induction strs xss arbitrary: s rule: list_all2_induct)
  case Nil
  then show ?case using screen_step_refl by auto
next
  case (Cons str strs xs xss)
  have "screen_fits d (length xs + (length (concat xss) + n)) s" using Cons.prems by (simp add: add.assoc)
  from puts_step [OF this Cons.hyps(1)] obtain s1 where
    s1: "puts str 0 s = Inr (0, s1)" "screen_step s s1" "screen_fits d (length (concat xss) + n) s1" by blast
  from Cons.IH [OF s1(3)] obtain s2 where
    "puts_args (length strs) (map (VPtr 0) strs) s1 = Inr s2" "screen_step s1 s2" "screen_fits d n s2" by blast
  with s1(1) screen_step_trans [OF s1(2)] show ?case by auto
qed

text \<open>The colours play no part in the invariant.\<close>

lemma set_color_step:
  assumes "screen_fits d n (c, m)"
  shows "screen_fits d n (set_color fg bg c, m)"
proof -
  have fr: "frame (set_color fg bg c) = frame c" and src: "ssfn_src (set_color fg bg c) = ssfn_src c"
    by (simp_all add: set_color_def frame_def pixels_def pixel_def)
  have gl: "glyph_of (set_color fg bg c) m' u = glyph_of c m' u" for m' u
    by (simp add: glyph_of_def set_color_def)
  have "font_apart (set_color fg bg c) m = font_apart c m" "steps_within d (set_color fg bg c) m = steps_within d c m"
    by (simp_all only: font_apart_def steps_within_def fr gl src)
  then show ?thesis using assms by (simp add: screen_fits_def) (simp add: set_color_def)
qed

lemma ERR_step:
  assumes "screen_fits d (length (concat xss) + n) (c, m)" and "list_all2 (\<lambda>str xs. cstr str 0 xs) strs xss"
    and "length strs < 2 ^ 64"
  shows "\<exists>s'. ERR strs (c, m) = Inr s' \<and> screen_step (c, m) s' \<and> screen_fits d n s'"
proof -
  have n: "unat (of_nat (length strs) :: u64) = length strs"
    by (rule unat_of_nat_small) (use assms(3) in simp)
  from puts_args_step [OF set_color_step [OF assms(1)] assms(2)] obtain c1 m1 where
    run: "puts_args (length strs) (map (VPtr 0) strs) (set_color WHITE RED c, m) = Inr (c1, m1)"
      "screen_step (set_color WHITE RED c, m) (c1, m1)" "screen_fits d n (c1, m1)" by (metis surj_pair)
  have fr: "frame (set_color WHITE RED c) = frame c"
    by (simp add: set_color_def frame_def pixels_def pixel_def)
  have c1: "c1 = (set_color WHITE RED c)\<lparr>dst_x := dst_x c1, dst_y := dst_y c1\<rparr>"
    using run(2) by (simp add: screen_step_def)
  have "set_color (get_fg c) (get_bg c) c1 = c\<lparr>dst_x := dst_x c1, dst_y := dst_y c1\<rparr>"
    by (subst c1) (simp add: set_color_def get_fg_def get_bg_def)
  then have "screen_step (c, m) (set_color (get_fg c) (get_bg c) c1, m1)"
    using run(2) fr by (simp add: screen_step_def set_color_def)
  with run(1) set_color_step [OF run(3)] show ?thesis
    by (simp add: ERR_def putsx_def Let_def n)
qed

section \<open>Numbers\<close>

lemma itoa_digits_eq: "itoa_digits num base buff i = utoa_loop num buff i base"
proof (induction num base buff i rule: itoa_digits.induct)
  case (1 num base buff i)
  show ?case
    by (subst itoa_digits.simps, subst utoa_loop.simps)
      (auto simp: Let_def rbind_def algebra_simps dest: 1 split: sum.split)
qed

end
