(* ===== verification/FontPicture.thy ===== *)
theory FontPicture
  imports FontSafety
begin

text \<open>
  What a glyph looks like: pictures, the drawing of a glyph as an operation on pictures, and that
  \<open>ssfn_putc\<close> does to the visible part of the frame buffer what that operation does to a picture.
\<close>

section \<open>Pictures\<close>

text \<open>Rows and columns count from the cursor.\<close>

type_synonym picture = "int \<Rightarrow> int \<Rightarrow> u32"

definition pic_fill :: "u32 \<Rightarrow> int \<Rightarrow> int \<Rightarrow> int \<Rightarrow> picture \<Rightarrow> picture" where
  "pic_fill bg n y0 y1 pic = (\<lambda>r l. if y0 \<le> r \<and> r < y1 \<and> 0 \<le> l \<and> l < n then bg else pic r l)"

definition pic_dots ::
    "u32 \<Rightarrow> u32 \<Rightarrow> (int \<Rightarrow> int \<Rightarrow> bool) \<Rightarrow> int \<Rightarrow> int \<Rightarrow> int \<Rightarrow> picture \<Rightarrow> picture" where
  "pic_dots fg bg dot k y0 y1 pic = (\<lambda>r l. if y0 \<le> r \<and> r < y1 \<and> 0 \<le> l \<and> l < k
     then if dot (r - y0) l then fg else if bg \<noteq> 0 then bg else pic r l
     else pic r l)"

lemma pic_dots_cong:
  assumes "y0 \<le> r \<and> r < y1 \<longleftrightarrow> z0 \<le> r \<and> r < z1"
    and "z0 \<le> r \<Longrightarrow> r < z1 \<Longrightarrow> 0 \<le> l \<Longrightarrow> l < k \<Longrightarrow> dot (r - y0) l = dot' (r - z0) l" and "p r l = q r l"
  shows "pic_dots fg bg dot k y0 y1 p r l = pic_dots fg bg dot' k z0 z1 q r l"
proof (cases "z0 \<le> r \<and> r < z1 \<and> 0 \<le> l \<and> l < k")
  case True
  with assms show ?thesis by (simp add: pic_dots_def)
next
  case False
  with assms(1) have "\<not> (y0 \<le> r \<and> r < y1 \<and> 0 \<le> l \<and> l < k)" by blast
  with False assms(3) show ?thesis unfolding pic_dots_def by (simp only: if_False)
qed

text \<open>The dots of a fragment: its rows one after the other, eight dots a byte, the lowest bit first.\<close>

definition frag_cols :: "mem \<Rightarrow> u64 \<Rightarrow> int" where
  "frag_cols m frg = (uint (m frg AND 0x1F) + 1) * 8"

definition frag_rows :: "mem \<Rightarrow> u64 \<Rightarrow> int" where
  "frag_rows m frg = uint (m (frg + 1)) + 1"

definition frag_dot :: "mem \<Rightarrow> u64 \<Rightarrow> int \<Rightarrow> int \<Rightarrow> bool" where
  "frag_dot m frg r l =
     (let t = nat (r * frag_cols m frg + l) in bit (m (frg + 2 + of_nat (t div 8))) (t mod 8))"

text \<open>A fragment is placed at the row its descriptor names or, with a background, below what is drawn.\<close>

definition frag_addr :: "console \<Rightarrow> mem \<Rightarrow> u64 \<Rightarrow> u64" where
  "frag_addr c m ptr = ssfn_src c +
     (push_bit 16 (ucast (m (ptr + 4))) OR push_bit 8 (ucast (m (ptr + 3))) OR ucast (m (ptr + 2)))"

definition pic_frag :: "console \<Rightarrow> mem \<Rightarrow> u64 \<Rightarrow> u64 \<Rightarrow> int \<times> picture \<Rightarrow> int \<times> picture" where
  "pic_frag c m chr ptr = (\<lambda>(y, pic).
     let frg = frag_addr c m ptr; t = uint (m (ptr + 1));
         bg = dst_bg c;
         y0 = (if bg \<noteq> 0 then max y t else t);
         y1 = y0 + frag_rows m frg;
         pic0 = (if bg \<noteq> 0 then pic_fill bg (uint (m (chr + 2))) y t pic else pic)
     in if m ptr = 255 \<and> m (ptr + 1) = 255 \<or> m frg AND 0xE0 \<noteq> 0x80 then (y, pic)
        else (y1, pic_dots (dst_fg c) bg (frag_dot m frg) (frag_cols m frg) y0 y1 pic0))"


section \<open>The visible part of the frame buffer\<close>

definition visible :: "console \<Rightarrow> int \<Rightarrow> int \<Rightarrow> bool" where
  "visible c r l \<longleftrightarrow> 0 \<le> r \<and> dst_y c + r < dst_h c \<and> 0 \<le> l \<and> dst_x c + l < dst_w c"

definition screen_pic :: "console \<Rightarrow> mem \<Rightarrow> picture" where
  "screen_pic c m = (\<lambda>r l. load32 m (pixel c (dst_y c + r) (dst_x c + l)))"

text \<open>Lines at least as long as the screen is wide, in a buffer that does not wrap around the address space.\<close>

definition lines_fit :: "console \<Rightarrow> bool" where
  "lines_fit c \<longleftrightarrow> 4 * dst_w c \<le> uint (dst_p c) \<and> dst_h c * uint (dst_p c) \<le> 2 ^ 64"

definition pixel_index :: "console \<Rightarrow> int \<Rightarrow> int \<Rightarrow> nat" where
  "pixel_index c row col = nat (row * (uint (dst_p c) div 4) + col)"

lemma pixel_indexed:
  assumes "on_screen c" and "0 \<le> row" and "0 \<le> col"
  shows "pixel c row col = dst_ptr c + of_nat (4 * pixel_index c row col)"
proof -
  have "4 * (uint (dst_p c) div 4) = uint (dst_p c)"
    using assms(1) by (metis on_screen_def mult_div_mod_eq add.right_neutral)
  then have e: "row * uint (dst_p c) + 4 * col = 4 * (row * (uint (dst_p c) div 4) + col)"
    by (metis distrib_left mult.left_commute)
  have "0 \<le> row * (uint (dst_p c) div 4) + col"
    using assms(2,3) by (simp add: pos_imp_zdiv_nonneg_iff)
  then have "int (4 * pixel_index c row col) = row * uint (dst_p c) + 4 * col"
    unfolding e by (simp add: pixel_index_def)
  then have "(of_nat (4 * pixel_index c row col) :: u64) = word_of_int (row * uint (dst_p c) + 4 * col)"
    by (metis of_int_of_nat_eq)
  then show ?thesis by (simp add: pixel_def add.assoc)
qed

lemma pixel_index_bounds:
  assumes "on_screen c" and "lines_fit c" and "0 \<le> row" and "row < dst_h c" and "0 \<le> col" and "col < dst_w c"
  shows "4 * (pixel_index c row col + 1) \<le> 2 ^ 64"
    and "int (pixel_index c row col) div (uint (dst_p c) div 4) = row"
    and "int (pixel_index c row col) mod (uint (dst_p c) div 4) = col"
proof -
  let ?s = "uint (dst_p c) div 4"
  have s: "4 * ?s = uint (dst_p c)"
    using assms(1) by (metis on_screen_def mult_div_mod_eq add.right_neutral)
  have col: "col < ?s" using assms(2,6) s unfolding lines_fit_def by linarith
  have "0 \<le> row * ?s + col" using assms(3,5) by (simp add: pos_imp_zdiv_nonneg_iff)
  then have i: "int (pixel_index c row col) = row * ?s + col" by (simp add: pixel_index_def)
  show "int (pixel_index c row col) div ?s = row" "int (pixel_index c row col) mod ?s = col"
    unfolding i using col assms(5) by simp_all
  have "(row + 1) * ?s \<le> dst_h c * ?s"
    using assms(4) by (intro mult_right_mono) (simp_all add: pos_imp_zdiv_nonneg_iff)
  then have "row * ?s + ?s \<le> dst_h c * ?s" by (simp add: distrib_right)
  with i col have "int (pixel_index c row col) + 1 \<le> dst_h c * ?s" by linarith
  then have "4 * (int (pixel_index c row col) + 1) \<le> 4 * (dst_h c * ?s)"
    by (rule mult_left_mono) simp
  also have "\<dots> = dst_h c * uint (dst_p c)" by (metis s mult.left_commute)
  also have "\<dots> \<le> 2 ^ 64" using assms(2) by (simp add: lines_fit_def)
  finally have "int (4 * (pixel_index c row col + 1)) \<le> int (2 ^ 64)" by simp
  then show "4 * (pixel_index c row col + 1) \<le> 2 ^ 64" by (simp only: of_nat_le_iff)
qed

lemma screen_pic_store:
  assumes "on_screen c" and "lines_fit c" and "visible c r l" and "visible c r' l'"
  shows "screen_pic c (store32 m (pixel c (dst_y c + r') (dst_x c + l')) v) r l =
    (if r = r' \<and> l = l' then v else screen_pic c m r l)"
proof (cases "r = r' \<and> l = l'")
  case True
  then show ?thesis by (simp add: screen_pic_def mem_simps)
next
  case False
  let ?i = "pixel_index c (dst_y c + r) (dst_x c + l)" and ?i' = "pixel_index c (dst_y c + r') (dst_x c + l')"
  have pos: "0 \<le> dst_y c" "0 \<le> dst_x c" using assms(1) by (simp_all add: on_screen_def)
  have in1: "0 \<le> dst_y c + r" "dst_y c + r < dst_h c" "0 \<le> dst_x c + l" "dst_x c + l < dst_w c"
    and in2: "0 \<le> dst_y c + r'" "dst_y c + r' < dst_h c" "0 \<le> dst_x c + l'" "dst_x c + l' < dst_w c"
    using assms(3,4) pos by (simp_all add: visible_def)
  note b1 = pixel_index_bounds [OF assms(1,2) in1] and b2 = pixel_index_bounds [OF assms(1,2) in2]
  have "?i \<noteq> ?i'" using b1(2,3) b2(2,3) False by auto
  then have "apart (dst_ptr c + of_nat (4 * ?i)) 4 (dst_ptr c + of_nat (4 * ?i')) 4"
    by (rule apart_array) (use b1(1) b2(1) in simp_all)
  then have "apart (pixel c (dst_y c + r) (dst_x c + l)) 4 (pixel c (dst_y c + r') (dst_x c + l')) 4"
    by (simp only: pixel_indexed [OF assms(1) in1(1,3)] pixel_indexed [OF assms(1) in2(1,3)])
  with False show ?thesis by (auto simp: screen_pic_def load32_store32_apart)
qed

section \<open>Background\<close>

lemma fill_cols_pic:
  assumes "on_screen c" and "lines_fit c" and "chr + 2 \<notin> area c" and "0 \<le> r" and "dst_y c + r < dst_h c"
    and "fill_cols c (dst_w c) chr j p m = Inr m'" and "0 \<le> j"
    and "p = pixel c (dst_y c + r) (dst_x c + j)" and "visible c r' l'"
  shows "screen_pic c m' r' l' =
    (if r' = r \<and> j \<le> l' \<and> l' < uint (m (chr + 2)) then dst_bg c else screen_pic c m r' l')"
  using assms(6-8)
proof (induction "nat (256 - j)" arbitrary: j p m rule: less_induct)
  case less
  show ?case
  proof (cases "j < uint (m (chr + 2))")
    case False
    with less.prems(1) show ?thesis by (subst (asm) fill_cols.simps) auto
  next
    case True
    with byte_less(1) [of "m (chr + 2)"] have j: "j < 256" by simp
    note inside = col_inside_ok [OF assms(1) less.prems(2)]
    show ?thesis
    proof (cases "dst_x c + j < dst_w c")
      case False
      then have "\<not> (j \<le> l')" using assms(9) by (auto simp: visible_def)
      with False True j inside less.prems(1) show ?thesis by (subst (asm) fill_cols.simps) simp
    next
      case vis: True
      let ?m = "store32 m p (dst_bg c)"
      have v: "visible c r j" using assms(4,5) less.prems(2) vis by (simp add: visible_def)
      have "painted c m ?m"
        unfolding less.prems(3)
        by (rule painted_store) (use assms less.prems(2) vis in \<open>auto simp: on_screen_def\<close>)
      then have chr: "?m (chr + 2) = m (chr + 2)" using assms(3) by (simp add: painted_def)
      have run: "fill_cols c (dst_w c) chr (j + 1) (p + 4) ?m = Inr m'"
        using less.prems(1) True vis inside j by (subst (asm) fill_cols.simps) simp
      have "p + 4 = pixel c (dst_y c + r) (dst_x c + (j + 1))"
        using less.prems(3) by (simp add: pixel_right add.assoc)
      from less.hyps [OF _ run _ this] j less.prems(2) have
        "screen_pic c m' r' l' = (if r' = r \<and> j + 1 \<le> l' \<and> l' < uint (m (chr + 2)) then dst_bg c
          else screen_pic c ?m r' l')" by (simp add: chr)
      also have "screen_pic c ?m r' l' = (if r' = r \<and> l' = j then dst_bg c else screen_pic c m r' l')"
        unfolding less.prems(3) by (rule screen_pic_store [OF assms(1,2,9) v])
      finally show ?thesis using True by auto
    qed
  qed
qed


text \<open>A row is left as the pictures have it, or both are below the screen.\<close>

definition same_row :: "console \<Rightarrow> int \<Rightarrow> int \<Rightarrow> bool" where
  "same_row c y z \<longleftrightarrow> y = z \<or> dst_h c \<le> dst_y c + y \<and> dst_h c \<le> dst_y c + z"

lemma fill_rows_pic:
  assumes "on_screen c" and "lines_fit c" and "chr + 2 \<notin> area c" and "lim \<notin> area c"
    and "fill_rows c (dst_w c) (uint (dst_p c) div 4) chr lim y o' m = Inr (y', o1, m')"
    and "0 \<le> y" and "o' = pixel c (dst_y c + y) (dst_x c)"
  shows "same_row c y' (max y (uint (m lim))) \<and>
    (visible c r l \<longrightarrow> screen_pic c m' r l =
       pic_fill (dst_bg c) (uint (m (chr + 2))) y (uint (m lim)) (screen_pic c m) r l)"
  using assms(5-7)
proof (induction "nat (256 - y)" arbitrary: y o' m rule: less_induct)
  case less
  show ?case
  proof (cases "y < uint (m lim)")
    case False
    with less.prems(1) show ?thesis
      by (subst (asm) fill_rows.simps) (auto simp: same_row_def pic_fill_def)
  next
    case True
    with byte_less(1) [of "m lim"] have y: "y < 255" by simp
    note inside = row_inside_ok [OF assms(1) less.prems(2)]
    show ?thesis
    proof (cases "dst_y c + y < dst_h c")
      case False
      then have "y' = y" "m' = m" using less.prems(1) True inside y by (subst (asm) fill_rows.simps, simp)+
      with False True show ?thesis by (auto simp: same_row_def pic_fill_def visible_def)
    next
      case vis: True
      have "dst_y c \<le> dst_y c + y" using less.prems(2) by simp
      from fill_cols_painted [OF assms(1) this vis order_refl, of o' chr m] less.prems(3) obtain m1 where
        m1: "fill_cols c (dst_w c) chr 0 o' m = Inr m1" "painted c m m1" by auto
      let ?o = "o' + word_of_int (4 * (uint (dst_p c) div 4))"
      have keep: "m1 lim = m lim" "m1 (chr + 2) = m (chr + 2)"
        using m1(2) assms(3,4) by (simp_all add: painted_def)
      have run: "fill_rows c (dst_w c) (uint (dst_p c) div 4) chr lim (y + 1) ?o m1 = Inr (y', o1, m')"
        using less.prems(1) True vis inside y m1(1) by (subst (asm) fill_rows.simps) simp
      have "?o = pixel c (dst_y c + (y + 1)) (dst_x c)"
        using pixel_down [of c "dst_y c + y" "dst_x c" 1] assms(1) less.prems(3)
        by (simp add: on_screen_def add.assoc)
      from less.hyps [OF _ run _ this] y less.prems(2) have IH:
        "same_row c y' (max (y + 1) (uint (m lim)))"
        "visible c r l \<Longrightarrow> screen_pic c m' r l =
          pic_fill (dst_bg c) (uint (m (chr + 2))) (y + 1) (uint (m lim)) (screen_pic c m1) r l"
        by (simp_all add: keep)
      have "screen_pic c m1 r l =
          (if r = y \<and> 0 \<le> l \<and> l < uint (m (chr + 2)) then dst_bg c else screen_pic c m r l)" if "visible c r l"
        by (rule fill_cols_pic [OF assms(1-3) less.prems(2) vis m1(1) order_refl _ that])
          (use less.prems(3) in simp)
      with IH True show ?thesis by (auto simp: pic_fill_def max_def)
    qed
  qed
qed

section \<open>Dots\<close>

text \<open>Where the next dot is looked up, when \<open>t\<close> dots have been.\<close>

definition next_dot :: "u64 \<Rightarrow> nat \<Rightarrow> u64 \<Rightarrow> u32 \<Rightarrow> bool" where
  "next_dot base t frg bm \<longleftrightarrow>
     (if bm > 0x80 then (frg + 1, 1) else (frg, bm)) = (base + of_nat (t div 8), push_bit (t mod 8) 1)"

lemma next_dot_start: "next_dot frg 0 frg 1"
  by (simp add: next_dot_def)

lemma next_dot_step: "next_dot base (Suc t) (base + of_nat (t div 8)) (push_bit 1 (push_bit (t mod 8) 1))"
proof -
  have "t mod 8 < 8" by simp
  then consider "t mod 8 = 0" | "t mod 8 = 1" | "t mod 8 = 2" | "t mod 8 = 3" | "t mod 8 = 4" | "t mod 8 = 5"
    | "t mod 8 = 6" | "t mod 8 = 7" by linarith
  then show ?thesis
    by cases (simp_all add: next_dot_def mod_Suc div_Suc)
qed

lemma dot_bit: "(ucast (b :: u8) AND push_bit (t mod 8) 1 \<noteq> (0 :: u32)) \<longleftrightarrow> bit b (t mod 8)"
proof -
  have "t mod 8 < 8" by simp
  then have "t mod 8 < 32" by linarith
  then show ?thesis
    by (subst and_bit_nonzero) (simp_all add: bit_ucast_iff)
qed

lemma draw_cols_pic:
  assumes "on_screen c" and "lines_fit c" and "0 \<le> r" and "dst_y c + r < dst_h c" and "k \<le> 256"
    and data: "\<And>i. int i < int t0 + k \<Longrightarrow> base + of_nat (i div 8) \<notin> area c"
    and "draw_cols c (dst_w c) k l p frg bm m = Inr (frg', bm', m')" and "0 \<le> l" and "l \<le> k"
    and "p = pixel c (dst_y c + r) (dst_x c + l)" and "next_dot base (t0 + nat l) frg bm"
  shows "next_dot base (t0 + nat k) frg' bm' \<and> (visible c r' l' \<longrightarrow> screen_pic c m' r' l' =
    (if r' = r \<and> l \<le> l' \<and> l' < k
     then if bit (m (base + of_nat ((t0 + nat l') div 8))) ((t0 + nat l') mod 8) then dst_fg c
          else if dst_bg c \<noteq> 0 then dst_bg c else screen_pic c m r' l'
     else screen_pic c m r' l'))"
  using assms(7-11)
proof (induction "nat (k - l)" arbitrary: l p frg bm m rule: less_induct)
  case less
  show ?case
  proof (cases "l < k")
    case False
    then have "\<not> (l \<le> l' \<and> l' < k)" "l = k" using less.prems(3) by auto
    with False less.prems show ?thesis by (subst (asm) draw_cols.simps) auto
  next
    case True
    let ?t = "t0 + nat l"
    define f where "f = base + of_nat (?t div 8)"
    define b :: u32 where "b = push_bit (?t mod 8) 1"
    have fb: "(if bm > 0x80 then (frg + 1, 1) else (frg, bm)) = (f, b)"
      using less.prems(5) by (simp add: next_dot_def f_def b_def)
    define m1 where "m1 = (if dst_x c + l \<ge> 0 \<and> (dst_w c = 0 \<or> dst_x c + l < dst_w c)
      then if ucast (m f) AND b \<noteq> 0 then store32 m p (dst_fg c)
           else if dst_bg c \<noteq> 0 then store32 m p (dst_bg c) else m
      else m)"
    have "c_int (dst_x c + l) = Inr (dst_x c + l)"
      using small_ints [of "dst_x c" l] assms(1,5) less.prems(2,3) by (simp add: on_screen_def)
    then have run: "draw_cols c (dst_w c) k (l + 1) (p + 4) f (push_bit 1 b) m1 = Inr (frg', bm', m')"
      using less.prems(1) True by (subst (asm) draw_cols.simps)
        (simp only: fb Let_def prod.case if_True rbind_simps m1_def)
    have t': "t0 + nat (l + 1) = Suc ?t" using less.prems(2) by (simp add: nat_add_distrib)
    have p': "p + 4 = pixel c (dst_y c + r) (dst_x c + (l + 1))"
      using less.prems(4) by (simp add: pixel_right add.assoc)
    have "next_dot base (t0 + nat (l + 1)) f (push_bit 1 b)"
      unfolding t' f_def b_def by (rule next_dot_step)
    from less.hyps [OF _ run _ _ p' this] True less.prems(2) have IH:
      "next_dot base (t0 + nat k) frg' bm'"
      "visible c r' l' \<Longrightarrow> screen_pic c m' r' l' =
        (if r' = r \<and> l + 1 \<le> l' \<and> l' < k
         then if bit (m1 (base + of_nat ((t0 + nat l') div 8))) ((t0 + nat l') mod 8) then dst_fg c
              else if dst_bg c \<noteq> 0 then dst_bg c else screen_pic c m1 r' l'
         else screen_pic c m1 r' l')" by simp_all
    have pos: "0 < dst_w c" "0 \<le> dst_x c + l" using assms(1) less.prems(2) by (simp_all add: on_screen_def)
    have "painted c m m1"
      unfolding m1_def less.prems(4)
      using painted_store [of c "dst_y c + r" "dst_x c + l" m] assms(3,4) less.prems(2) pos by simp
    then have same: "m1 (base + of_nat ((t0 + nat l') div 8)) = m (base + of_nat ((t0 + nat l') div 8))"
      if "0 \<le> l'" "l' < k"
      using data [of "t0 + nat l'"] that by (simp add: painted_def)
    have "screen_pic c m1 r' l' =
        (if r' = r \<and> l' = l
         then if bit (m f) (?t mod 8) then dst_fg c else if dst_bg c \<noteq> 0 then dst_bg c else screen_pic c m r' l'
         else screen_pic c m r' l')" if v: "visible c r' l'"
    proof (cases "dst_x c + l < dst_w c")
      case True
      then have "visible c r l" using assms(3,4) less.prems(2) by (simp add: visible_def)
      from screen_pic_store [OF assms(1,2) v this] True pos show ?thesis
        unfolding m1_def less.prems(4) b_def dot_bit by auto
    next
      case False
      then have "l' \<noteq> l" using v by (auto simp: visible_def)
      with False pos show ?thesis by (simp add: m1_def)
    qed
    with IH same True show ?thesis
      using less.prems(2) by (auto simp: f_def)
  qed
qed


lemma draw_rows_pic:
  assumes "on_screen c" and "lines_fit c" and "0 \<le> k" and "k \<le> 256"
    and "\<forall>i. int i < int t0 + int j * k \<longrightarrow> base + of_nat (i div 8) \<notin> area c"
    and "draw_rows c (dst_w c) (uint (dst_p c) div 4) k j y o' frg bm m = Inr (y', o1, m')" and "0 \<le> y"
    and "y + int j \<le> 2 ^ 20" and "o' = pixel c (dst_y c + y) (dst_x c)" and "next_dot base t0 frg bm"
  shows "same_row c y' (y + int j) \<and> (visible c r l \<longrightarrow> screen_pic c m' r l =
    pic_dots (dst_fg c) (dst_bg c)
      (\<lambda>r l. let t = t0 + nat (r * k + l) in bit (m (base + of_nat (t div 8))) (t mod 8))
      k y (y + int j) (screen_pic c m) r l)"
  using assms(5-10)
proof (induction j arbitrary: t0 y o' frg bm m)
  case 0
  then show ?case by (auto simp: same_row_def pic_dots_def)
next
  case (Suc j)
  note inside = row_inside_ok [OF assms(1) Suc.prems(3)]
  show ?case
  proof (cases "dst_y c + y < dst_h c")
    case False
    then have "y' = y" "m' = m" using Suc.prems(2,4) inside by auto
    with False show ?thesis by (auto simp: same_row_def pic_dots_def visible_def)
  next
    case vis: True
    have o': "o' = pixel c (dst_y c + y) (dst_x c + 0)" using Suc.prems(5) by simp
    have "dst_y c \<le> dst_y c + y" using Suc.prems(3) by simp
    from draw_cols_painted [OF assms(1) this vis order_refl assms(4) o'] obtain frg' bm' m1 where
      m1: "draw_cols c (dst_w c) k 0 o' frg bm m = Inr (frg', bm', m1)" "painted c m m1" by blast
    let ?o = "o' + word_of_int (4 * (uint (dst_p c) div 4))"
    have run: "draw_rows c (dst_w c) (uint (dst_p c) div 4) k j (y + 1) ?o frg' bm' m1 = Inr (y', o1, m')"
      using Suc.prems(2,4) vis inside m1(1) by simp
    have k: "int t0 + k \<le> int t0 + int (Suc j) * k" using assms(3) by (simp add: distrib_right)
    have data: "base + of_nat (i div 8) \<notin> area c" if "int i < int t0 + k" for i
      by (rule Suc.prems(1) [rule_format]) (use that k in linarith)
    have dot0: "next_dot base (t0 + nat 0) frg bm" using Suc.prems(6) by simp
    have row: "next_dot base (t0 + nat k) frg' bm' \<and> (visible c r' l' \<longrightarrow> screen_pic c m1 r' l' =
      (if r' = y \<and> 0 \<le> l' \<and> l' < k
       then if bit (m (base + of_nat ((t0 + nat l') div 8))) ((t0 + nat l') mod 8) then dst_fg c
            else if dst_bg c \<noteq> 0 then dst_bg c else screen_pic c m r' l'
       else screen_pic c m r' l'))" for r' l'
      by (rule draw_cols_pic [OF assms(1,2) Suc.prems(3) vis assms(4) data m1(1) order_refl assms(3) o' dot0])
    have "?o = pixel c (dst_y c + (y + 1)) (dst_x c)"
      using pixel_down [of c "dst_y c + y" "dst_x c" 1] assms(1) Suc.prems(5)
      by (simp add: on_screen_def add.assoc)
    moreover have "\<forall>i. int i < int (t0 + nat k) + int j * k \<longrightarrow> base + of_nat (i div 8) \<notin> area c"
      using Suc.prems(1) assms(3) by (simp add: distrib_right)
    ultimately have IH: "same_row c y' (y + 1 + int j)"
      "visible c r l \<Longrightarrow> screen_pic c m' r l = pic_dots (dst_fg c) (dst_bg c)
        (\<lambda>r l. let t = t0 + nat k + nat (r * k + l) in bit (m1 (base + of_nat (t div 8))) (t mod 8))
        k (y + 1) (y + 1 + int j) (screen_pic c m1) r l"
      using Suc.IH [OF _ run _ _ _ conjunct1 [OF row]] Suc.prems(3,4) by (simp_all add: add.assoc)
    let ?d = "\<lambda>r l. let t = t0 + nat (r * k + l) in bit (m (base + of_nat (t div 8))) (t mod 8)"
    let ?d1 = "\<lambda>r l. let t = t0 + nat k + nat (r * k + l) in bit (m1 (base + of_nat (t div 8))) (t mod 8)"
    have dots: "?d1 (r - (y + 1)) l = ?d (r - y) l"
      if in1: "y + 1 \<le> r" "r < y + 1 + int j" "0 \<le> l" "l < k"
    proof -
      have nn: "0 \<le> (r - (y + 1)) * k + l" using in1 assms(3) by simp
      have "nat k + nat ((r - (y + 1)) * k + l) = nat (k + ((r - (y + 1)) * k + l))"
        using nn assms(3) by (simp add: nat_add_distrib)
      also have "k + ((r - (y + 1)) * k + l) = (r - y) * k + l" by (simp add: algebra_simps)
      finally have t: "t0 + nat k + nat ((r - (y + 1)) * k + l) = t0 + nat ((r - y) * k + l)" by simp
      have "(r - y) * k \<le> int j * k" using in1 assms(3) by (intro mult_right_mono) simp_all
      then have "(r - y) * k + l < int (Suc j) * k" using in1(4) by (simp add: distrib_right)
      moreover have "0 \<le> (r - y) * k + l" using in1 assms(3) by simp
      ultimately have "base + of_nat ((t0 + nat ((r - y) * k + l)) div 8) \<notin> area c"
        by (intro Suc.prems(1) [rule_format]) simp
      then show ?thesis using m1(2) by (simp add: t painted_def)
    qed
    have "screen_pic c m' r l =
        pic_dots (dst_fg c) (dst_bg c) ?d k y (y + int (Suc j)) (screen_pic c m) r l" if v: "visible c r l"
    proof (cases "r = y")
      case True
      with IH(2) [OF v] conjunct2 [OF row [of r l], rule_format, OF v] show ?thesis
        by (simp only: pic_dots_def Let_def) simp
    next
      case False
      then have m1: "screen_pic c m1 r l = screen_pic c m r l"
        using conjunct2 [OF row [of r l], rule_format, OF v] by simp
      have range: "y \<le> r \<and> r < y + int (Suc j) \<longleftrightarrow> y + 1 \<le> r \<and> r < y + 1 + int j" using False by auto
      show ?thesis
        unfolding IH(2) [OF v] by (rule pic_dots_cong) (use range dots m1 in \<open>simp_all only: simp_thms\<close>)
    qed
    moreover have "y + 1 + int j = y + int (Suc j)" by simp
    ultimately show ?thesis using IH(1) by metis
  qed
qed


section \<open>Fragments\<close>

lemma same_row_visible: "same_row c y z \<Longrightarrow> visible c r l \<Longrightarrow> y \<le> r \<longleftrightarrow> z \<le> r"
  by (auto simp: same_row_def visible_def)

lemma same_row_reached: "same_row c y z \<Longrightarrow> visible c r l \<Longrightarrow> z \<le> r \<Longrightarrow> y = z"
  by (auto simp: same_row_def visible_def)

lemma same_row_max: "same_row c y z \<Longrightarrow> same_row c (max y t) (max z t)"
  by (auto simp: same_row_def)

lemma same_row_add: "same_row c y z \<Longrightarrow> 0 \<le> j \<Longrightarrow> same_row c (y + j) (z + j)"
  by (auto simp: same_row_def)

lemma same_row_trans: "same_row c x y \<Longrightarrow> same_row c y z \<Longrightarrow> same_row c x z"
  by (auto simp: same_row_def)

text \<open>The state of the drawing as its picture, relative to the memory \<open>m0\<close> at the start.\<close>

definition draws :: "console \<Rightarrow> mem \<Rightarrow> int \<times> u64 \<times> mem \<Rightarrow> int \<times> picture \<Rightarrow> bool" where
  "draws c m0 = (\<lambda>(y, o', m) (z, pic). same_row c y z \<and> painted c m0 m \<and>
     (\<forall>r l. visible c r l \<longrightarrow> screen_pic c m r l = pic r l))"

text \<open>The bytes of a fragment are off the screen, and those of the glyph's descriptor.\<close>

definition frag_apart :: "console \<Rightarrow> mem \<Rightarrow> u64 \<Rightarrow> bool" where
  "frag_apart c m frg \<longleftrightarrow> frg \<notin> area c \<and> frg + 1 \<notin> area c \<and>
     (\<forall>i<nat (frag_rows m frg * frag_cols m frg). frg + 2 + of_nat (i div 8) \<notin> area c)"

definition glyph_frags :: "mem \<Rightarrow> u64 \<Rightarrow> u64 list" where
  "glyph_frags m chr = map (\<lambda>i. chr + 6 + of_nat (5 * i)) [0..<unat (m (chr + 1))]"

definition glyph_apart :: "console \<Rightarrow> mem \<Rightarrow> u64 \<Rightarrow> bool" where
  "glyph_apart c m chr \<longleftrightarrow> (\<forall>i<6. chr + of_nat i \<notin> area c) \<and>
     (\<forall>ptr\<in>set (glyph_frags m chr). (\<forall>i<5. ptr + of_nat i \<notin> area c) \<and> frag_apart c m (frag_addr c m ptr))"

text \<open>The step down to the row of a fragment.\<close>

lemma frag_start_pic:
  assumes "on_screen c" and "lines_fit c" and "chr + 2 \<notin> area c" and "ptr + 1 \<notin> area c"
    and at: "at_row c n m0 (y, o', m)" and n: "255 \<le> n" and d: "draws c m0 (y, o', m) (z, pic)"
    and t: "t = uint (m0 (ptr + 1))"
    and st: "(if dst_bg c \<noteq> 0 then fill_rows c (dst_w c) (uint (dst_p c) div 4) chr (ptr + 1) y o' m
      else Inr (t, o' + word_of_int (4 * ((t - y) * (uint (dst_p c) div 4))), m)) = Inr (y1, o1, m1)"
  shows "at_row c n m0 (y1, o1, m1)"
    and "draws c m0 (y1, o1, m1) (if dst_bg c \<noteq> 0 then max z t else t,
      if dst_bg c \<noteq> 0 then pic_fill (dst_bg c) (uint (m0 (chr + 2))) z t pic else pic)"
proof -
  have pm: "painted c m0 m" and row: "same_row c y z" and y0: "0 \<le> y" "o' = pixel c (dst_y c + y) (dst_x c)"
    and shown: "\<And>r l. visible c r l \<Longrightarrow> screen_pic c m r l = pic r l"
    using d at by (auto simp: draws_def at_row_def)
  have same: "m (chr + 2) = m0 (chr + 2)" "m (ptr + 1) = m0 (ptr + 1)"
    using pm assms(3,4) by (simp_all add: painted_def)
  show at1: "at_row c n m0 (y1, o1, m1)"
  proof (cases "dst_bg c = 0")
    case True
    have "o' + word_of_int (4 * ((t - y) * (uint (dst_p c) div 4))) = pixel c (dst_y c + t) (dst_x c)"
      using pixel_down [of c "dst_y c + y" "dst_x c" "t - y"] assms(1) y0(2) by (simp add: on_screen_def)
    then show ?thesis
      using st True at n byte_less(1) [of "m0 (ptr + 1)"] by (auto simp: at_row_def t)
  next
    case False
    then show ?thesis using fill_rows_painted [OF assms(1) at n, of chr "ptr + 1"] st by auto
  qed
  show "draws c m0 (y1, o1, m1) (if dst_bg c \<noteq> 0 then max z t else t,
      if dst_bg c \<noteq> 0 then pic_fill (dst_bg c) (uint (m0 (chr + 2))) z t pic else pic)"
  proof (cases "dst_bg c = 0")
    case True
    then show ?thesis using st pm shown by (auto simp: draws_def same_row_def)
  next
    case False
    then have f: "fill_rows c (dst_w c) (uint (dst_p c) div 4) chr (ptr + 1) y o' m = Inr (y1, o1, m1)"
      using st by simp
    note fp = fill_rows_pic [OF assms(1-4) f y0, unfolded same]
    have "same_row c y1 (max z t)"
      unfolding t by (rule same_row_trans [OF conjunct1 [OF fp] same_row_max [OF row]])
    moreover have "screen_pic c m1 r l = pic_fill (dst_bg c) (uint (m0 (chr + 2))) z t pic r l"
      if v: "visible c r l" for r l
      using conjunct2 [OF fp, rule_format, OF v] shown [OF v] same_row_visible [OF row v]
      by (simp add: pic_fill_def t)
    moreover have "painted c m0 m1" using at1 by (simp add: at_row_def)
    ultimately show ?thesis using False by (simp add: draws_def)
  qed
qed

lemma draw_frag_pic:
  assumes "on_screen c" and "lines_fit c" and "chr + 2 \<notin> area c" and "ptr + 1 \<notin> area c"
    and "frag_apart c m0 (frag_addr c m0 ptr)"
    and at: "at_row c n m0 (y, o', m)" and n: "255 \<le> n" "n + 256 \<le> 2 ^ 20"
    and "draw_frag c (dst_w c) (uint (dst_p c) div 4) chr ptr (frag_addr c m0 ptr) y o' m = Inr st"
    and "draws c m0 (y, o', m) pc"
    and "\<not> (m0 ptr = 255 \<and> m0 (ptr + 1) = 255)" and "m0 (frag_addr c m0 ptr) AND 0xE0 = 0x80"
  shows "draws c m0 st (pic_frag c m0 chr ptr pc)"
proof -
  let ?s = "uint (dst_p c) div 4" and ?frg = "frag_addr c m0 ptr"
  let ?t = "uint (m0 (ptr + 1))" and ?bg = "dst_bg c" and ?n = "uint (m0 (chr + 2))"
  obtain z pic where pc: "pc = (z, pic)" by fastforce
  define z0 where "z0 = (if ?bg \<noteq> 0 then max z ?t else ?t)"
  define pic0 where "pic0 = (if ?bg \<noteq> 0 then pic_fill ?bg ?n z ?t pic else pic)"
  have pm: "painted c m0 m" using at by (simp add: at_row_def)
  have same: "m (chr + 2) = m0 (chr + 2)" "m (ptr + 1) = m0 (ptr + 1)"
    using pm assms(3,4) by (simp_all add: painted_def)
  define start where "start = (if ?bg \<noteq> 0 then fill_rows c (dst_w c) ?s chr (ptr + 1) y o' m
    else Inr (?t, o' + word_of_int (4 * ((?t - y) * ?s)), m))"
  have "rbind start (\<lambda>(y, o', m). draw_rows c (dst_w c) ?s ((uint (m ?frg AND 0x1F) + 1) * 8)
      (unat (m (?frg + 1)) + 1) y o' (?frg + 2) 1 m) = Inr st"
    using assms(9) unfolding draw_frag_def start_def same Let_def .
  then obtain y1 o1 m1 where st1: "start = Inr (y1, o1, m1)"
      and rest: "draw_rows c (dst_w c) ?s ((uint (m1 ?frg AND 0x1F) + 1) * 8) (unat (m1 (?frg + 1)) + 1)
        y1 o1 (?frg + 2) 1 m1 = Inr st"
    unfolding rbind_eq_Inr by auto
  note frag_start = frag_start_pic [OF assms(1-4) at n(1) assms(10) [unfolded pc] refl st1 [unfolded start_def]]
  note at1 = frag_start(1) and d1 = frag_start(2) [folded z0_def pic0_def]
  have p1: "painted c m0 m1" and y1: "0 \<le> y1" "o1 = pixel c (dst_y c + y1) (dst_x c)" "y1 \<le> n"
    using at1 by (simp_all add: at_row_def)
  have frg: "m1 ?frg = m0 ?frg" "m1 (?frg + 1) = m0 (?frg + 1)"
    using p1 assms(5) by (simp_all add: painted_def frag_apart_def)
  let ?k = "frag_cols m0 ?frg" and ?j = "unat (m0 (?frg + 1)) + 1"
  have j: "int ?j = frag_rows m0 ?frg" by (simp add: frag_rows_def)
  have "m0 ?frg AND 0x1F \<le> 0x1F" by (rule word_and_le1)
  then have k: "0 \<le> ?k" "?k \<le> 256" by (simp_all add: frag_cols_def word_le_def)
  have data: "\<forall>i. int i < int 0 + int ?j * ?k \<longrightarrow> ?frg + 2 + of_nat (i div 8) \<notin> area c"
    using assms(5) unfolding frag_apart_def j by (auto simp: zless_nat_eq_int_zless)
  obtain y2 o2 m2 where st: "st = (y2, o2, m2)" by (cases st) auto
  have run: "draw_rows c (dst_w c) ?s ?k ?j y1 o1 (?frg + 2) 1 m1 = Inr (y2, o2, m2)"
    using rest by (simp add: frg frag_cols_def st)
  have fits: "y1 + int ?j \<le> 2 ^ 20" using y1(3) n(2) byte_less [of "m0 (?frg + 1)"] by simp
  note rows = draw_rows_pic [OF assms(1,2) k data run y1(1) fits y1(2) next_dot_start]
  have row1: "same_row c y1 z0" and shown1: "\<And>r l. visible c r l \<Longrightarrow> screen_pic c m1 r l = pic0 r l"
    using d1 by (simp_all add: draws_def)
  have "same_row c y2 (z0 + frag_rows m0 ?frg)"
    using same_row_trans [OF conjunct1 [OF rows] same_row_add [OF row1 of_nat_0_le_iff]] unfolding j .
  moreover have "at_row c (n + 256) m0 (y2, o2, m2)"
    using draw_rows_painted [OF assms(1) k(2) at_row_mono [OF at1], of "n + 256" ?j "?frg + 2" 1] run fits n y1(3)
      byte_less [of "m0 (?frg + 1)"] by auto
  then have "painted c m0 m2" by (simp add: at_row_def)
  moreover have "screen_pic c m2 r l = pic_dots (dst_fg c) ?bg (frag_dot m0 ?frg) ?k z0
      (z0 + frag_rows m0 ?frg) pic0 r l" if v: "visible c r l" for r l
  proof -
    note at_r = same_row_visible [OF row1 v] same_row_visible [OF same_row_add [OF row1 of_nat_0_le_iff, of ?j] v]
    show ?thesis
      unfolding conjunct2 [OF rows, rule_format, OF v]
    proof (rule pic_dots_cong)
      show "y1 \<le> r \<and> r < y1 + int ?j \<longleftrightarrow> z0 \<le> r \<and> r < z0 + frag_rows m0 ?frg"
        using at_r unfolding j by auto
      show "screen_pic c m1 r l = pic0 r l" by (rule shown1 [OF v])
      assume in1: "z0 \<le> r" "r < z0 + frag_rows m0 ?frg" "0 \<le> l" "l < ?k"
      have eq: "y1 = z0" by (rule same_row_reached [OF row1 v in1(1)])
      have nn: "0 \<le> (r - z0) * ?k + l" using in1 k(1) by simp
      have "(r - z0 + 1) * ?k \<le> frag_rows m0 ?frg * ?k" using in1(2) k(1) by (intro mult_right_mono) simp_all
      then have "(r - z0) * ?k + l < frag_rows m0 ?frg * ?k" using in1(4) by (simp add: distrib_right)
      with nn have "?frg + 2 + of_nat (nat ((r - z0) * ?k + l) div 8) \<notin> area c"
        unfolding j [symmetric] by (intro data [rule_format]) simp
      then show "(let t = 0 + nat ((r - y1) * ?k + l) in bit (m1 (?frg + 2 + of_nat (t div 8))) (t mod 8)) =
          frag_dot m0 ?frg (r - z0) l"
        using p1 by (simp add: frag_dot_def eq painted_def)
    qed
  qed
  moreover have "\<not> (m0 ptr = 255 \<and> m0 (ptr + 1) = 255 \<or> m0 ?frg AND 0xE0 \<noteq> 0x80)"
    using assms(11,12) by blast
  then have "pic_frag c m0 chr ptr (z, pic) = (z0 + frag_rows m0 ?frg,
      pic_dots (dst_fg c) ?bg (frag_dot m0 ?frg) ?k z0 (z0 + frag_rows m0 ?frg) pic0)"
    unfolding pic_frag_def prod.case Let_def z0_def pic0_def by (simp only: if_False)
  ultimately show ?thesis unfolding st pc draws_def by simp
qed


section \<open>A glyph\<close>

definition glyph_pic :: "console \<Rightarrow> mem \<Rightarrow> u64 \<Rightarrow> picture \<Rightarrow> picture" where
  "glyph_pic c m chr pic =
     (let (y, pic) = fold (pic_frag c m chr) (glyph_frags m chr) (0, pic)
      in if dst_bg c \<noteq> 0 then pic_fill (dst_bg c) (uint (m (chr + 2))) y (uint (m (chr + 3))) pic else pic)"

lemma glyph_apartD:
  assumes "glyph_apart c m chr"
  shows "chr \<notin> area c" and "chr + 1 \<notin> area c" and "chr + 2 \<notin> area c" and "chr + 3 \<notin> area c"
    and "chr + 4 \<notin> area c" and "chr + 5 \<notin> area c"
    and "ptr \<in> set (glyph_frags m chr) \<Longrightarrow> frag_apart c m (frag_addr c m ptr)"
    and "ptr \<in> set (glyph_frags m chr) \<Longrightarrow> ptr \<notin> area c" and "ptr \<in> set (glyph_frags m chr) \<Longrightarrow> ptr + 1 \<notin> area c"
    and "ptr \<in> set (glyph_frags m chr) \<Longrightarrow> ptr + 2 \<notin> area c" and "ptr \<in> set (glyph_frags m chr) \<Longrightarrow> ptr + 3 \<notin> area c"
    and "ptr \<in> set (glyph_frags m chr) \<Longrightarrow> ptr + 4 \<notin> area c"
proof -
  have h: "chr + of_nat i \<notin> area c" if "i < 6" for i using assms that by (simp add: glyph_apart_def)
  show "chr \<notin> area c" "chr + 1 \<notin> area c" "chr + 2 \<notin> area c" "chr + 3 \<notin> area c" "chr + 4 \<notin> area c" "chr + 5 \<notin> area c"
    using h [of 0] h [of 1] h [of 2] h [of 3] h [of 4] h [of 5] by simp_all
  show "ptr \<in> set (glyph_frags m chr) \<Longrightarrow> frag_apart c m (frag_addr c m ptr)"
    using assms by (simp add: glyph_apart_def)
  have d: "ptr + of_nat i \<notin> area c" if "ptr \<in> set (glyph_frags m chr)" "i < 5" for i
    using assms that by (simp add: glyph_apart_def)
  show "ptr \<in> set (glyph_frags m chr) \<Longrightarrow> ptr \<notin> area c" "ptr \<in> set (glyph_frags m chr) \<Longrightarrow> ptr + 1 \<notin> area c"
    "ptr \<in> set (glyph_frags m chr) \<Longrightarrow> ptr + 2 \<notin> area c" "ptr \<in> set (glyph_frags m chr) \<Longrightarrow> ptr + 3 \<notin> area c"
    "ptr \<in> set (glyph_frags m chr) \<Longrightarrow> ptr + 4 \<notin> area c"
    using d [of 0] d [of 1] d [of 2] d [of 3] d [of 4] by simp_all
qed

lemma draw_frags_pic:
  assumes "on_screen c" and "lines_fit c" and apart: "glyph_apart c m0 chr" and plain: "m0 chr AND 0x40 = 0"
    and "at_row c (255 + 256 * int i) m0 (y, o', m)" and "draws c m0 (y, o', m) pc"
    and "draw_frags c (dst_w c) (uint (dst_p c) div 4) chr i ptr y o' m = Inr st"
    and "ptr = chr + 6 + of_nat (5 * i)" and "i \<le> unat (m0 (chr + 1))"
  shows "draws c m0 st (fold (pic_frag c m0 chr) (drop i (glyph_frags m0 chr)) pc)"
  using assms(5-9)
proof (induction "256 - i" arbitrary: i ptr y o' m pc rule: less_induct)
  case less
  let ?fs = "glyph_frags m0 chr" and ?s = "uint (dst_p c) div 4"
  note off = glyph_apartD [OF apart]
  have pm: "painted c m0 m" using less.prems(1) by (simp add: at_row_def)
  then have keep: "m a = m0 a" if "a \<notin> area c" for a using that by (simp add: painted_def)
  have len: "length ?fs = unat (m0 (chr + 1))" by (simp add: glyph_frags_def)
  show ?case
  proof (cases "i < unat (m0 (chr + 1))")
    case False
    then have "st = (y, o', m)"
      using less.prems(3) keep [OF off(2)] by (subst (asm) draw_frags.simps) simp
    with False less.prems(2) len show ?thesis by simp
  next
    case True
    with byte_less(2) [of "m0 (chr + 1)"] have i: "i < 255" by simp
    have nth: "?fs ! i = ptr" using True less.prems(4) by (simp add: glyph_frags_def)
    with True len have ptr: "ptr \<in> set ?fs" by (metis nth_mem)
    have drop: "drop i ?fs = ptr # drop (Suc i) ?fs" using True len nth by (metis Cons_nth_drop_Suc)
    let ?frg = "frag_addr c m0 ptr"
    have bytes: "m ptr = m0 ptr" "m (ptr + 1) = m0 (ptr + 1)" "m (ptr + 2) = m0 (ptr + 2)"
      "m (ptr + 3) = m0 (ptr + 3)" "m (ptr + 4) = m0 (ptr + 4)" "m chr = m0 chr" "m (chr + 1) = m0 (chr + 1)"
      using keep off ptr by simp_all
    have frg: "m ?frg = m0 ?frg" using keep off(7) [OF ptr] by (simp add: frag_apart_def)
    obtain offs where offs: "frag_offset m chr ptr = Inr offs" "ssfn_src c + offs = ?frg"
      using plain by (simp add: frag_offset_def frag_addr_def bytes Let_def)
    have step: "frag_step m chr = 5" using plain by (simp add: frag_step_def bytes)
    have nxt: "ptr + 5 = chr + 6 + of_nat (5 * Suc i)" using less.prems(4) by simp
    have le: "Suc i \<le> unat (m0 (chr + 1))" using True by simp
    have wider: "at_row c (255 + 256 * int (Suc i)) m0 (y, o', m)"
      by (rule at_row_mono [OF less.prems(1)]) (use i in simp_all)
    note unfold = draw_frags.simps [of c "dst_w c" ?s chr i ptr y o' m]
    show ?thesis
    proof (cases "m0 ptr = 255 \<and> m0 (ptr + 1) = 255 \<or> m0 ?frg AND 0xE0 \<noteq> 0x80")
      case skip: True
      have run: "draw_frags c (dst_w c) ?s chr (Suc i) (ptr + 5) y o' m = Inr st"
        using less.prems(3) True skip offs unfolding unfold
        by (auto simp: bytes frg step Let_def split: if_splits)
      have "pic_frag c m0 chr ptr pc = pc" using skip by (auto simp: pic_frag_def Let_def split: prod.split)
      with less.hyps [OF _ wider less.prems(2) run nxt le] i show ?thesis by (simp add: drop)
    next
      case False
      then have draw: "\<not> (m0 ptr = 255 \<and> m0 (ptr + 1) = 255)" "m0 ?frg AND 0xE0 = 0x80" by blast+
      obtain y1 o1 m1 where fr: "draw_frag c (dst_w c) ?s chr ptr ?frg y o' m = Inr (y1, o1, m1)"
          "at_row c (255 + 256 * int (Suc i)) m0 (y1, o1, m1)"
        using draw_frag_painted [OF assms(1) less.prems(1), of chr ptr ?frg] i by (auto simp: algebra_simps)
      have run: "draw_frags c (dst_w c) ?s chr (Suc i) (ptr + 5) y1 o1 m1 = Inr st"
      proof -
        have "m1 chr = m0 chr" using fr(2) off(1) by (simp add: at_row_def painted_def)
        then have "frag_step m1 chr = 5" using plain by (simp add: frag_step_def)
        then show ?thesis
          using less.prems(3) True draw offs fr(1) unfolding unfold by (auto simp: bytes frg step Let_def)
      qed
      have "draws c m0 (y1, o1, m1) (pic_frag c m0 chr ptr pc)"
        by (rule draw_frag_pic [OF assms(1,2) off(3) off(9) [OF ptr] off(7) [OF ptr] less.prems(1) _ _ fr(1)
              less.prems(2) draw]) (use i in simp_all)
      from less.hyps [OF _ fr(2) this run nxt le] i show ?thesis by (simp add: drop)
    qed
  qed
qed

lemma ssfn_putc_pic:
  assumes "on_screen c" and "lines_fit c" and "usable c m" and "glyph_of c m unicode = Some chr"
    and "glyph_apart c m chr" and "m chr AND 0x40 = 0"
  shows "\<exists>m'. ssfn_putc unicode c m = Inr (SSFN_OK, c\<lparr>dst_x := dst_x c + uint (m (chr + 4)),
      dst_y := dst_y c + uint (m (chr + 5))\<rparr>, m') \<and> painted c m m' \<and>
    (\<forall>r l. visible c r l \<longrightarrow> screen_pic c m' r l = glyph_pic c m chr (screen_pic c m) r l)"
proof -
  let ?s = "uint (dst_p c) div 4"
  let ?o = "dst_ptr c + word_of_int (dst_y c * uint (dst_p c)) + word_of_int (dst_x c) * 4"
  note off = glyph_apartD [OF assms(5)]
  have plain: "plain_glyph c m chr" using off(1) assms(6) by (simp add: plain_glyph_def)
  obtain m' where run: "ssfn_putc unicode c m = Inr (SSFN_OK, c\<lparr>dst_x := dst_x c + uint (m' (chr + 4)),
      dst_y := dst_y c + uint (m' (chr + 5))\<rparr>, m')" and p': "painted c m m'"
    using ssfn_putc_painted [OF assms(1,3,4) plain] by blast
  have at0: "at_row c (255 + 256 * int 0) m (0, ?o, m)" by (simp add: at_row_def pixel_def)
  obtain y1 o1 m1 where fr: "draw_frags c (dst_w c) ?s chr 0 (chr + 6) 0 ?o m = Inr (y1, o1, m1)"
      "at_row c (255 + 256 * 256) m (y1, o1, m1)"
    using draw_frags_painted [OF assms(1) at0 _ plain, of "chr + 6"] by auto
  obtain z1 pic1 where pic: "fold (pic_frag c m chr) (glyph_frags m chr) (0, screen_pic c m) = (z1, pic1)"
    by fastforce
  have d0: "draws c m (0, ?o, m) (0, screen_pic c m)" by (simp add: draws_def same_row_def)
  have d1: "draws c m (y1, o1, m1) (z1, pic1)"
    using draw_frags_pic [OF assms(1,2,5,6) at0 d0 fr(1)] pic by simp
  have m1: "m1 (chr + 2) = m (chr + 2)" "m1 (chr + 3) = m (chr + 3)"
    using fr(2) off by (simp_all add: at_row_def painted_def)
  have last: "(if dst_bg c \<noteq> 0 then rbind (fill_rows c (dst_w c) ?s chr (chr + 3) y1 o1 m1) (\<lambda>(y, o', m). Inr m)
      else Inr m1) = Inr m'"
  proof -
    have "\<not> dst_w c < 0" using assms(1) by (simp add: on_screen_def)
    then show ?thesis
      using run assms(3,4) fr(1) line_start_ok [OF assms(1)]
      by (auto simp: ssfn_putc_def usable_def glyph_of_def Let_def rbind_eq_Inr split: if_splits)
  qed
  have "screen_pic c m' r l = glyph_pic c m chr (screen_pic c m) r l" if v: "visible c r l" for r l
  proof (cases "dst_bg c = 0")
    case True
    with last d1 v show ?thesis by (simp add: glyph_pic_def pic draws_def)
  next
    case False
    then obtain y2 o2 where f: "fill_rows c (dst_w c) ?s chr (chr + 3) y1 o1 m1 = Inr (y2, o2, m')"
      using last by (auto simp: rbind_eq_Inr)
    have "0 \<le> y1" "o1 = pixel c (dst_y c + y1) (dst_x c)" using fr(2) by (simp_all add: at_row_def)
    from fill_rows_pic [OF assms(1,2) off(3,4) f this] v
    have "screen_pic c m' r l = pic_fill (dst_bg c) (uint (m (chr + 2))) y1 (uint (m (chr + 3))) (screen_pic c m1) r l"
      by (simp add: m1)
    moreover have "y1 \<le> r \<longleftrightarrow> z1 \<le> r" using d1 same_row_visible [OF _ v] by (simp add: draws_def)
    ultimately show ?thesis using d1 v False by (simp add: glyph_pic_def pic draws_def pic_fill_def)
  qed
  moreover have "m' (chr + 4) = m (chr + 4)" "m' (chr + 5) = m (chr + 5)"
    using p' off by (simp_all add: painted_def)
  ultimately show ?thesis using run p' by auto
qed

end
