(* ===== verification/Utf8.thy ===== *)
theory Utf8
  imports Font
begin

text \<open>
  The decoder \<open>ssfn_utf8\<close> against the encoding of a code point in one to four bytes.
\<close>

section \<open>Encoding\<close>

definition utf8_bytes :: "u32 \<Rightarrow> u8 list" where
  "utf8_bytes u =
     (if u < 0x80 then [ucast u]
      else if u < 0x800 then [0xC0 OR ucast (drop_bit 6 u), 0x80 OR ucast (u AND 0x3F)]
      else if u < 0x10000
      then [0xE0 OR ucast (drop_bit 12 u), 0x80 OR ucast (drop_bit 6 u AND 0x3F), 0x80 OR ucast (u AND 0x3F)]
      else [0xF0 OR ucast (drop_bit 18 u), 0x80 OR ucast (drop_bit 12 u AND 0x3F),
            0x80 OR ucast (drop_bit 6 u AND 0x3F), 0x80 OR ucast (u AND 0x3F)])"

lemma utf8_mask_simps:
  "(0x3F :: 'a::len word) = mask 6" "(0x1F :: 'a word) = mask 5" "(0xF :: 'a word) = mask 4"
  "(0x7 :: 'a word) = mask 3"
  by (simp_all add: mask_eq_exp_minus_1)

lemma utf8_test:
  "(b AND 128 = (0 :: u8)) \<longleftrightarrow> \<not> bit b 7" "(b AND 32 = (0 :: u8)) \<longleftrightarrow> \<not> bit b 5"
  "(b AND 16 = (0 :: u8)) \<longleftrightarrow> \<not> bit b 4" "(b AND 8 = (0 :: u8)) \<longleftrightarrow> \<not> bit b 3"
  using and_bit_nonzero [of 7 b] and_bit_nonzero [of 5 b] and_bit_nonzero [of 4 b]
    and_bit_nonzero [of 3 b] by (simp_all add: push_bit_eq_mult) blast+

lemma utf8_lead:
  "bit (0xC0 :: 'a::len word) n \<longleftrightarrow> n < LENGTH('a) \<and> (n = 6 \<or> n = 7)"
  "bit (0xE0 :: 'a word) n \<longleftrightarrow> n < LENGTH('a) \<and> (n = 5 \<or> n = 6 \<or> n = 7)"
  "bit (0xF0 :: 'a word) n \<longleftrightarrow> n < LENGTH('a) \<and> (n = 4 \<or> n = 5 \<or> n = 6 \<or> n = 7)"
  "bit (0x80 :: 'a word) n \<longleftrightarrow> n < LENGTH('a) \<and> n = 7"
proof -
  have "(0x80 :: 'a word) = push_bit 7 1" "(0xC0 :: 'a word) = push_bit 6 (mask 2)"
    "(0xE0 :: 'a word) = push_bit 5 (mask 3)" "(0xF0 :: 'a word) = push_bit 4 (mask 4)"
    by (simp_all add: push_bit_eq_mult mask_eq_exp_minus_1)
  note eqs = this
  show "bit (0xC0 :: 'a word) n \<longleftrightarrow> n < LENGTH('a) \<and> (n = 6 \<or> n = 7)"
    "bit (0xE0 :: 'a word) n \<longleftrightarrow> n < LENGTH('a) \<and> (n = 5 \<or> n = 6 \<or> n = 7)"
    "bit (0xF0 :: 'a word) n \<longleftrightarrow> n < LENGTH('a) \<and> (n = 4 \<or> n = 5 \<or> n = 6 \<or> n = 7)"
    "bit (0x80 :: 'a word) n \<longleftrightarrow> n < LENGTH('a) \<and> n = 7"
    unfolding eqs bit_push_bit_iff bit_mask_iff bit_1_iff by auto
qed

lemmas utf8_bits = bit_or_iff bit_and_iff bit_push_bit_iff bit_ucast_iff bit_drop_bit_eq bit_mask_iff
  utf8_lead

lemma bits_below: "unat u < 2 ^ k \<Longrightarrow> bit u n \<Longrightarrow> n < k"
  using bit_small [of u k n] not_less by blast

section \<open>Decoding, by the number of bytes\<close>

lemma utf8_one:
  assumes "u < 0x80"
  shows "ssfn_utf8 (pre @ utf8_bytes u @ post) (length pre) = Inr (u, length pre + length (utf8_bytes u))"
proof -
  have "unat u < 2 ^ 7" using assms by (simp add: word_less_nat_alt)
  note t = bits_below [OF this]
  have "(ucast (ucast u :: u8) :: u32) = u"
    by (rule bit_word_eqI) (auto simp: utf8_bits dest: t)
  moreover have "\<not> bit (ucast u :: u8) 7" by (auto simp: utf8_bits dest: t)
  ultimately show ?thesis using assms by (simp add: ssfn_utf8_def utf8_bytes_def rd_def utf8_test)
qed

lemma utf8_two:
  assumes "\<not> u < 0x80" and "u < 0x800"
  shows "ssfn_utf8 (pre @ utf8_bytes u @ post) (length pre) = Inr (u, length pre + length (utf8_bytes u))"
proof -
  have "unat u < 2 ^ 11" using assms by (simp add: word_less_nat_alt)
  note t = bits_below [OF this]
  define b where "b = (0xC0 OR ucast (drop_bit 6 u) :: u8)"
  define b1 where "b1 = (0x80 OR ucast (u AND 0x3F) :: u8)"
  have bits: "bit b n \<longleftrightarrow> n = 6 \<or> n = 7 \<or> bit u (6 + n)"
    "bit b1 n \<longleftrightarrow> n = 7 \<or> n < 6 \<and> bit u n" for n
    unfolding b_def b1_def
    by (auto simp: utf8_bits utf8_mask_simps simp del: bit_numeral_word_iff dest: t)
  have "push_bit 6 (ucast b AND 0x1F) OR (ucast b1 AND 0x3F) = u"
  proof (rule bit_word_eqI)
    fix n
    assume "n < LENGTH(32)"
    consider "n < 6" | "6 \<le> n" "n < 12" | "12 \<le> n" "n < 18" | "18 \<le> n" by linarith
    then show "bit (push_bit 6 (ucast b AND 0x1F) OR (ucast b1 AND 0x3F) :: u32) n = bit u n"
      by cases (auto simp: bits bit_or_iff bit_and_iff bit_push_bit_iff bit_ucast_iff bit_mask_iff
          utf8_mask_simps dest: t)
  qed
  moreover have "bit b 7" "\<not> bit b 5" by (auto simp: bits dest: t)
  moreover have "utf8_bytes u = [b, b1]"
    using assms by (simp add: utf8_bytes_def b_def b1_def)
  ultimately show ?thesis by (simp add: ssfn_utf8_def rd_def nth_append utf8_test)
qed

lemma utf8_three:
  assumes "\<not> u < 0x800" and "\<not> u < 0x80" and "u < 0x10000"
  shows "ssfn_utf8 (pre @ utf8_bytes u @ post) (length pre) = Inr (u, length pre + length (utf8_bytes u))"
proof -
  have "unat u < 2 ^ 16" using assms by (simp add: word_less_nat_alt)
  note t = bits_below [OF this]
  define b where "b = (0xE0 OR ucast (drop_bit 12 u) :: u8)"
  define b1 where "b1 = (0x80 OR ucast (drop_bit 6 u AND 0x3F) :: u8)"
  define b2 where "b2 = (0x80 OR ucast (u AND 0x3F) :: u8)"
  have bits: "bit b n \<longleftrightarrow> n = 5 \<or> n = 6 \<or> n = 7 \<or> bit u (12 + n)"
    "bit b1 n \<longleftrightarrow> n = 7 \<or> n < 6 \<and> bit u (6 + n)"
    "bit b2 n \<longleftrightarrow> n = 7 \<or> n < 6 \<and> bit u n" for n
    unfolding b_def b1_def b2_def
    by (auto simp: utf8_bits utf8_mask_simps simp del: bit_numeral_word_iff dest: t)
  have "push_bit 12 (ucast b AND 0xF) OR push_bit 6 (ucast b1 AND 0x3F) OR (ucast b2 AND 0x3F) = u"
  proof (rule bit_word_eqI)
    fix n
    assume "n < LENGTH(32)"
    consider "n < 6" | "6 \<le> n" "n < 12" | "12 \<le> n" "n < 18" | "18 \<le> n" by linarith
    then show "bit (push_bit 12 (ucast b AND 0xF) OR push_bit 6 (ucast b1 AND 0x3F) OR (ucast b2 AND 0x3F) :: u32) n = bit u n"
      by cases (auto simp: bits bit_or_iff bit_and_iff bit_push_bit_iff bit_ucast_iff bit_mask_iff
          utf8_mask_simps dest: t)
  qed
  moreover have "bit b 7" "bit b 5" "\<not> bit b 4" by (auto simp: bits dest: t)
  moreover have "utf8_bytes u = [b, b1, b2]"
    using assms by (simp add: utf8_bytes_def b_def b1_def b2_def)
  ultimately show ?thesis by (simp add: ssfn_utf8_def rd_def nth_append utf8_test)
qed

lemma utf8_four:
  assumes "\<not> u < 0x10000" and "\<not> u < 0x800" and "\<not> u < 0x80" and "u < 0x200000"
  shows "ssfn_utf8 (pre @ utf8_bytes u @ post) (length pre) = Inr (u, length pre + length (utf8_bytes u))"
proof -
  have "unat u < 2 ^ 21" using assms by (simp add: word_less_nat_alt)
  note t = bits_below [OF this]
  define b where "b = (0xF0 OR ucast (drop_bit 18 u) :: u8)"
  define b1 where "b1 = (0x80 OR ucast (drop_bit 12 u AND 0x3F) :: u8)"
  define b2 where "b2 = (0x80 OR ucast (drop_bit 6 u AND 0x3F) :: u8)"
  define b3 where "b3 = (0x80 OR ucast (u AND 0x3F) :: u8)"
  have bits: "bit b n \<longleftrightarrow> n = 4 \<or> n = 5 \<or> n = 6 \<or> n = 7 \<or> bit u (18 + n)"
    "bit b1 n \<longleftrightarrow> n = 7 \<or> n < 6 \<and> bit u (12 + n)"
    "bit b2 n \<longleftrightarrow> n = 7 \<or> n < 6 \<and> bit u (6 + n)"
    "bit b3 n \<longleftrightarrow> n = 7 \<or> n < 6 \<and> bit u n" for n
    unfolding b_def b1_def b2_def b3_def
    by (auto simp: utf8_bits utf8_mask_simps simp del: bit_numeral_word_iff dest: t)
  have "push_bit 18 (ucast b AND 0x7) OR push_bit 12 (ucast b1 AND 0x3F) OR push_bit 6 (ucast b2 AND 0x3F) OR (ucast b3 AND 0x3F) = u"
  proof (rule bit_word_eqI)
    fix n
    assume "n < LENGTH(32)"
    consider "n < 6" | "6 \<le> n" "n < 12" | "12 \<le> n" "n < 18" | "18 \<le> n" by linarith
    then show "bit (push_bit 18 (ucast b AND 0x7) OR push_bit 12 (ucast b1 AND 0x3F) OR push_bit 6 (ucast b2 AND 0x3F) OR (ucast b3 AND 0x3F) :: u32) n = bit u n"
      by cases (auto simp: bits bit_or_iff bit_and_iff bit_push_bit_iff bit_ucast_iff bit_mask_iff
          utf8_mask_simps dest: t)
  qed
  moreover have "bit b 7" "bit b 5" "bit b 4" "\<not> bit b 3" by (auto simp: bits dest: t)
  moreover have "utf8_bytes u = [b, b1, b2, b3]"
    using assms by (simp add: utf8_bytes_def b_def b1_def b2_def b3_def)
  ultimately show ?thesis by (simp add: ssfn_utf8_def rd_def nth_append utf8_test)
qed

section \<open>Property\<close>

text \<open>C28. Decoding a code point written in UTF-8, of one to four bytes and wherever it stands in the
  buffer, gives it back and leaves the pointer after its bytes.\<close>

theorem utf8_roundtrip:
  assumes "u < 0x200000"
  shows "ssfn_utf8 (pre @ utf8_bytes u @ post) (length pre) = Inr (u, length pre + length (utf8_bytes u))"
proof -
  consider "u < 0x80" | "\<not> u < 0x80" "u < 0x800" | "\<not> u < 0x800" "\<not> u < 0x80" "u < 0x10000"
    | "\<not> u < 0x10000" "\<not> u < 0x800" "\<not> u < 0x80" by blast
  then show ?thesis
    by cases (use assms in \<open>simp_all only: utf8_one utf8_two utf8_three utf8_four not_False_eq_True\<close>)
qed

theorem utf8_roundtrip_witness:
  "ssfn_utf8 [0x41, 0xE2, 0x82, 0xAC, 0] 1 = Inr (0x20AC, 4)"
  using utf8_roundtrip [of "0x20AC" "[0x41]" "[0]"] by (simp add: utf8_bytes_def)

end
