(* ===== verification/ConsoleProperties.thy ===== *)
theory ConsoleProperties
  imports ConsoleCorrect FontPicture Utf8
begin

text \<open>
  The properties of the renderer and of the console, with instances on a font of one letter and a
  small screen.
\<close>

section \<open>A font of one letter\<close>

text \<open>
  Font at 0x1000, its character table after the header: 65 characters skipped, the letter with one
  fragment of 8 columns and a row at offset 0x40, the rest skipped. The frame buffer of 64 by 32 pixels
  is at 0x100000.
\<close>

definition font_memory :: mem where
  "font_memory =
     (\<lambda>a. if 0x102D \<le> a \<and> a < 0x103E then 0xFF else 0)
       (0x1000 := 83, 0x1001 := 70, 0x1002 := 78, 0x1003 := 50, 0x100A := 8, 0x100B := 16, 0x1010 := 32,
        0x1020 := 0xBF, 0x1021 := 0x80, 0x1023 := 1, 0x1024 := 8, 0x1025 := 16, 0x1026 := 8,
        0x102A := 0x40, 0x1040 := 0x80, 0x1042 := 0x81)"

definition small_console :: console where
  "small_console = conlib_init 0x1000 0x100000 64 32 256"

lemma small_console_fields [simp]:
  "ssfn_src small_console = 0x1000" "dst_ptr small_console = 0x100000" "dst_w small_console = 64"
  "dst_h small_console = 32" "dst_p small_console = 256" "dst_x small_console = 0"
  "dst_y small_console = 0" "dst_fg small_console = 0xffffffff" "dst_bg small_console = 0"
  by (simp_all add: small_console_def conlib_init_def)

text \<open>A frame buffer lies between its first byte and the end of its last line.\<close>

lemma frame_between:
  assumes "a \<in> frame c" and "4 * dst_w c \<le> uint (dst_p c)" and "uint (dst_ptr c) + dst_h c * uint (dst_p c) < 2 ^ 64"
  shows "uint (dst_ptr c) \<le> uint a" and "uint a < uint (dst_ptr c) + dst_h c * uint (dst_p c)"
proof -
  from assms(1) obtain row col where rc: "0 \<le> row" "row < dst_h c" "0 \<le> col" "col < dst_w c"
      "unat (a - pixel c row col) < 4"
    by (auto simp: frame_def pixels_def)
  define k where "k = row * uint (dst_p c) + 4 * col + uint (a - pixel c row col)"
  have "int (unat (a - pixel c row col)) < 4" using rc(5) by linarith
  then have r: "0 \<le> uint (a - pixel c row col)" "uint (a - pixel c row col) < 4"
    by (simp_all only: uint_nat of_nat_0_le_iff)
  have "row * uint (dst_p c) \<le> (dst_h c - 1) * uint (dst_p c)" using rc(2) by (intro mult_right_mono) simp_all
  then have k: "k < dst_h c * uint (dst_p c)" "0 \<le> k"
    using rc(1,3,4) r assms(2) by (simp_all add: k_def left_diff_distrib)
  have "a = dst_ptr c + word_of_int k" by (simp add: k_def pixel_def)
  also have "\<dots> = word_of_int (uint (dst_ptr c) + k)" by simp
  finally have "uint a = (uint (dst_ptr c) + k) mod 2 ^ 64"
    by (simp only: uint_word_of_int len_bit0 len_num1 len_num0) simp
  also have "\<dots> = uint (dst_ptr c) + k" by (rule mod_pos_pos_trivial) (use k assms(3) in simp_all)
  finally show "uint (dst_ptr c) \<le> uint a" and "uint a < uint (dst_ptr c) + dst_h c * uint (dst_p c)"
    using k by simp_all
qed

lemma small_frame:
  assumes "a \<in> frame small_console"
  shows "0x100000 \<le> unat a"
proof -
  have "dst_ptr small_console \<le> a" unfolding word_le_def by (rule frame_between(1) [OF assms]) simp_all
  then show ?thesis by (simp add: word_le_nat_alt)
qed

lemma load_two_bytes: "load_bytes 2 m a = ucast (m a) OR push_bit 8 (ucast (m (a + 1)))"
  by (simp add: numeral_2_eq_2)

text \<open>The bytes of the font's page are all that a lookup needs.\<close>

lemma font_memory_glyph:
  assumes same: "\<And>a. unat a div 4096 = 1 \<Longrightarrow> m a = font_memory a"
  shows "glyph_of small_console m u = (if u = 65 then Some 0x1022 else None)"
    and "load_font m 0x1000 = load_font font_memory 0x1000"
proof -
  have at: "m 0x1020 = 0xBF" "m 0x1021 = 0x80" "m 0x1022 = 0" "m 0x1023 = 1"
    by (subst same, simp, simp add: font_memory_def)+
  have off: "load32 m 0x1010 = 32"
  proof -
    have "m 0x1010 = 32" "m 0x1011 = 0" "m 0x1012 = 0" "m 0x1013 = 0"
      by (subst same, simp, simp add: font_memory_def)+
    then show ?thesis by (simp add: load32_unfold)
  qed
  have tail: "find_chr m 0x102D 66 u = None"
  proof (rule find_chr_end [of 17])
    show "\<forall>k<17. m (0x102D + of_nat k) = 0xFF"
    proof (intro allI impI)
      fix k :: nat
      assume k: "k < 17"
      then have "unat (of_nat k :: u64) = k" by (intro unat_of_nat_small) simp
      then have u: "unat (0x102D + of_nat k :: u64) = 0x102D + k" using k by (simp add: unat_plus_nowrap)
      then have "font_memory (0x102D + of_nat k) = 0xFF"
        using k by (simp add: font_memory_def word_le_nat_alt word_less_nat_alt word_unat_eq_iff)
      with same u k show "m (0x102D + of_nat k) = 0xFF" by simp
    qed
  qed simp
  have "find_chr m 0x1022 65 u = (if u = 65 then Some 0x1022 else None)"
    by (subst find_chr.simps) (auto simp: at tail)
  moreover have "find_chr m 0x1021 64 u = find_chr m 0x1022 65 u"
    by (subst find_chr.simps) (simp add: at)
  moreover have "find_chr m 0x1020 0 u = find_chr m 0x1021 64 u"
    by (subst find_chr.simps) (simp add: at)
  moreover have "characters_offs (load_font m 0x1000) = 32" by (simp add: load_font_def off)
  ultimately show "glyph_of small_console m u = (if u = 65 then Some 0x1022 else None)"
    by (simp add: glyph_of_def)
  have byte: "m (0x1000 + of_nat k) = font_memory (0x1000 + of_nat k)" if "k < 32" for k
  proof (rule same)
    have "unat (of_nat k :: u64) = k" by (rule unat_of_nat_small) (use that in simp)
    then show "unat (0x1000 + of_nat k :: u64) div 4096 = 1" using that by (simp add: unat_plus_nowrap)
  qed
  show "load_font m 0x1000 = load_font font_memory 0x1000"
    using byte [of 0] byte [of 1] byte [of 2] byte [of 3] byte [of 4] byte [of 5] byte [of 6] byte [of 7]
      byte [of 8] byte [of 9] byte [of 10] byte [of 11] byte [of 12] byte [of 13] byte [of 14]
      byte [of 15] byte [of 16] byte [of 17] byte [of 18] byte [of 19] byte [of 20] byte [of 21]
      byte [of 22] byte [of 23] byte [of 24] byte [of 25] byte [of 26] byte [of 27] byte [of 28]
      byte [of 29] byte [of 30] byte [of 31]
    by (simp add: load_font_def load32_unfold load_two_bytes)
qed

lemma font_memory_same:
  assumes "\<forall>a. a \<notin> frame small_console \<longrightarrow> m' a = font_memory a"
  shows "glyph_of small_console m' u = (if u = 65 then Some 0x1022 else None)"
    and "load_font m' 0x1000 = load_font font_memory 0x1000"
proof -
  have "m' a = font_memory a" if "unat a div 4096 = 1" for a
  proof -
    have "unat a < 0x100000" using that by linarith
    then have "a \<notin> frame small_console" using small_frame [of a] by linarith
    then show ?thesis using assms by blast
  qed
  then show "glyph_of small_console m' u = (if u = 65 then Some 0x1022 else None)"
    and "load_font m' 0x1000 = load_font font_memory 0x1000"
    using font_memory_glyph [of m'] by blast+
qed

lemma small_font_apart: "font_apart small_console font_memory"
proof -
  have gl: "glyph_of small_console font_memory u = (if u = 65 then Some 0x1022 else None)" for u
    by (rule font_memory_same) simp
  have "(0x1022 :: u64) \<notin> frame small_console" using small_frame [of "0x1022"] by auto
  moreover have "font_memory 0x1022 AND 0x40 = 0" by (simp add: font_memory_def)
  then have "chr \<notin> frame small_console \<and> font_memory chr AND 0x40 = 0"
    if "glyph_of small_console font_memory u = Some chr" for u chr
    using that calculation by (auto simp: gl split: if_splits)
  moreover have "load_font m' (ssfn_src small_console) = load_font font_memory (ssfn_src small_console) \<and>
      (\<forall>u. glyph_of small_console m' u = glyph_of small_console font_memory u)"
    if "\<forall>a. a \<notin> frame small_console \<longrightarrow> m' a = font_memory a" for m'
    using font_memory_same [OF that] by (simp add: gl)
  ultimately show ?thesis unfolding font_apart_def by blast
qed

lemma small_screen_fits: "screen_fits 510 0 (small_console, font_memory)"
  using small_font_apart steps_within_any by (simp add: screen_fits_def)

section \<open>Properties\<close>

text \<open>C11. With the cursor on a visible screen and a plain glyph, \<open>ssfn_putc\<close> ends without overflow
  and writes visible pixels right of and below the cursor only, none when the cursor is below the last
  row; it moves the cursor by what the glyph says. Without a usable font or without a glyph it returns
  the error and changes nothing.\<close>

theorem ssfn_putc_safe:
  assumes "on_screen c" and "\<And>chr. glyph_of c m u = Some chr \<Longrightarrow> plain_glyph c m chr"
  shows "\<exists>r c' m'. ssfn_putc u c m = Inr (r, c', m') \<and> (\<forall>a. a \<notin> area c \<longrightarrow> m' a = m a) \<and>
    (dst_h c \<le> dst_y c \<longrightarrow> m' = m) \<and>
    r = (if \<not> usable c m then SSFN_ERR_INVINP else if glyph_of c m u = None then SSFN_ERR_NOGLYPH
         else SSFN_OK) \<and>
    (r \<noteq> SSFN_OK \<longrightarrow> c' = c \<and> m' = m) \<and>
    (\<exists>dx dy. c' = c\<lparr>dst_x := dst_x c + dx, dst_y := dst_y c + dy\<rparr> \<and> dx \<in> {0..255} \<and> dy \<in> {0..255})"
proof (cases "usable c m \<and> glyph_of c m u \<noteq> None")
  case False
  have "0 < dst_w c" using assms(1) by (simp add: on_screen_def)
  from ssfn_putc_missing [OF _ this, of m u] False
  have "ssfn_putc u c m = Inr (if usable c m then SSFN_ERR_NOGLYPH else SSFN_ERR_INVINP, c, m)" by blast
  moreover have "\<exists>dx dy. c = c\<lparr>dst_x := dst_x c + dx, dst_y := dst_y c + dy\<rparr> \<and> dx \<in> {0..255} \<and> dy \<in> {0..255}"
    by (intro exI [of _ 0]) simp
  ultimately show ?thesis
    using False by (auto simp: SSFN_OK_def SSFN_ERR_INVINP_def SSFN_ERR_NOGLYPH_def)
next
  case True
  then obtain chr where chr: "usable c m" "glyph_of c m u = Some chr" by auto
  from ssfn_putc_painted [OF assms(1) chr assms(2) [OF chr(2)]] obtain m' dx dy where
    run: "ssfn_putc u c m = Inr (SSFN_OK, c\<lparr>dst_x := dst_x c + dx, dst_y := dst_y c + dy\<rparr>, m')"
    and same: "\<forall>a. a \<notin> area c \<longrightarrow> m' a = m a" and d: "dx = uint (m' (chr + 4))" "dy = uint (m' (chr + 5))"
    unfolding painted_def by blast
  have "dx \<in> {0..255}" "dy \<in> {0..255}"
    using byte_less(1) [of "m' (chr + 4)"] byte_less(1) [of "m' (chr + 5)"] by (simp_all add: d)
  moreover have "m' = m" if "dst_h c \<le> dst_y c" using same area_below [OF that] by (auto simp: fun_eq_iff)
  ultimately show ?thesis using run same chr by (auto simp: SSFN_OK_def SSFN_ERR_INVINP_def SSFN_ERR_NOGLYPH_def)
qed

theorem ssfn_putc_safe_witness:
  "\<exists>c' m'. ssfn_putc 65 small_console font_memory = Inr (SSFN_OK, c', m') \<and>
    m' 0x1020 = 0xBF \<and> ssfn_src c' = 0x1000"
proof -
  have scr: "on_screen small_console" by (simp add: on_screen_def INT_MAX_def)
  have gl: "glyph_of small_console font_memory u = (if u = 65 then Some 0x1022 else None)" for u
    by (rule font_memory_same) simp
  have "(0x1022 :: u64) \<notin> frame small_console" "(0x1020 :: u64) \<notin> frame small_console"
    using small_frame [of "0x1022"] small_frame [of "0x1020"] by auto
  then have out: "0x1022 \<notin> area small_console" "0x1020 \<notin> area small_console"
    using area_frame [of small_console] by auto
  have plain: "plain_glyph small_console font_memory chr"
    if "glyph_of small_console font_memory 65 = Some chr" for chr
    using that out by (simp add: gl plain_glyph_def) (auto simp: font_memory_def)
  have "usable small_console font_memory"
    by (simp add: usable_def load_font_def) (simp add: font_memory_def)
  moreover have "font_memory 0x1020 = 0xBF" by (simp add: font_memory_def)
  ultimately show ?thesis
    using ssfn_putc_safe [OF scr plain] out(2) by (fastforce simp: gl)
qed

text \<open>C10. On a frame buffer whose lines do not overlap, \<open>ssfn_putc\<close> does to the visible pixels right of and
  below the cursor what the glyph's picture says, and to nothing else: with a background, the glyph's box
  filled row by row down to its last row, a dot of a fragment in the foreground and the others in the
  background; without one, only the dots. Fragments below the last row of the screen leave no trace.
  The cursor then moves by the advance in the glyph's descriptor.\<close>

theorem ssfn_putc_draws:
  assumes "on_screen c" and "lines_fit c" and "usable c m" and "glyph_of c m u = Some chr"
    and "glyph_apart c m chr" and "m chr AND 0x40 = 0"
  shows "\<exists>m'. ssfn_putc u c m = Inr (SSFN_OK, c\<lparr>dst_x := dst_x c + uint (m (chr + 4)),
      dst_y := dst_y c + uint (m (chr + 5))\<rparr>, m') \<and>
    (\<forall>r l. visible c r l \<longrightarrow> screen_pic c m' r l = glyph_pic c m chr (screen_pic c m) r l) \<and>
    (\<forall>a. a \<notin> area c \<longrightarrow> m' a = m a)"
  using ssfn_putc_pic [OF assms] unfolding painted_def by blast

lemma letter_off_screen: "unat a < 0x100000 \<Longrightarrow> a \<notin> area small_console"
  using area_frame [of small_console] small_frame [of a] by auto

lemma letter_picture:
  "glyph_frags font_memory 0x1022 = [0x1028]" "frag_addr small_console font_memory 0x1028 = 0x1040"
  "frag_cols font_memory 0x1040 = 8" "frag_rows font_memory 0x1040 = 1"
  "glyph_pic small_console font_memory 0x1022 pic =
     pic_dots 0xffffffff 0 (frag_dot font_memory 0x1040) 8 0 1 pic"
proof -
  show f: "glyph_frags font_memory 0x1022 = [0x1028]" by (simp add: glyph_frags_def font_memory_def)
  show a: "frag_addr small_console font_memory 0x1028 = 0x1040" by (simp add: frag_addr_def font_memory_def)
  show k: "frag_cols font_memory 0x1040 = 8" by (simp add: frag_cols_def font_memory_def)
  show r: "frag_rows font_memory 0x1040 = 1" by (simp add: frag_rows_def font_memory_def)
  have b: "font_memory 0x1028 = 0" "font_memory 0x1029 = 0" "font_memory 0x1040 = 0x80"
    by (simp_all add: font_memory_def)
  show "glyph_pic small_console font_memory 0x1022 pic =
      pic_dots 0xffffffff 0 (frag_dot font_memory 0x1040) 8 0 1 pic"
    by (simp add: glyph_pic_def f pic_frag_def a k r b Let_def)
qed

lemma letter_apart: "glyph_apart small_console font_memory 0x1022"
proof -
  have out: "b + of_nat i \<notin> area small_console" if "unat b < 0x2000" "i < 0x100" for b :: u64 and i
  proof (rule letter_off_screen)
    have "unat (of_nat i :: u64) = i" by (rule unat_of_nat_small) (use that in simp)
    then show "unat (b + of_nat i) < 0x100000" using that by (simp add: unat_plus_nowrap)
  qed
  have "0x1042 + of_nat (i div 8) \<notin> area small_console" if "i < 8" for i :: nat
    using out [of "0x1042" "i div 8"] that by simp
  moreover have "0x1040 \<notin> area small_console" "0x1041 \<notin> area small_console"
    by (rule letter_off_screen, simp)+
  ultimately have "frag_apart small_console font_memory 0x1040"
    by (simp add: frag_apart_def letter_picture)
  moreover have "0x1022 + of_nat i \<notin> area small_console" "0x1028 + of_nat i \<notin> area small_console"
    if "i < 6" for i :: nat
    using out [of "0x1022" i] out [of "0x1028" i] that by simp_all
  ultimately show ?thesis by (simp add: glyph_apart_def letter_picture)
qed

theorem ssfn_putc_draws_witness:
  "\<exists>m'. ssfn_putc 65 small_console font_memory = Inr (SSFN_OK, small_console\<lparr>dst_x := 8, dst_y := 0\<rparr>, m') \<and>
    map (\<lambda>l. screen_pic small_console m' 0 l) [0, 1, 6, 7, 8] = [0xffffffff, 0, 0, 0xffffffff, 0]"
proof -
  have scr: "on_screen small_console" "lines_fit small_console"
    by (simp_all add: on_screen_def lines_fit_def INT_MAX_def)
  have us: "usable small_console font_memory"
    by (simp add: usable_def load_font_def) (simp add: font_memory_def)
  have gl: "glyph_of small_console font_memory 65 = Some 0x1022" by (subst font_memory_same) simp_all
  have plain: "font_memory 0x1022 AND 0x40 = 0" by (simp add: font_memory_def)
  have adv: "font_memory 0x1026 = 8" "font_memory 0x1027 = 0" by (simp_all add: font_memory_def)
  from ssfn_putc_draws [OF scr us gl letter_apart plain] obtain m' where
    run: "ssfn_putc 65 small_console font_memory = Inr (SSFN_OK, small_console\<lparr>dst_x := 8, dst_y := 0\<rparr>, m')"
    and pic: "\<And>r l. visible small_console r l \<Longrightarrow> screen_pic small_console m' r l =
      pic_dots 0xffffffff 0 (frag_dot font_memory 0x1040) 8 0 1 (screen_pic small_console font_memory) r l"
    unfolding letter_picture by (auto simp: adv)
  have byte: "font_memory 0x1042 = 0x81" by (simp add: font_memory_def)
  have dot: "frag_dot font_memory 0x1040 0 0" "\<not> frag_dot font_memory 0x1040 0 1"
    "\<not> frag_dot font_memory 0x1040 0 6" "frag_dot font_memory 0x1040 0 7"
    by (simp_all add: frag_dot_def letter_picture(3) byte)
  have blank: "screen_pic small_console font_memory 0 1 = 0" "screen_pic small_console font_memory 0 6 = 0"
    "screen_pic small_console font_memory 0 8 = 0"
    by (simp_all add: screen_pic_def pixel_def load32_unfold font_memory_def)
  have vis: "visible small_console 0 0" "visible small_console 0 1" "visible small_console 0 6"
    "visible small_console 0 7" "visible small_console 0 8"
    by (simp_all add: visible_def)
  show ?thesis
    using run by (intro exI [of _ m'] conjI) (simp_all add: pic vis pic_dots_def dot blank)
qed

text \<open>C19. On a font no character of which moves the cursor down more than \<open>d\<close>, \<open>puts\<close> prints every string
  at least up to a character before which the cursor is within \<open>d\<close> of row 32768, where the arithmetic on
  rows may overflow; a string that ends before is printed whole, and \<open>puts\<close> returns. Up to there the memory
  outside the frame buffer is as before, the cursor on a column of the screen, no higher than it was and at
  most \<open>d\<close> lower for each character, and geometry, font and colours are unchanged. \<open>ERR\<close> keeps the same,
  its own colours included, on strings that fit.\<close>

theorem text_on_screen:
  assumes "screen_fits d 0 (c, m)" and "cstr str p xs"
    and "list_all2 (\<lambda>str xs. cstr str 0 xs) strs xss" and "length strs < 2 ^ 64"
  shows "let kept = (\<lambda>(c', m'). (\<forall>a. a \<notin> frame c \<longrightarrow> m' a = m a) \<and> 0 \<le> dst_x c' \<and> dst_x c' < dst_w c' \<and>
         dst_y c \<le> dst_y c' \<and> c' = c\<lparr>dst_x := dst_x c', dst_y := dst_y c'\<rparr>)
    in (\<exists>k c' m'. k \<le> length xs \<and> kept (c', m') \<and> dst_y c' \<le> dst_y c + d * int k \<and>
          puts str p (c, m) = puts str (p + k) (c', m') \<and>
          (k = length xs \<and> puts str p (c, m) = Inr (0, c', m') \<or> k < length xs \<and> 32768 < dst_y c' + d)) \<and>
       (dst_y c + d * int (length (concat xss)) \<le> 32768 \<longrightarrow> (\<exists>s'. ERR strs (c, m) = Inr s' \<and> kept s'))"
proof -
  have kept: "(case s' of (c', m') \<Rightarrow> (\<forall>a. a \<notin> frame c \<longrightarrow> m' a = m a) \<and> 0 \<le> dst_x c' \<and> dst_x c' < dst_w c' \<and>
      dst_y c \<le> dst_y c' \<and> c' = c\<lparr>dst_x := dst_x c', dst_y := dst_y c'\<rparr>)"
    if "screen_step (c, m) s'" "screen_fits d 0 s'" for s'
    using that by (cases s') (simp only: screen_step_def screen_fits_def prod.case, blast)
  have "\<exists>s'. ERR strs (c, m) = Inr s' \<and> screen_step (c, m) s' \<and> screen_fits d 0 s'"
    if "dst_y c + d * int (length (concat xss)) \<le> 32768"
    by (rule ERR_step [OF _ assms(3,4)]) (use assms(1) that in \<open>simp add: screen_fits_def\<close>)
  then show ?thesis
    using puts_prefix [OF assms(1,2)] kept unfolding Let_def by blast
qed

lemma letter_string: "cstr [65, 10, 65, 0] 0 [65, 10, 65]"
  unfolding cstr_def by (intro conjI exI [of _ "[]"]) simp_all

theorem text_on_screen_witness:
  "\<exists>c' m'. puts [65, 10, 65, 0] 0 (small_console, font_memory) = Inr (0, c', m') \<and>
    (\<forall>a. unat a < 0x100000 \<longrightarrow> m' a = font_memory a) \<and> dst_fg c' = 0xffffffff"
proof -
  have "list_all2 (\<lambda>str xs. cstr str 0 xs) [[65, 10, 65, 0]] [[65, 10, 65]]"
    using letter_string by simp
  from text_on_screen [OF small_screen_fits letter_string this]
  obtain c' m' where r: "puts [65, 10, 65, 0] 0 (small_console, font_memory) = Inr (0, c', m')"
    and same: "\<forall>a. a \<notin> frame small_console \<longrightarrow> m' a = font_memory a"
    and c': "c' = small_console\<lparr>dst_x := dst_x c', dst_y := dst_y c'\<rparr>"
    by (auto simp: Let_def)
  note r
  moreover have "dst_fg c' = 0xffffffff" by (subst c') simp
  moreover have "m' a = font_memory a" if "unat a < 0x100000" for a
    using same small_frame [of a] that by (metis not_less)
  ultimately show ?thesis by blast
qed

text \<open>A byte of 128 or more, as every byte of a multi-byte character is, prints nothing: it reaches
  the renderer as a negative number.\<close>

theorem putc_high_byte:
  assumes "bit (b :: u8) 7" and "0 < dst_w c" and "dst_x c < dst_w c"
  shows "putc (sint b) (c, m) = Inr (sint b, c, m)"
proof -
  have "sint b < 0" using assms(1) bit_last_iff [of b] by simp
  then have "sint b \<noteq> 10 \<and> sint b \<noteq> 13 \<and> sint b \<noteq> 9" by auto
  moreover have "ssfn_putc (word_of_int (sint b)) c m =
      Inr (if usable c m then SSFN_ERR_NOGLYPH else SSFN_ERR_INVINP, c, m)"
    by (rule ssfn_putc_missing [OF disjI2 assms(2)], rule high_byte_glyph [OF assms(1)])
  ultimately show ?thesis using assms(3) by (simp add: putc_def)
qed

theorem putc_high_byte_witness:
  "putc (sint (0xE9 :: u8)) (small_console, font_memory) = Inr (-23, small_console, font_memory)"
  using putc_high_byte [of "0xE9" small_console font_memory] by simp

end
