(* ===== verification/Doubles.thy ===== *)
theory Doubles
  imports Complex_Main "HOL-Library.Log_Nat"
begin

text \<open>
  The arithmetic of C's \<open>double\<close> that the console uses: finite values are rationals, and the result of
  an operation is the exact one rounded to 53 bits, to the nearest value and to the even one between two
  (IEEE 754, binary64). Values stay far below the largest double, so rounding never overflows.
\<close>

section \<open>Rounding\<close>

definition round_even :: "rat \<Rightarrow> int" where
  "round_even t =
     (let f = \<lfloor>t\<rfloor>; d = t - of_int f
      in if d < 1 / 2 \<or> d = 1 / 2 \<and> even f then f else f + 1)"

text \<open>The exponent of the last of the 53 bits of a value; subnormal values all share the least one.\<close>

definition ulp_exp :: "rat \<Rightarrow> int" where
  "ulp_exp x =
     (let (a, b) = quotient_of \<bar>x\<bar>;
          e = bitlen a - bitlen b;
          e = (if \<bar>x\<bar> < 2 powi e then e - 1 else e)
      in max (e - 52) (- 1074))"

definition rnd :: "rat \<Rightarrow> rat" where
  "rnd x = of_int (round_even (x / 2 powi ulp_exp x)) * 2 powi ulp_exp x"

text \<open>A finite \<open>double\<close> is a value that rounding keeps.\<close>

definition is_double :: "rat \<Rightarrow> bool" where
  "is_double x \<longleftrightarrow> rnd x = x"

text \<open>Conversion to an integer type drops the fraction.\<close>

definition trunc :: "rat \<Rightarrow> int" where
  "trunc x = (if x < 0 then - \<lfloor>- x\<rfloor> else \<lfloor>x\<rfloor>)"

section \<open>Rounding to an integer\<close>

lemma round_even_int [simp]: "round_even (of_int n) = n"
  by (simp add: round_even_def)

lemma round_even_near: "\<bar>of_int (round_even t) - t\<bar> \<le> 1 / 2"
proof -
  have "of_int \<lfloor>t\<rfloor> \<le> t" "t < of_int \<lfloor>t\<rfloor> + 1" by linarith+
  then show ?thesis by (auto simp: round_even_def Let_def abs_le_iff)
qed

lemma round_even_nonneg: "0 \<le> t \<Longrightarrow> 0 \<le> round_even t"
  by (simp add: round_even_def Let_def)

lemma round_even_le: "t \<le> of_int n \<Longrightarrow> round_even t \<le> n"
proof -
  assume t: "t \<le> of_int n"
  have "of_int (round_even t) \<le> t + 1 / 2" using round_even_near [of t] by linarith
  with t have "of_int (round_even t) < (of_int (n + 1) :: rat)" by simp
  then show ?thesis by (simp only: of_int_less_iff)
qed

lemma round_even_less: "t < of_int n - 1 / 2 \<Longrightarrow> round_even t \<le> n - 1"
proof -
  assume t: "t < of_int n - 1 / 2"
  have "of_int (round_even t) \<le> t + 1 / 2" using round_even_near [of t] by linarith
  with t have "of_int (round_even t) < (of_int n :: rat)" by simp
  then show ?thesis by (simp only: of_int_less_iff)
qed

lemma round_even_abs_le: "\<bar>t\<bar> \<le> of_int n \<Longrightarrow> \<bar>round_even t\<bar> \<le> n"
proof -
  assume t: "\<bar>t\<bar> \<le> of_int n"
  have "\<bar>of_int (round_even t)\<bar> \<le> \<bar>t\<bar> + 1 / 2" using round_even_near [of t] by linarith
  with t have "of_int \<bar>round_even t\<bar> < (of_int (n + 1) :: rat)" by simp
  then show ?thesis by (simp only: of_int_less_iff)
qed

section \<open>The last place\<close>

lemma powi_int_exp: "0 \<le> k \<Longrightarrow> (2 :: rat) powi k = of_int (2 ^ nat k)"
  by (simp add: power_int_def)

lemma powi_split: "k \<le> e \<Longrightarrow> (2 :: rat) powi e = 2 ^ nat (e - k) * 2 powi k"
  using power_int_add [of "2 :: rat" "e - k" k] by (simp add: powi_int_exp)

lemma powi_mono: "k \<le> j \<Longrightarrow> (2 :: rat) powi k \<le> 2 powi j"
  by (simp add: power_int_increasing)

lemma powi_less_imp: "(2 :: rat) powi k < 2 powi j \<Longrightarrow> k < j"
  using powi_mono [of j k] by linarith

lemma bitlen_ratio:
  assumes "0 < x" and "quotient_of x = (a, b)"
  shows "2 powi (bitlen a - bitlen b - 1) \<le> x" "x < 2 powi (bitlen a - bitlen b + 1)"
proof -
  have b: "0 < b" using quotient_of_denom_pos [OF assms(2)] .
  have x: "x = of_int a / of_int b" using quotient_of_div [OF assms(2)] .
  have a: "0 < a" using assms(1) b unfolding x by (simp add: zero_less_divide_iff)
  have bounds: "(2 :: rat) powi (bitlen c - 1) \<le> of_int c" "of_int c < (2 :: rat) powi bitlen c" if "0 < c" for c
  proof -
    have pos: "0 < bitlen c" using bitlen_eq_zero_iff [of c] bitlen_nonneg [of c] that by linarith
    have "(of_int (2 ^ nat (bitlen c - 1)) :: rat) \<le> of_int c" "of_int c < (of_int (2 ^ nat (bitlen c)) :: rat)"
      using bitlen_bounds [OF that] by (simp_all only: of_int_le_iff of_int_less_iff)
    then show "(2 :: rat) powi (bitlen c - 1) \<le> of_int c" "of_int c < (2 :: rat) powi bitlen c"
      using pos by (simp_all add: powi_int_exp)
  qed
  have "(2 :: rat) powi (bitlen a - bitlen b - 1) = 2 powi (bitlen a - 1) / 2 powi bitlen b"
    by (simp add: power_int_diff)
  also have "\<dots> \<le> of_int a / of_int b"
    by (rule frac_le) (use a b bounds [OF a] bounds [OF b] in simp_all)
  finally show "2 powi (bitlen a - bitlen b - 1) \<le> x" unfolding x .
  have "of_int a / of_int b < (2 :: rat) powi bitlen a / 2 powi (bitlen b - 1)"
    by (rule frac_less) (use a b bounds [OF a] bounds [OF b] in simp_all)
  also have "\<dots> = 2 powi (bitlen a - bitlen b + 1)"
    by (simp add: power_int_diff power_int_add)
  finally show "x < 2 powi (bitlen a - bitlen b + 1)" unfolding x .
qed

lemma ulp_exp_ge: "- 1074 \<le> ulp_exp x"
  by (simp add: ulp_exp_def Let_def split: prod.split)

lemma ulp_exp_bounds:
  assumes "x \<noteq> 0"
  shows "\<bar>x\<bar> < 2 powi (ulp_exp x + 53)"
    and "- 1074 < ulp_exp x \<Longrightarrow> 2 powi (ulp_exp x + 52) \<le> \<bar>x\<bar>"
proof -
  obtain a b where q: "quotient_of \<bar>x\<bar> = (a, b)" by (cases "quotient_of \<bar>x\<bar>")
  define e where "e = (if \<bar>x\<bar> < 2 powi (bitlen a - bitlen b) then bitlen a - bitlen b - 1 else bitlen a - bitlen b)"
  have e: "2 powi e \<le> \<bar>x\<bar>" "\<bar>x\<bar> < 2 powi (e + 1)"
    using bitlen_ratio [OF _ q] assms by (auto simp: e_def)
  have u: "ulp_exp x = max (e - 52) (- 1074)" unfolding ulp_exp_def q e_def by simp
  have "(2 :: rat) powi (e + 1) \<le> 2 powi (ulp_exp x + 53)" by (rule powi_mono) (simp add: u)
  with e(2) show "\<bar>x\<bar> < 2 powi (ulp_exp x + 53)" by linarith
  show "2 powi (ulp_exp x + 52) \<le> \<bar>x\<bar>" if "- 1074 < ulp_exp x"
  proof -
    have "ulp_exp x + 52 = e" using that u by simp
    with e(1) show ?thesis by simp
  qed
qed

lemma powi_pos [simp]: "0 < (2 :: rat) powi k"
  by (simp add: zero_less_power_int)

lemma ulp_exp_least:
  assumes "\<bar>x\<bar> < 2 powi (e + 53)" and "- 1074 \<le> e" and "x \<noteq> 0"
  shows "ulp_exp x \<le> e"
proof (rule ccontr)
  assume "\<not> ulp_exp x \<le> e"
  then have e: "e < ulp_exp x" by simp
  then have "- 1074 < ulp_exp x" using assms(2) by simp
  from ulp_exp_bounds(2) [OF assms(3) this] have "2 powi (ulp_exp x + 52) < (2 :: rat) powi (e + 53)"
    using assms(1) by linarith
  then show False using e powi_less_imp by fastforce
qed

lemma ulp_exp_eq:
  assumes "2 powi (e + 52) \<le> \<bar>x\<bar>" and "\<bar>x\<bar> < 2 powi (e + 53)" and "- 1074 \<le> e"
  shows "ulp_exp x = e"
proof (rule antisym)
  have x: "x \<noteq> 0"
  proof
    assume "x = 0"
    with assms(1) have "(2 :: rat) powi (e + 52) \<le> 0" by simp
    with powi_pos [of "e + 52"] show False by linarith
  qed
  show "ulp_exp x \<le> e" by (rule ulp_exp_least [OF assms(2,3) x])
  have "(2 :: rat) powi (e + 52) < 2 powi (ulp_exp x + 53)" using assms(1) ulp_exp_bounds(1) [OF x] by linarith
  from powi_less_imp [OF this] show "e \<le> ulp_exp x" by simp
qed

section \<open>Doubles\<close>

lemma rnd_zero [simp]: "rnd 0 = 0"
  using round_even_int [of 0] by (simp add: rnd_def del: round_even_int)

lemma rnd_grid:
  assumes x: "x = of_int m * 2 powi e" and e: "- 1074 \<le> e" and m: "\<bar>m\<bar> \<le> 2 ^ 53"
  shows "rnd x = x"
proof (cases "x = 0")
  case False
  have grid: "rnd x = x" if "x = of_int j * 2 powi ulp_exp x" for j
  proof -
    have "x / 2 powi ulp_exp x = of_int j" by (subst that) simp
    then show ?thesis using that by (simp add: rnd_def)
  qed
  have shift: "x = of_int (m * 2 ^ nat (e - k)) * 2 powi k" if "k \<le> e" for k
    unfolding x powi_split [OF that] by simp
  show ?thesis
  proof (cases "\<bar>m\<bar> = 2 ^ 53")
    case True
    define s where "s = sgn m"
    have s: "m = s * 2 ^ 53" using True sgn_mult_abs [of m] by (simp add: s_def)
    have "\<bar>x\<bar> = of_int \<bar>m\<bar> * 2 powi e" unfolding x by (simp add: abs_mult)
    also have "\<dots> = 2 powi (e + 53)" unfolding True by (simp add: power_int_add)
    finally have ax: "\<bar>x\<bar> = 2 powi (e + 53)" .
    have "\<bar>x\<bar> < 2 powi (e + 1 + 53)" unfolding ax by (rule power_int_strict_increasing) simp_all
    then have "ulp_exp x \<le> e + 1" by (rule ulp_exp_least) (use e False in simp_all)
    then have p: "(2 :: rat) powi (e + 1) = 2 ^ nat (e + 1 - ulp_exp x) * 2 powi ulp_exp x" by (rule powi_split)
    have "x = of_int (s * 2 ^ 52) * 2 powi (e + 1)"
      unfolding x s by (simp add: power_int_add)
    then have "x = of_int (s * 2 ^ 52 * 2 ^ nat (e + 1 - ulp_exp x)) * 2 powi ulp_exp x"
      unfolding p by simp
    then show ?thesis by (rule grid)
  next
    case less: False
    have "of_int \<bar>m\<bar> < (of_int (2 ^ 53) :: rat)" unfolding of_int_less_iff using less m by simp
    then have "\<bar>x\<bar> < 2 ^ 53 * 2 powi e" unfolding x by (simp add: abs_mult)
    also have "\<dots> = 2 powi (e + 53)" by (simp add: power_int_add)
    finally have "ulp_exp x \<le> e" by (rule ulp_exp_least) (use e False in simp_all)
    then show ?thesis by (rule grid [OF shift])
  qed
qed simp

lemma rnd_repr: obtains m where "rnd x = of_int m * 2 powi ulp_exp x" "\<bar>m\<bar> \<le> 2 ^ 53"
proof (cases "x = 0")
  case True
  then show ?thesis using that [of 0] by simp
next
  case False
  have "\<bar>x / 2 powi ulp_exp x\<bar> = \<bar>x\<bar> / 2 powi ulp_exp x" by (simp add: abs_divide)
  also have "\<dots> \<le> 2 powi (ulp_exp x + 53) / 2 powi ulp_exp x"
    using ulp_exp_bounds(1) [OF False] by (simp add: divide_right_mono)
  also have "\<dots> = of_int (2 ^ 53)" by (simp add: power_int_add)
  finally have "\<bar>round_even (x / 2 powi ulp_exp x)\<bar> \<le> 2 ^ 53" by (rule round_even_abs_le)
  then show ?thesis using that by (simp add: rnd_def)
qed

lemma is_double_rnd [simp]: "is_double (rnd x)"
proof -
  obtain m where m: "rnd x = of_int m * 2 powi ulp_exp x" "\<bar>m\<bar> \<le> 2 ^ 53" by (rule rnd_repr)
  show ?thesis unfolding is_double_def by (rule rnd_grid [OF m(1) ulp_exp_ge m(2)])
qed

lemma is_double_grid: "is_double x \<Longrightarrow> \<exists>m k. x = of_int m * 2 powi k \<and> \<bar>m\<bar> \<le> 2 ^ 53 \<and> - 1074 \<le> k"
proof -
  assume x: "is_double x"
  obtain m where m: "rnd x = of_int m * 2 powi ulp_exp x" "\<bar>m\<bar> \<le> 2 ^ 53" by (rule rnd_repr)
  have "x = of_int m * 2 powi ulp_exp x" by (rule trans [OF x [unfolded is_double_def, symmetric] m(1)])
  with m(2) ulp_exp_ge show ?thesis by blast
qed

lemma is_double_uminus: "is_double x \<Longrightarrow> is_double (- x)"
proof -
  assume "is_double x"
  then obtain m k where x: "x = of_int m * 2 powi k" "\<bar>m\<bar> \<le> 2 ^ 53" "- 1074 \<le> k"
    using is_double_grid by blast
  have "rnd (- x) = - x" by (rule rnd_grid [of _ "- m" k]) (use x in simp_all)
  then show ?thesis by (simp only: is_double_def)
qed

text \<open>Both parts of a double, the whole and the fraction, are doubles.\<close>

lemma trunc_range: "\<bar>of_int (trunc x)\<bar> \<le> \<bar>x\<bar>" "\<bar>x - of_int (trunc x)\<bar> \<le> \<bar>x\<bar>" "\<bar>x - of_int (trunc x)\<bar> < 1"
proof -
  have floor: "0 \<le> (of_int \<lfloor>y\<rfloor> :: rat) \<and> of_int \<lfloor>y\<rfloor> \<le> y \<and> y - of_int \<lfloor>y\<rfloor> < 1" if "0 \<le> y" for y :: rat
    using that by (simp, linarith)
  have parts: "\<bar>of_int (trunc x)\<bar> = (of_int \<lfloor>\<bar>x\<bar>\<rfloor> :: rat) \<and> \<bar>x - of_int (trunc x)\<bar> = \<bar>x\<bar> - of_int \<lfloor>\<bar>x\<bar>\<rfloor>"
  proof (cases "x < 0")
    case True
    define y where "y = - x"
    have y: "x = - y" "0 \<le> y" "trunc x = - \<lfloor>y\<rfloor>" using True by (simp_all add: y_def trunc_def)
    have "x - of_int (trunc x) = - (y - of_int \<lfloor>y\<rfloor>)" unfolding y(3) by (simp add: y(1))
    then show ?thesis unfolding y(3) using floor [OF y(2)] by (simp only: y(1) abs_minus_cancel abs_of_nonneg of_int_minus y(2) diff_ge_0_iff_ge)
  next
    case False
    then show ?thesis using floor [of x] by (simp add: trunc_def)
  qed
  show "\<bar>of_int (trunc x)\<bar> \<le> \<bar>x\<bar>" "\<bar>x - of_int (trunc x)\<bar> \<le> \<bar>x\<bar>" "\<bar>x - of_int (trunc x)\<bar> < 1"
    unfolding parts [THEN conjunct1] parts [THEN conjunct2] using floor [of "\<bar>x\<bar>"] by (simp, linarith, linarith)
qed

lemma trunc_sign: "x < 0 \<Longrightarrow> x - of_int (trunc x) \<le> 0" "0 \<le> x \<Longrightarrow> 0 \<le> x - of_int (trunc x)"
  by (simp_all add: trunc_def) linarith

lemma double_part:
  assumes "is_double x" and j: "\<bar>of_int j\<bar> \<le> \<bar>x\<bar>" "\<bar>x - of_int j\<bar> \<le> \<bar>x\<bar>" "\<bar>x - of_int j\<bar> < 1"
  shows "rnd (of_int j) = of_int j" "rnd (x - of_int j) = x - of_int j"
proof -
  obtain m k where x: "x = of_int m * 2 powi k" and m: "\<bar>m\<bar> \<le> 2 ^ 53" and k: "- 1074 \<le> k"
    using is_double_grid [OF assms(1)] by blast
  have part: "rnd y = y" if "y = of_int i * 2 powi k" "\<bar>y\<bar> \<le> \<bar>x\<bar>" for i y
  proof -
    have "of_int \<bar>i\<bar> \<le> (of_int \<bar>m\<bar> :: rat)" using that x by (simp add: abs_mult)
    then have "\<bar>i\<bar> \<le> 2 ^ 53" using m unfolding of_int_le_iff by simp
    then show ?thesis using rnd_grid [OF that(1) k] by simp
  qed
  consider "0 \<le> k" | "k < 0" by linarith
  then have "rnd (of_int j) = of_int j \<and> rnd (x - of_int j) = x - of_int j"
  proof cases
    case 1
    then have d: "x - of_int j = of_int (m * 2 ^ nat k - j)" by (simp add: x powi_int_exp)
    with j(3) have "of_int \<bar>m * 2 ^ nat k - j\<bar> < (of_int 1 :: rat)" by (simp only: of_int_abs of_int_1)
    then have "m * 2 ^ nat k - j = 0" unfolding of_int_less_iff by linarith
    with d have "x = of_int j" by (simp only: of_int_0 right_minus_eq)
    then show ?thesis using assms(1) by (simp add: is_double_def)
  next
    case 2
    then have one: "(1 :: rat) = of_int (2 ^ nat (- k)) * 2 powi k"
      using powi_split [of k 0] by simp
    have "of_int j = of_int (j * 2 ^ nat (- k)) * (2 :: rat) powi k"
      using arg_cong [OF one, of "\<lambda>y. of_int j * y"] by (simp add: mult.assoc)
    moreover from this have "x - of_int j = of_int (m - j * 2 ^ nat (- k)) * 2 powi k"
      unfolding x by (simp add: algebra_simps)
    ultimately show ?thesis using part j(1,2) by blast
  qed
  then show "rnd (of_int j) = of_int j" "rnd (x - of_int j) = x - of_int j" by simp_all
qed

lemmas double_trunc = double_part [OF _ trunc_range]

section \<open>The next decimal\<close>

lemma rnd_near: "x \<noteq> 0 \<Longrightarrow> \<bar>x\<bar> < 2 powi (e + 53) \<Longrightarrow> - 1074 \<le> e \<Longrightarrow> \<bar>rnd x - x\<bar> \<le> 2 powi e / 2"
proof -
  assume x: "x \<noteq> 0" "\<bar>x\<bar> < 2 powi (e + 53)" "- 1074 \<le> e"
  let ?u = "2 powi ulp_exp x :: rat"
  have "rnd x - x = (of_int (round_even (x / ?u)) - x / ?u) * ?u"
    unfolding rnd_def by (simp add: left_diff_distrib)
  then have "\<bar>rnd x - x\<bar> = \<bar>of_int (round_even (x / ?u)) - x / ?u\<bar> * ?u" by (simp add: abs_mult)
  also have "\<dots> \<le> 1 / 2 * ?u" by (rule mult_right_mono [OF round_even_near]) simp
  also have "?u \<le> 2 powi e" by (rule powi_mono, rule ulp_exp_least) (use x in simp_all)
  finally show ?thesis by simp
qed

text \<open>Ten times a fraction rounds to something below ten.\<close>

lemma fraction_top:
  assumes "is_double x" and "x < 1"
  shows "x \<le> 1 - 1 / 2 ^ 53"
proof (cases "x < 1 / 2")
  case False
  obtain m where "rnd x = of_int m * 2 powi ulp_exp x" by (rule rnd_repr)
  then have m: "x = of_int m * 2 powi ulp_exp x" by (rule trans [OF assms(1) [unfolded is_double_def, symmetric]])
  have u: "ulp_exp x = - 53" by (rule ulp_exp_eq) (use assms(2) False in simp_all)
  have x: "x = of_int m / 2 ^ 53" using m unfolding u by (simp add: power_int_minus)
  with assms(2) have "of_int m < (of_int (2 ^ 53) :: rat)" by simp
  then have "m \<le> 2 ^ 53 - 1" unfolding of_int_less_iff by simp
  then have "(of_int m :: rat) \<le> of_int (2 ^ 53 - 1)" by (simp only: of_int_le_iff)
  then show ?thesis unfolding x by simp
qed simp

lemma rnd_nonneg: "0 \<le> x \<Longrightarrow> 0 \<le> rnd x"
  unfolding rnd_def by (intro mult_nonneg_nonneg) (simp_all add: round_even_nonneg)

lemma next_decimal_less:
  assumes "is_double x" and "0 \<le> x" and "x < 1"
  shows "rnd (x * 10) < 10"
proof (cases "x * 10 < 8")
  case True
  show ?thesis
  proof (cases "x = 0")
    case False
    have "\<bar>rnd (x * 10) - x * 10\<bar> \<le> 2 powi (- 50) / 2"
      by (rule rnd_near) (use True False assms(2) in simp_all)
    also have "\<dots> \<le> 1" by simp
    finally show ?thesis using True by linarith
  qed simp
next
  case False
  let ?y = "x * 10"
  have top: "?y \<le> 10 - 10 / 2 ^ 53" using fraction_top [OF assms(1,3)] by simp
  have u: "ulp_exp ?y = - 49" by (rule ulp_exp_eq) (use top False in simp_all)
  have "?y / 2 powi (- 49) \<le> (10 - 10 / 2 ^ 53) * 2 ^ 49"
    using top by (simp add: power_int_minus)
  then have "?y / 2 powi (- 49) < of_int (10 * 2 ^ 49) - 1 / 2" by simp
  then have "round_even (?y / 2 powi (- 49)) \<le> 10 * 2 ^ 49 - 1" by (rule round_even_less)
  then have "(of_int (round_even (?y / 2 powi (- 49))) :: rat) \<le> of_int (10 * 2 ^ 49 - 1)"
    by (simp only: of_int_le_iff)
  then show ?thesis unfolding rnd_def u by (simp add: power_int_minus)
qed

text \<open>The digits of a fraction, as repeated multiplication by ten gives them.\<close>

primrec decimals :: "nat \<Rightarrow> rat \<Rightarrow> nat list" where
  "decimals 0 x = []"
| "decimals (Suc n) x = (let y = rnd (x * 10) in nat \<lfloor>y\<rfloor> # decimals n (y - of_int \<lfloor>y\<rfloor>))"

definition fraction :: "rat \<Rightarrow> bool" where
  "fraction x \<longleftrightarrow> is_double x \<and> 0 \<le> x \<and> x < 1"

lemma next_decimal:
  assumes "fraction x"
  defines "y \<equiv> rnd (x * 10)"
  shows "0 \<le> y" "0 \<le> \<lfloor>y\<rfloor>" "\<lfloor>y\<rfloor> < 10" "trunc y = \<lfloor>y\<rfloor>"
    "rnd (y - of_int \<lfloor>y\<rfloor>) = y - of_int \<lfloor>y\<rfloor>" "fraction (y - of_int \<lfloor>y\<rfloor>)" "\<bar>y - x * 10\<bar> \<le> 1 / 2 ^ 50"
proof -
  have x: "is_double x" "0 \<le> x" "x < 1" using assms(1) by (simp_all add: fraction_def)
  show y: "0 \<le> y" unfolding y_def by (rule rnd_nonneg) (use x in simp)
  then show "0 \<le> \<lfloor>y\<rfloor>" by simp
  show "\<lfloor>y\<rfloor> < 10" using next_decimal_less [OF x] unfolding y_def by linarith
  show t: "trunc y = \<lfloor>y\<rfloor>" using y by (simp add: trunc_def)
  have d: "is_double y" unfolding y_def by (rule is_double_rnd)
  show r: "rnd (y - of_int \<lfloor>y\<rfloor>) = y - of_int \<lfloor>y\<rfloor>" using double_trunc(2) [OF d] unfolding t .
  have "0 \<le> y - of_int \<lfloor>y\<rfloor>" "y - of_int \<lfloor>y\<rfloor> < 1" by linarith+
  with r show "fraction (y - of_int \<lfloor>y\<rfloor>)" by (simp only: fraction_def is_double_def)
  show "\<bar>y - x * 10\<bar> \<le> 1 / 2 ^ 50"
  proof (cases "x = 0")
    case False
    have "\<bar>rnd (x * 10) - x * 10\<bar> \<le> 2 powi (- 49) / 2" by (rule rnd_near) (use x False in simp_all)
    then show ?thesis unfolding y_def by (simp add: power_int_minus)
  qed (simp add: y_def)
qed

lemma decimals_length [simp]: "length (decimals n x) = n"
  by (induction n arbitrary: x) (simp_all add: Let_def)

lemma decimals_less: "fraction x \<Longrightarrow> d \<in> set (decimals n x) \<Longrightarrow> d < 10"
proof (induction n arbitrary: x)
  case (Suc n)
  note step = next_decimal [OF Suc.prems(1)]
  have "nat \<lfloor>rnd (x * 10)\<rfloor> < 10" using step(2,3) by linarith
  with Suc.IH [OF step(6)] Suc.prems(2) show ?case by (auto simp: Let_def)
qed simp

text \<open>What the digits say: their value over the power of ten.\<close>

primrec decimal_value :: "nat list \<Rightarrow> rat" where
  "decimal_value [] = 0"
| "decimal_value (d # ds) = (of_nat d + decimal_value ds) / 10"

lemma decimals_near:
  assumes "a = 1 / (9 * 2 ^ 50)"
  shows "fraction x \<Longrightarrow> - a \<le> x - decimal_value (decimals n x) \<and> x - decimal_value (decimals n x) < 1 / 10 ^ n + a"
proof (induction n arbitrary: x)
  case 0
  then show ?case using assms by (simp add: fraction_def)
next
  case (Suc n)
  define y where "y = rnd (x * 10)"
  define v where "v = decimal_value (decimals n (y - of_int \<lfloor>y\<rfloor>))"
  define p where "p = (1 :: rat) / 10 ^ n"
  note step = next_decimal [OF Suc.prems, folded y_def]
  have v: "decimal_value (decimals (Suc n) x) = (of_int \<lfloor>y\<rfloor> + v) / 10"
    using step(2) by (simp add: Let_def y_def [symmetric] v_def of_nat_nat)
  have ih: "- a \<le> y - of_int \<lfloor>y\<rfloor> - v" "y - of_int \<lfloor>y\<rfloor> - v < p + a"
    using Suc.IH [OF step(6)] by (simp_all add: v_def p_def)
  have "1 / 2 ^ 50 = 9 * a" using assms by simp
  then have near: "y - x * 10 \<le> 9 * a" "- (y - x * 10) \<le> 9 * a" using step(7) unfolding abs_le_iff by simp_all
  have p: "1 / 10 ^ Suc n = p / 10" by (simp add: p_def)
  have "- a \<le> x - (of_int \<lfloor>y\<rfloor> + v) / 10" using ih(1) near by (simp add: field_simps)
  moreover have "x - (of_int \<lfloor>y\<rfloor> + v) / 10 < p / 10 + a" using ih(2) near by (simp add: field_simps)
  ultimately show ?case unfolding v p by blast
qed

text \<open>With at most 50 bits behind the point nothing is rounded, and the digits are the truncated expansion.\<close>

lemma decimals_exact:
  assumes "fraction x" and "x * 2 ^ 50 = of_int m"
  shows "decimal_value (decimals n x) = of_int \<lfloor>x * 10 ^ n\<rfloor> / 10 ^ n"
  using assms
proof (induction n arbitrary: x m)
  case 0
  then have "\<lfloor>x\<rfloor> = 0" by (simp add: fraction_def floor_eq_iff)
  then show ?case by simp
next
  case (Suc n)
  define y where "y = rnd (x * 10)"
  note step = next_decimal [OF Suc.prems(1), folded y_def]
  have m: "\<bar>5 * m\<bar> \<le> 2 ^ 53"
  proof -
    have "0 \<le> x * 2 ^ 50" "x * 2 ^ 50 < 2 ^ 50" using Suc.prems(1) by (simp_all add: fraction_def)
    then have "0 \<le> (of_int m :: rat)" "of_int m < (of_int (2 ^ 50) :: rat)" unfolding Suc.prems(2) by simp_all
    then have "0 \<le> m" "m < 2 ^ 50" by (simp_all only: of_int_less_iff of_int_0_le_iff)
    then show ?thesis by simp
  qed
  have grid: "x * 10 = of_int (5 * m) * 2 powi (- 49)"
    using Suc.prems(2) by (simp add: power_int_minus field_simps)
  have y: "y = x * 10" unfolding y_def by (rule rnd_grid [OF grid _ m]) simp
  define f where "f = y - of_int \<lfloor>y\<rfloor>"
  have f: "f * 2 ^ 50 = of_int (10 * m - \<lfloor>y\<rfloor> * 2 ^ 50)"
    using Suc.prems(2) unfolding f_def y by (simp add: algebra_simps)
  have "\<lfloor>x * 10 ^ Suc n\<rfloor> = \<lfloor>f * 10 ^ n + of_int (\<lfloor>y\<rfloor> * 10 ^ n)\<rfloor>"
    by (rule arg_cong [where f = floor]) (simp add: f_def y algebra_simps)
  also have "\<dots> = \<lfloor>f * 10 ^ n\<rfloor> + \<lfloor>y\<rfloor> * 10 ^ n" by (rule floor_add_int [symmetric])
  finally have fl: "\<lfloor>x * 10 ^ Suc n\<rfloor> = \<lfloor>f * 10 ^ n\<rfloor> + \<lfloor>y\<rfloor> * 10 ^ n" .
  have "decimal_value (decimals (Suc n) x) = (of_int \<lfloor>y\<rfloor> + decimal_value (decimals n f)) / 10"
    using step(2) by (simp add: Let_def y_def [symmetric] f_def of_nat_nat)
  also have "decimal_value (decimals n f) = of_int \<lfloor>f * 10 ^ n\<rfloor> / 10 ^ n"
    by (rule Suc.IH [OF _ f]) (use step(6) in \<open>simp add: f_def\<close>)
  finally show ?case unfolding fl by (simp add: field_simps)
qed

end
