(* ===== verification/ConsoleFloat.thy ===== *)
theory ConsoleFloat
  imports ConsoleCorrect FmtNumbers Doubles
begin

text \<open>
  Printing a \<open>double\<close>, the last two functions of \<open>conlib.c\<close>. The argument is a finite value (converting
  an infinity or a NaN to \<open>long\<close> is undefined, like converting a value that does not fit); every operation
  on it is rounded where C rounds it.
\<close>

section \<open>The functions\<close>

text \<open>\<open>while (n--)\<close>, with the fraction, the buffer and \<open>cp\<close>. Each round stores one character.\<close>

function ftoan_digits :: "int \<Rightarrow> rat \<Rightarrow> u8 list \<Rightarrow> nat \<Rightarrow> (u8 list \<times> nat) res" where
  "ftoan_digits n v buff cp =
     (if n = 0 then Inr (buff, cp)
      else rbind (c_int (n - 1)) (\<lambda>n.
           let v = rnd (v * 10)
           in rbind (c_int (trunc v)) (\<lambda>digit.
              rbind (c_int (48 + digit)) (\<lambda>c.
              rbind (wr buff cp (word_of_int c)) (\<lambda>buff.
                ftoan_digits n (rnd (v - of_int digit)) buff (cp + 1))))))"
  by pat_completeness auto
termination
  by (relation "measure (\<lambda>(n, v, buff, cp). length buff - cp)") (auto simp: wr_def split: if_splits)

declare ftoan_digits.simps [simp del]

definition ftoan :: "rat \<Rightarrow> u8 list \<Rightarrow> nat \<Rightarrow> int \<Rightarrow> u8 list res" where
  "ftoan v buff off n =
     rbind (c_llong (trunc v)) (\<lambda>int_part.
     let v = rnd (v - rnd (of_int int_part))
     in rbind (con_itoas int_part buff off 10) (\<lambda>buff.
        let v = (if v < 0 then - v else v)
        in rbind (strlen buff off) (\<lambda>len.
           let cp = off + unat len
           in rbind (wr buff cp 46) (\<lambda>buff.
              rbind (ftoan_digits n v buff (cp + 1)) (\<lambda>(buff, cp).
                wr buff cp 0)))))"

definition ftoa :: "rat \<Rightarrow> u8 list \<Rightarrow> nat \<Rightarrow> u8 list res" where
  "ftoa v buff off = ftoan v buff off 8"

section \<open>The digits\<close>

lemma ftoan_digits_result:
  assumes "fraction x" and "int n \<le> INT_MAX" and "cp \<le> length buff"
  shows "ftoan_digits (int n) x buff cp =
    (if cp + n \<le> length buff
     then Inr (take cp buff @ map (\<lambda>d. byte (48 + int d)) (decimals n x) @ drop (cp + n) buff, cp + n)
     else Inl OutOfBounds)"
  using assms
proof (induction n arbitrary: x buff cp)
  case 0
  then show ?case by (simp add: ftoan_digits.simps [of 0])
next
  case (Suc n)
  define y where "y = rnd (x * 10)"
  define d where "d = \<lfloor>y\<rfloor>"
  note step = next_decimal [OF Suc.prems(1), folded y_def, folded d_def]
  have ok: "c_int (int n) = Inr (int n)" "c_int d = Inr d" "c_int (48 + d) = Inr (48 + d)"
    using Suc.prems(2) step(2,3) by (simp_all add: c_int_def INT_MIN_def INT_MAX_def)
  have run: "ftoan_digits (int (Suc n)) x buff cp =
      rbind (wr buff cp (byte (48 + d))) (\<lambda>buff. ftoan_digits (int n) (y - of_int d) buff (Suc cp))"
    by (subst ftoan_digits.simps) (simp add: y_def [symmetric] Let_def ok step(4,5) byte_def)
  have dec: "decimals (Suc n) x = nat d # decimals n (y - of_int d)"
    by (simp add: Let_def y_def [symmetric] d_def [symmetric])
  show ?case
  proof (cases "cp < length buff")
    case False
    then show ?thesis unfolding run by simp
  next
    case True
    let ?b = "take cp buff @ byte (48 + d) # drop (Suc cp) buff"
    have upd: "buff[cp := byte (48 + d)] = ?b" using True by (rule upd_conv_take_nth_drop)
    have ih: "ftoan_digits (int n) (y - of_int d) ?b (Suc cp) =
        (if Suc cp + n \<le> length ?b
         then Inr (take (Suc cp) ?b @ map (\<lambda>d. byte (48 + int d)) (decimals n (y - of_int d)) @ drop (Suc cp + n) ?b,
           Suc cp + n)
         else Inl OutOfBounds)"
      by (rule Suc.IH [OF step(6)]) (use Suc.prems(2) True in simp_all)
    show ?thesis unfolding run dec using True step(2) by (auto simp: upd ih add.commute [of cp n])
  qed
qed

section \<open>The whole part\<close>

lemma con_itoa_utoa: "con_itoa num buff off base = utoa num buff off base"
  by (simp add: con_itoa_def utoa_def itoa_digits_eq)

definition signed_text :: "int \<Rightarrow> u8 list" where
  "signed_text t = (if t < 0 then 45 # digit_bytes (nat (- t)) else digit_bytes (nat t))"

lemma digit_bytes_nonzero: "0 \<notin> set (digit_bytes n)"
proof
  assume "0 \<in> set (digit_bytes n)"
  then obtain d where d: "d \<in> set (digits 10 n)" "byte (digit_char True d) = 0" by (auto simp: digit_bytes_def)
  then have "d < 16" using digits_less [of 10 d n] by simp
  with digit_char_range [of d True] byte_nonzero d(2) show False by auto
qed

lemma signed_text_nonzero: "0 \<notin> set (signed_text t)"
  using digit_bytes_nonzero by (auto simp: signed_text_def)

lemma signed_text_length:
  assumes "LLONG_MIN < t" and "t \<le> LLONG_MAX"
  shows "length (signed_text t) \<le> 64"
proof -
  have "nat \<bar>t\<bar> < 10 ^ 63" using assms by (simp add: nat_less_iff LLONG_MIN_def LLONG_MAX_def)
  then have "length (digits 10 (nat \<bar>t\<bar>)) \<le> 63" by (intro digits_length_le) simp_all
  then show ?thesis by (cases "t < 0") (simp_all add: signed_text_def digit_bytes_def)
qed

text \<open>The numeral of any base, with its sign.\<close>

definition based_text :: "nat \<Rightarrow> int \<Rightarrow> u8 list" where
  "based_text base t = (if t < 0 then [45] else []) @ map (\<lambda>d. byte (digit_char True d)) (digits base (nat \<bar>t\<bar>))"

lemma signed_text_based: "signed_text t = based_text 10 t"
  by (simp add: signed_text_def based_text_def digit_bytes_def)

definition stored_text :: "u8 list \<Rightarrow> nat \<Rightarrow> u8 list \<Rightarrow> u8 list res" where
  "stored_text buff off w =
     (if off + length w < length buff
      then Inr (take off buff @ w @ 0 # drop (Suc (off + length w)) buff) else Inl OutOfBounds)"

lemma con_itoas_based:
  assumes base: "2 \<le> base" "base \<le> 16" and t: "LLONG_MIN < t" "t \<le> LLONG_MAX"
  shows "con_itoas t buff off (int base) = stored_text buff off (based_text base t)"
proof -
  have small: "unat (word_of_int k :: u64) = nat k" if "0 \<le> k" "k \<le> LLONG_MAX" for k
    using that by (simp add: unsigned_of_int take_bit_int_eq_self LLONG_MAX_def)
  have num: "utoa (word_of_int k) buff off (int base) = stored_text buff off (based_text base k)"
    if "0 \<le> k" "k \<le> LLONG_MAX" for k off
    using utoa_result [OF base, of "word_of_int k" buff off] small [OF that] that
    by (simp add: Let_def based_text_def stored_text_def)
  show ?thesis
  proof (cases "t < 0")
    case False
    then show ?thesis using num [of t off] t by (simp add: con_itoas_def con_itoa_utoa)
  next
    case True
    have "c_llong (- t) = Inr (- t)" using t True by (simp add: c_llong_def LLONG_MIN_def LLONG_MAX_def)
    then have "con_itoas t buff off (int base) =
        rbind (utoa (word_of_int (- t)) buff (Suc off) (int base)) (\<lambda>b. wr b off 45)"
      using True by (simp add: con_itoas_def con_itoa_utoa)
    moreover have "utoa (word_of_int (- t)) buff (Suc off) (int base) = stored_text buff (Suc off) (based_text base (- t))"
      by (rule num) (use t True in \<open>simp_all add: LLONG_MIN_def LLONG_MAX_def\<close>)
    moreover have "take (Suc off) buff @ r = take off buff @ buff ! off # r" if "off < length buff" for r
      using that by (simp add: take_Suc_conv_app_nth)
    ultimately show ?thesis
      using True by (auto simp: based_text_def stored_text_def list_update_append)
  qed
qed

lemma con_itoas_result:
  assumes "LLONG_MIN < t" and "t \<le> LLONG_MAX"
  shows "con_itoas t buff off 10 = stored_text buff off (signed_text t)"
  using con_itoas_based [OF _ _ assms, of 10] by (simp add: signed_text_based)

text \<open>C29. For every base from 2 to 16 \<open>itoas\<close> writes the numeral of its argument, a sign before it if it is
  negative, with the digits of the positional value and no leading zero, ends it with a zero byte and leaves
  the rest of the buffer; a buffer too short is run over, and the least \<open>long\<close> overflows.\<close>

theorem itoas_numeral:
  assumes "2 \<le> base" and "base \<le> 16" and "LLONG_MIN \<le> num" and "num \<le> LLONG_MAX"
  shows "\<exists>ds. numeral_value base ds = nat \<bar>num\<bar> \<and> (\<forall>d\<in>set ds. d < base) \<and> (1 < length ds \<longrightarrow> hd ds \<noteq> 0) \<and>
    ds \<noteq> [] \<and> con_itoas num buff off (int base) =
      (let w = (if num < 0 then [45] else []) @ map (\<lambda>d. word_of_int (if d < 10 then 48 + int d else 55 + int d)) ds
       in if num = LLONG_MIN then Inl SignedOverflow
          else if off + length w < length buff
          then Inr (take off buff @ w @ 0 # drop (Suc (off + length w)) buff) else Inl OutOfBounds)"
proof (intro exI conjI)
  let ?ds = "digits base (nat \<bar>num\<bar>)"
  show "numeral_value base ?ds = nat \<bar>num\<bar>" by (rule digits_value [OF assms(1)])
  show "\<forall>d\<in>set ?ds. d < base" using digits_less [OF assms(1)] by blast
  show "1 < length ?ds \<longrightarrow> hd ?ds \<noteq> 0"
  proof
    assume "1 < length ?ds"
    then have "base \<le> nat \<bar>num\<bar>" by (subst (asm) digits.simps) (auto split: if_splits)
    then show "hd ?ds \<noteq> 0" by (rule digits_leading [OF assms(1)])
  qed
  show "?ds \<noteq> []" by simp
  show "con_itoas num buff off (int base) =
      (let w = (if num < 0 then [45] else []) @ map (\<lambda>d. word_of_int (if d < 10 then 48 + int d else 55 + int d)) ?ds
       in if num = LLONG_MIN then Inl SignedOverflow
          else if off + length w < length buff
          then Inr (take off buff @ w @ 0 # drop (Suc (off + length w)) buff) else Inl OutOfBounds)"
  proof (cases "num = LLONG_MIN")
    case True
    then show ?thesis by (simp add: con_itoas_def c_llong_def LLONG_MIN_def LLONG_MAX_def)
  next
    case False
    have "map (\<lambda>d. word_of_int (if d < 10 then 48 + int d else 55 + int d)) ?ds =
        map (\<lambda>d. byte (digit_char True d)) ?ds"
      by (simp add: byte_def digit_char_def algebra_simps)
    then have w: "(if num < 0 then [45] else []) @ map (\<lambda>d. word_of_int (if d < 10 then 48 + int d else 55 + int d)) ?ds =
        based_text base num" by (simp add: based_text_def)
    show ?thesis
      unfolding w Let_def if_not_P [OF False] stored_text_def [symmetric]
      by (rule con_itoas_based [OF assms(1,2)]) (use False assms in simp_all)
  qed
qed

theorem itoas_numeral_witness:
  "con_itoas (- 255) (replicate 8 7) 2 16 = Inr [7, 7, 45, 70, 70, 0, 7, 7]"
proof -
  obtain ds where v: "numeral_value 16 ds = 255" "\<forall>d\<in>set ds. d < 16" "1 < length ds \<longrightarrow> hd ds \<noteq> 0" "ds \<noteq> []"
    and run: "con_itoas (- 255) (replicate 8 7) 2 16 =
      (let w = 45 # map (\<lambda>d. word_of_int (if d < 10 then 48 + int d else 55 + int d)) ds
       in if 2 + length w < 8
          then Inr (take 2 (replicate 8 7) @ w @ 0 # drop (Suc (2 + length w)) (replicate 8 7)) else Inl OutOfBounds)"
    using itoas_numeral [of 16 "- 255" "replicate 8 7" 2] by (auto simp: LLONG_MIN_def LLONG_MAX_def)
  have "ds = digits 16 255" using digits_numeral_value [of 16 ds] v by simp
  also have "\<dots> = [15, 15]" by (simp add: digits.simps [of 16])
  finally show ?thesis unfolding run by (simp add: Let_def numeral_eq_Suc)
qed

section \<open>The text\<close>

lemma trunc_llong:
  assumes "\<bar>v\<bar> < 2 ^ 63"
  shows "LLONG_MIN < trunc v" "trunc v \<le> LLONG_MAX"
proof -
  have "of_int \<bar>trunc v\<bar> < (of_int (2 ^ 63) :: rat)" using trunc_range(1) [of v] assms by simp
  then have "\<bar>trunc v\<bar> < 2 ^ 63" by (simp only: of_int_less_iff)
  then show "LLONG_MIN < trunc v" "trunc v \<le> LLONG_MAX" by (simp_all add: LLONG_MIN_def LLONG_MAX_def)
qed

lemma double_fraction:
  assumes "is_double v"
  shows "fraction \<bar>v - of_int (trunc v)\<bar>"
proof -
  have neg: "rnd (- y) = - y" if "rnd y = y" for y
    using is_double_uminus that by (simp add: is_double_def)
  have "rnd \<bar>y\<bar> = \<bar>y\<bar>" if "rnd y = y" for y
    using that neg [OF that] by (cases "y < 0") simp_all
  then have "rnd \<bar>v - of_int (trunc v)\<bar> = \<bar>v - of_int (trunc v)\<bar>" using double_trunc(2) [OF assms] by blast
  then show ?thesis using trunc_range(3) by (simp add: fraction_def is_double_def)
qed

lemma ftoan_result:
  assumes "is_double v" and "\<bar>v\<bar> < 2 ^ 63" and "int n \<le> INT_MAX"
  shows "ftoan v buff off (int n) =
    (let w = signed_text (trunc v) @ 46 # map (\<lambda>d. byte (48 + int d)) (decimals n \<bar>v - of_int (trunc v)\<bar>)
     in if off + length w < length buff
        then Inr (take off buff @ w @ 0 # drop (Suc (off + length w)) buff)
        else Inl OutOfBounds)"
proof -
  let ?w = "signed_text (trunc v)" and ?x = "\<bar>v - of_int (trunc v)\<bar>"
  let ?k = "off + length ?w"
  note t = trunc_llong [OF assms(2)]
  have conv: "rnd (v - rnd (of_int (trunc v))) = v - of_int (trunc v)"
    using double_trunc [OF assms(1)] by simp
  have flip: "(if y < 0 then - y else y) = \<bar>y\<bar>" for y :: rat by simp
  let ?tail = "\<lambda>b. rbind (strlen b off) (\<lambda>len. let cp = off + unat len in
      rbind (wr b cp 46) (\<lambda>b. rbind (ftoan_digits (int n) ?x b (cp + 1)) (\<lambda>(b, cp). wr b cp 0)))"
  have "ftoan v buff off (int n) = rbind (con_itoas (trunc v) buff off 10) ?tail"
    unfolding ftoan_def using t by (simp add: conv flip Let_def)
  also have "\<dots> = (if ?k < length buff
      then ?tail (take off buff @ ?w @ 0 # drop (Suc ?k) buff) else Inl OutOfBounds)"
    unfolding con_itoas_result [OF t] stored_text_def by (simp add: Let_def)
  finally have run: "ftoan v buff off (int n) = \<dots>" .
  show ?thesis
  proof (cases "?k < length buff")
    case False
    then show ?thesis unfolding run by simp
  next
    case True
    let ?b = "take off buff @ ?w @ 0 # drop (Suc ?k) buff"
    let ?c = "take off buff @ ?w @ 46 # drop (Suc ?k) buff"
    have len: "length ?b = length buff" using True by simp
    have "cstr ?b off ?w" unfolding cstr_def using True signed_text_nonzero by auto
    then have "strlen ?b off = Inr (of_nat (length ?w))" by (rule strlen_cstr)
    moreover have "unat (of_nat (length ?w) :: u64) = length ?w"
      using signed_text_length [OF t] by (simp add: unat_of_nat_small)
    moreover have "?b[?k := 46] = ?c"
      using True by (simp add: list_update_append)
    moreover have "ftoan_digits (int n) ?x ?c (Suc ?k) =
        (if Suc ?k + n \<le> length buff
         then Inr (take off buff @ ?w @ 46 # map (\<lambda>d. byte (48 + int d)) (decimals n ?x) @ drop (Suc ?k + n) buff, Suc ?k + n)
         else Inl OutOfBounds)"
    proof -
      have c: "length ?c = length buff" "take (Suc ?k) ?c = take off buff @ ?w @ [46]"
        "drop (Suc ?k + n) ?c = drop (Suc ?k + n) buff"
        using True by (simp_all add: ac_simps)
      have "Suc ?k \<le> length ?c" unfolding c using True by simp
      from ftoan_digits_result [OF double_fraction [OF assms(1)] assms(3) this] show ?thesis
        unfolding c by simp
    qed
    ultimately have "ftoan v buff off (int n) = (if Suc ?k + n \<le> length buff
         then wr (take off buff @ ?w @ 46 # map (\<lambda>d. byte (48 + int d)) (decimals n ?x) @ drop (Suc ?k + n) buff) (Suc ?k + n) 0
         else Inl OutOfBounds)"
      unfolding run using True len by (simp add: Let_def)
    then show ?thesis
      using True by (auto simp: Let_def list_update_append Cons_nth_drop_Suc [symmetric] add.assoc)
  qed
qed

lemma decimals_within:
  fixes d :: rat
  assumes "- (1 / (9 * 2 ^ 50)) \<le> d \<and> d < p + 1 / (9 * 2 ^ 50)" and "0 < p"
  shows "\<bar>d\<bar> < p + 1 / 2 ^ 53"
proof -
  define e where "e = (1 :: rat) / (9 * 2 ^ 50)"
  have "(1 :: rat) / 2 ^ 53 > e" "0 < e" by (simp_all add: e_def)
  then show ?thesis using assms unfolding e_def [symmetric] abs_less_iff by auto
qed

lemma fraction_bits: "v * 2 ^ 50 \<in> \<int> \<Longrightarrow> \<exists>m. \<bar>v - of_int j\<bar> * 2 ^ 50 = of_int m" for v :: rat
proof -
  assume "v * 2 ^ 50 \<in> \<int>"
  then obtain i where i: "v * 2 ^ 50 = of_int i" by (rule Ints_cases)
  have "\<bar>v - of_int j\<bar> * 2 ^ 50 = \<bar>(v - of_int j) * 2 ^ 50\<bar>"
    by (simp only: abs_mult abs_of_pos [of "2 ^ 50 :: rat"] zero_less_power zero_less_numeral)
  also have "\<dots> = \<bar>of_int i - of_int (j * 2 ^ 50)\<bar>" unfolding left_diff_distrib i by simp
  also have "\<dots> = of_int \<bar>i - j * 2 ^ 50\<bar>" by (simp only: of_int_abs of_int_diff)
  finally show ?thesis by blast
qed

text \<open>A negative count never reaches 0: the characters run out of the buffer first.\<close>

lemma ftoan_digits_negative: "n < 0 \<Longrightarrow> ftoan_digits n v buff cp \<noteq> Inr r"
proof (induction "length buff - cp" arbitrary: n v buff cp rule: less_induct)
  case less
  show ?case
  proof
    assume run: "ftoan_digits n v buff cp = Inr r"
    have "n \<noteq> 0" using less.prems by simp
    with run obtain b v' where "n - 1 < 0" "wr buff cp (word_of_int (48 + trunc (rnd (v * 10)))) = Inr b"
        and rest: "ftoan_digits (n - 1) v' b (Suc cp) = Inr r"
      using less.prems unfolding ftoan_digits.simps [of n v buff cp] by (auto simp: Let_def rbind_eq_Inr c_int_Inr)
    then have "length b - Suc cp < length buff - cp" by (auto simp: wr_def split: if_splits)
    from less.hyps [OF this \<open>n - 1 < 0\<close>] rest show False by blast
  qed
qed

lemma ftoan_negative: "n < 0 \<Longrightarrow> ftoan v buff off n \<noteq> Inr r"
  by (auto simp: ftoan_def Let_def rbind_eq_Inr ftoan_digits_negative)

section \<open>The printed value\<close>

text \<open>C32. \<open>ftoan\<close> stores the whole part with its sign, a point, exactly \<open>n\<close> decimal digits and a final 0,
  if they fit the buffer, and runs over its end otherwise. The digits are within one unit of the last of
  them, and \<open>2 ^ -53\<close>, of the fraction; where the fraction has at most 50 bits nothing is rounded and they
  are its truncated decimal expansion. The sign is the whole part's, so a value between -1 and 0 is
  printed without one.\<close>

theorem ftoan_prints:
  assumes "is_double v" and "\<bar>v\<bar> < 2 ^ 63" and "int n \<le> INT_MAX"
  shows "\<exists>ds. length ds = n \<and> set ds \<subseteq> {..<10} \<and>
    (let w = signed_text (trunc v) @ 46 # map (\<lambda>d. byte (48 + int d)) ds;
         x = \<bar>v - of_int (trunc v)\<bar>
     in ftoan v buff off (int n) =
          (if off + length w < length buff
           then Inr (take off buff @ w @ 0 # drop (Suc (off + length w)) buff)
           else Inl OutOfBounds) \<and>
        \<bar>x - decimal_value ds\<bar> < 1 / 10 ^ n + 1 / 2 ^ 53 \<and>
        (v * 2 ^ 50 \<in> \<int> \<longrightarrow> decimal_value ds = of_int \<lfloor>x * 10 ^ n\<rfloor> / 10 ^ n))"
proof (intro exI [of _ "decimals n \<bar>v - of_int (trunc v)\<bar>"] conjI)
  let ?x = "\<bar>v - of_int (trunc v)\<bar>"
  note f = double_fraction [OF assms(1)]
  show "length (decimals n ?x) = n" by simp
  show "set (decimals n ?x) \<subseteq> {..<10}" using decimals_less [OF f] by auto
  have near: "\<bar>?x - decimal_value (decimals n ?x)\<bar> < 1 / 10 ^ n + 1 / 2 ^ 53"
    by (rule decimals_within [OF decimals_near [OF refl f]]) simp
  have exact: "decimal_value (decimals n ?x) = of_int \<lfloor>?x * 10 ^ n\<rfloor> / 10 ^ n" if "v * 2 ^ 50 \<in> \<int>"
    using fraction_bits [OF that] decimals_exact [OF f] by blast
  show "let w = signed_text (trunc v) @ 46 # map (\<lambda>d. byte (48 + int d)) (decimals n ?x); x = ?x
     in ftoan v buff off (int n) =
          (if off + length w < length buff
           then Inr (take off buff @ w @ 0 # drop (Suc (off + length w)) buff)
           else Inl OutOfBounds) \<and>
        \<bar>x - decimal_value (decimals n ?x)\<bar> < 1 / 10 ^ n + 1 / 2 ^ 53 \<and>
        (v * 2 ^ 50 \<in> \<int> \<longrightarrow> decimal_value (decimals n ?x) = of_int \<lfloor>x * 10 ^ n\<rfloor> / 10 ^ n)"
    using ftoan_result [OF assms, of buff off] near exact by (simp add: Let_def)
qed

theorem ftoan_prints_witness: "ftoan (- (13 / 4)) (replicate 8 0) 1 2 = Inr [0, 45, 51, 46, 50, 53, 0, 0]"
proof -
  have d: "is_double (- (13 / 4))"
    unfolding is_double_def by (rule rnd_grid [of _ "- 13" "- 2"]) (simp_all add: power_int_minus)
  have "\<lfloor>13 / 4 :: rat\<rfloor> = 3" by (rule floor_unique) simp_all
  then have t: "trunc (- (13 / 4)) = - 3" by (simp add: trunc_def)
  have w: "signed_text (- 3) = [45, 51]"
    by (simp add: signed_text_def digit_bytes_def digits.simps digit_char_def byte_def)
  have z: "(- (13 / 4)) * 2 ^ 50 \<in> (\<int> :: rat set)" using Ints_of_int [of "- 13 * 2 ^ 48"] by simp
  obtain ds where ds: "length ds = 2" "set ds \<subseteq> {..<10}" "decimal_value ds = 25 / 100"
      "ftoan (- (13 / 4)) (replicate 8 0) 1 2 =
        (let w = [45, 51] @ 46 # map (\<lambda>d. byte (48 + int d)) ds
         in Inr ([0] @ w @ 0 # drop (Suc (1 + length w)) (replicate 8 0)))"
    using ftoan_prints [OF d, of 2 "replicate 8 0" 1] z by (auto simp: t w Let_def INT_MAX_def)
  obtain a b where ab: "ds = [a, b]" using ds(1) by (auto simp: numeral_2_eq_2 length_Suc_conv)
  have "(of_nat (10 * a + b) :: rat) = of_nat 25" using ds(3) by (simp add: ab field_simps)
  then have "10 * a + b = 25" by (simp only: of_nat_eq_iff)
  moreover have "a < 10" "b < 10" using ds(2) unfolding ab by auto
  ultimately have "a = 2" "b = 5" by presburger+
  then show ?thesis using ds(4) by (simp add: ab byte_def numeral_eq_Suc)
qed

end
