(* ===== verification/Cpu.thy ===== *)
theory Cpu
  imports Prelude
begin

text \<open>
  The processor wrappers of \<open>kernel.h\<close>: \<open>cpuid\<close> and the model-specific registers. What the processor
  answers is a parameter: for \<open>cpuid\<close> a function of the leaf and of \<open>ecx\<close>, the sub-leaf, which the code
  leaves as it happens to be; for \<open>rdmsr\<close> and \<open>wrmsr\<close> a record of the two instructions over an unknown
  state of the processor.
\<close>

section \<open>The wrappers\<close>

record registers =
  eax :: u32
  ebx :: u32
  ecx :: u32
  edx :: u32

type_synonym cpuid_answer = "u32 \<Rightarrow> u32 \<Rightarrow> registers"

record 'p msr_ops =
  rdmsr :: "u32 \<Rightarrow> 'p \<Rightarrow> u32 \<times> u32"
  wrmsr :: "u32 \<Rightarrow> u32 \<Rightarrow> u32 \<Rightarrow> 'p \<Rightarrow> 'p"

definition CPUID_FLAG_MSR :: u32 where "CPUID_FLAG_MSR = push_bit 5 1"

text \<open>The values stored through \<open>a\<close> and \<open>d\<close>; those stored in \<open>where\<close>, and the result.\<close>

definition cpuid :: "cpuid_answer \<Rightarrow> u32 \<Rightarrow> int \<Rightarrow> u32 \<times> u32" where
  "cpuid ans sub code = (let r = ans (word_of_int code) sub in (eax r, edx r))"

definition cpuid_string :: "cpuid_answer \<Rightarrow> u32 \<Rightarrow> int \<Rightarrow> u32 list \<times> int" where
  "cpuid_string ans sub code =
     (let r = ans (word_of_int code) sub in ([eax r, ebx r, ecx r, edx r], sint (eax r)))"

definition cpu_has_msr :: "cpuid_answer \<Rightarrow> u32 \<Rightarrow> int" where
  "cpu_has_msr ans sub = (let (a, d) = cpuid ans sub 1 in sint (d AND CPUID_FLAG_MSR))"

definition cpu_get_msr :: "'p msr_ops \<Rightarrow> u32 \<Rightarrow> 'p \<Rightarrow> u32 \<times> u32" where
  "cpu_get_msr cpu msr s = rdmsr cpu msr s"

definition cpu_set_msr :: "'p msr_ops \<Rightarrow> u32 \<Rightarrow> u32 \<Rightarrow> u32 \<Rightarrow> 'p \<Rightarrow> 'p" where
  "cpu_set_msr cpu msr lo hi s = wrmsr cpu msr lo hi s"

section \<open>What they tell\<close>

text \<open>The answer is the flag's bit, not 1: it is true exactly if bit 5 of \<open>edx\<close> is set.\<close>

lemma cpu_has_msr_bit: "cpu_has_msr ans sub = (if bit (edx (ans 1 sub)) 5 then 32 else 0)"
proof -
  have flag: "bit CPUID_FLAG_MSR n \<longleftrightarrow> n = 5" for n
    unfolding CPUID_FLAG_MSR_def by (simp only: bit_push_bit_iff) (auto simp: bit_1_iff)
  have "w AND CPUID_FLAG_MSR = (if bit w 5 then CPUID_FLAG_MSR else 0)" for w
    by (rule bit_word_eqI) (auto simp: flag bit_and_iff)
  then have "cpu_has_msr ans sub = (if bit (edx (ans 1 sub)) 5 then sint CPUID_FLAG_MSR else 0)"
    unfolding cpu_has_msr_def cpuid_def Let_def by simp
  then show ?thesis by (simp add: CPUID_FLAG_MSR_def)
qed

text \<open>Both queries of a leaf agree where they overlap.\<close>

lemma cpuid_string_agrees:
  "fst (cpuid ans sub code) = fst (cpuid_string ans sub code) ! 0"
  "snd (cpuid ans sub code) = fst (cpuid_string ans sub code) ! 3"
  by (simp_all add: cpuid_def cpuid_string_def Let_def numeral_3_eq_3)

end
