(* ===== verification/Handover.thy ===== *)
theory Handover
  imports Memory
begin

text \<open>
  What the boot loader hands to the kernel, the structures of \<open>kernel.h\<close>: the frame buffer, which the
  loader writes and the kernel reads in memory, and the boot information, passed by value.
\<close>

section \<open>Boot information\<close>

record FrameBuffer =
  fbbase :: u64
  fbsize :: u64
  fb_width :: u32
  fb_height :: u32
  ppsl :: u32

definition load_framebuffer :: "mem \<Rightarrow> u64 \<Rightarrow> FrameBuffer" where
  "load_framebuffer m a =
     \<lparr>fbbase = load64 m a, fbsize = load64 m (a + 8), fb_width = load32 m (a + 16),
      fb_height = load32 m (a + 20), ppsl = load32 m (a + 24)\<rparr>"

record BootInfo =
  fb :: u64
  mmap :: u64
  mmap_size :: u64
  mmap_desc_size :: u64

section \<open>The frame buffer in memory\<close>

definition store_framebuffer :: "u64 \<Rightarrow> FrameBuffer \<Rightarrow> mem \<Rightarrow> mem" where
  "store_framebuffer a f m =
     (let m = store64 m a (fbbase f);
          m = store64 m (a + 8) (fbsize f);
          m = store32 m (a + 20) (fb_height f);
          m = store32 m (a + 16) (fb_width f)
      in store32 m (a + 24) (ppsl f))"

lemma apart_words:
  assumes "k \<le> unat (c - b)" and "unat (c - b) + l \<le> 2 ^ 64"
  shows "apart (a + b) k (a + c) l"
  unfolding apart_def
proof (intro allI notI)
  fix x
  assume near: "unat (x - (a + b)) < k \<and> unat (x - (a + c)) < l"
  define y d where "y = x - (a + b)" and "d = c - b"
  have "x - (a + c) = y - d" by (simp add: y_def d_def)
  moreover have "unat y < unat d" "unat d + l \<le> 2 ^ 64" "unat (x - (a + c)) < l"
    using near assms by (simp_all add: y_def d_def)
  moreover have "unat (y - d) = unat y + 2 ^ 64 - unat d" if "unat y < unat d"
    using that by (simp add: unat_sub_if')
  ultimately show False by simp
qed

lemmas apart_base = apart_words [where b = 0, simplified] apart_words [where c = 0, simplified]

lemma load_store_framebuffer [mem_simps]: "load_framebuffer (store_framebuffer a f m) a = f"
  by (simp add: load_framebuffer_def store_framebuffer_def Let_def mem_simps load64_store64_apart
      load64_store32_apart load32_store32_apart apart_words apart_base)

end
