(* ===== verification/EfiMem.thy ===== *)
theory EfiMem
  imports Memory
begin

text \<open>
  The UEFI memory map the boot loader hands to the kernel (\<open>efimem.h\<close>, \<open>efimem.c\<close> and
  the enumeration of \<open>page_frames.c\<close>): descriptors laid out in memory at a stride given at
  run time, the walk over them that three loops of \<open>page_frames.c\<close> share, and
  \<open>get_memory_size\<close>.
\<close>

section \<open>Memory types\<close>

datatype EFI_MEMORY_TYPE =
    EfiReservedMemoryType
  | EfiLoaderCode
  | EfiLoaderData
  | EfiBootServicesCode
  | EfiBootServicesData
  | EfiRuntimeServicesCode
  | EfiRuntimeServicesData
  | EfiConventionalMemory
  | EfiUnusableMemory
  | EfiACPIReclaimMemory
  | EfiACPIMemoryNVS
  | EfiMemoryMappedIO
  | EfiMemoryMappedIOPortSpace
  | EfiPalCode
  | EfiPersistentMemory
  | EfiMaxMemoryType

fun efi_type_code :: "EFI_MEMORY_TYPE \<Rightarrow> nat" where
  "efi_type_code EfiReservedMemoryType = 0"
| "efi_type_code EfiLoaderCode = 1"
| "efi_type_code EfiLoaderData = 2"
| "efi_type_code EfiBootServicesCode = 3"
| "efi_type_code EfiBootServicesData = 4"
| "efi_type_code EfiRuntimeServicesCode = 5"
| "efi_type_code EfiRuntimeServicesData = 6"
| "efi_type_code EfiConventionalMemory = 7"
| "efi_type_code EfiUnusableMemory = 8"
| "efi_type_code EfiACPIReclaimMemory = 9"
| "efi_type_code EfiACPIMemoryNVS = 10"
| "efi_type_code EfiMemoryMappedIO = 11"
| "efi_type_code EfiMemoryMappedIOPortSpace = 12"
| "efi_type_code EfiPalCode = 13"
| "efi_type_code EfiPersistentMemory = 14"
| "efi_type_code EfiMaxMemoryType = 15"

text \<open>The enumeration is ordered by its codes, as comparisons of the C values are.\<close>

lemma efi_type_code_inject [simp]: "efi_type_code s = efi_type_code t \<longleftrightarrow> s = t"
  by (cases s; cases t) simp_all

instantiation EFI_MEMORY_TYPE :: linorder
begin

definition less_eq_EFI_MEMORY_TYPE :: "EFI_MEMORY_TYPE \<Rightarrow> EFI_MEMORY_TYPE \<Rightarrow> bool" where
  "less_eq_EFI_MEMORY_TYPE s t \<longleftrightarrow> efi_type_code s \<le> efi_type_code t"

definition less_EFI_MEMORY_TYPE :: "EFI_MEMORY_TYPE \<Rightarrow> EFI_MEMORY_TYPE \<Rightarrow> bool" where
  "less_EFI_MEMORY_TYPE s t \<longleftrightarrow> efi_type_code s < efi_type_code t"

instance
  by intro_classes (auto simp: less_eq_EFI_MEMORY_TYPE_def less_EFI_MEMORY_TYPE_def)

end

definition EFI_MEMORY_TYPE_STRINGS :: "string list" where
  "EFI_MEMORY_TYPE_STRINGS =
    [''EfiReservedMemoryType'',
     ''EfiLoaderCode'',
     ''EfiLoaderData'',
     ''EfiBootServicesCode'',
     ''EfiBootServicesData'',
     ''EfiRuntimeServicesCode'',
     ''EfiRuntimeServicesData'',
     ''EfiConventionalMemory'',
     ''EfiUnusableMemory'',
     ''EfiACPIReclaimMemory'',
     ''EfiACPIMemoryNVS'',
     ''EfiMemoryMappedIO'',
     ''EfiMemoryMappedIOPortSpace'',
     ''EfiPalCode'',
     ''EfiMaxMemoryType'']"

section \<open>Descriptors\<close>

record EfiMemoryDescriptor =
  desc_type :: u32
  desc_pad :: u32
  physicalstart :: u64
  virtualstart :: u64
  numberofpages :: u64
  attribute :: u64

text \<open>The fields at the offsets the structure gives them (no padding is added).\<close>

definition load_desc :: "mem \<Rightarrow> u64 \<Rightarrow> EfiMemoryDescriptor" where
  "load_desc m a =
     \<lparr>desc_type = load32 m a, desc_pad = load32 m (a + 4), physicalstart = load64 m (a + 8),
      virtualstart = load64 m (a + 16), numberofpages = load64 m (a + 24),
      attribute = load64 m (a + 32)\<rparr>"

definition is_conventional :: "EfiMemoryDescriptor \<Rightarrow> bool" where
  "is_conventional d \<longleftrightarrow> desc_type d = of_nat (efi_type_code EfiConventionalMemory)"

section \<open>The walk over a memory map\<close>

text \<open>
  \<open>for (desc = mmap; desc < mmap + mmap_size; desc += mmap_desc_size) body\<close>, by the offset
  of \<open>desc\<close> in the map (the map is an object, so it does not wrap around the address
  space). With a stride of 0 the guard never changes.
\<close>

function mmap_fold :: "(u64 \<Rightarrow> 's \<Rightarrow> 's res) \<Rightarrow> u64 \<Rightarrow> nat \<Rightarrow> nat \<Rightarrow> nat \<Rightarrow> 's \<Rightarrow> 's res" where
  "mmap_fold body mmap off extent stride s =
     (if off < extent
      then rbind (body (mmap + of_nat off) s)
             (\<lambda>s'. if stride = 0 then Inl Diverges
                   else mmap_fold body mmap (off + stride) extent stride s')
      else Inr s)"
  by pat_completeness auto
termination
  by (relation "measure (\<lambda>(body, mmap, off, extent, stride, s). extent - off)") auto

declare mmap_fold.simps [simp del]

text \<open>The addresses the walk visits.\<close>

function mmap_offsets :: "nat \<Rightarrow> nat \<Rightarrow> nat \<Rightarrow> nat list" where
  "mmap_offsets off extent stride =
     (if off < extent \<and> 0 < stride then off # mmap_offsets (off + stride) extent stride else [])"
  by pat_completeness auto
termination
  by (relation "measure (\<lambda>(off, extent, stride). extent - off)") auto

declare mmap_offsets.simps [simp del]

definition mmap_addrs :: "u64 \<Rightarrow> u64 \<Rightarrow> u64 \<Rightarrow> u64 list" where
  "mmap_addrs mmap mmap_size mmap_desc_size =
     map (\<lambda>off. mmap + of_nat off) (mmap_offsets 0 (unat mmap_size) (unat mmap_desc_size))"

lemma mmap_fold_offsets:
  "0 < stride \<Longrightarrow> mmap_fold body mmap off extent stride s =
     mfold body (map (\<lambda>off. mmap + of_nat off) (mmap_offsets off extent stride)) s"
proof (induction off extent stride arbitrary: s rule: mmap_offsets.induct)
  case (1 off extent stride)
  then show ?case
    by (cases "off < extent")
      (simp_all add: mmap_fold.simps [of body mmap off] mmap_offsets.simps [of off])
qed

lemma mmap_fold_addrs:
  "0 < stride \<Longrightarrow> mmap_fold body mmap 0 (unat extent) (unat stride) s =
     mfold body (mmap_addrs mmap extent stride) s"
  by (simp add: mmap_addrs_def mmap_fold_offsets word_less_nat_alt)

lemma mmap_fold_inv:
  assumes "mmap_fold body mmap off extent stride s = Inr s'" and "P s"
    and "\<And>a s s'. P s \<Longrightarrow> body a s = Inr s' \<Longrightarrow> P s'"
  shows "P s'"
  using assms
proof (induction body mmap off extent stride s rule: mmap_fold.induct)
  case (1 body mmap off extent stride s)
  then show ?case
    by (auto simp: mmap_fold.simps [of body mmap off] rbind_eq_Inr split: if_splits)
qed

lemma mmap_fold_empty: "mmap_fold body mmap off 0 stride s = Inr s"
  by (simp add: mmap_fold.simps)

definition get_memory_size :: "u64 \<Rightarrow> u64 \<Rightarrow> u64 \<Rightarrow> mem \<Rightarrow> u64 res" where
  "get_memory_size mmap mmap_size mmap_desc_size m =
     mmap_fold (\<lambda>desc ret. Inr (ret + numberofpages (load_desc m desc) * 4096))
       mmap 0 (unat mmap_size) (unat mmap_desc_size) 0"

lemma fold_plus_word: "fold (\<lambda>a acc. acc + f a) xs (b :: 'a::len word) = b + (\<Sum>a\<leftarrow>xs. f a)"
  by (induction xs arbitrary: b) (simp_all add: algebra_simps)

lemma get_memory_size_sum:
  assumes "0 < mmap_desc_size"
  shows "get_memory_size mmap mmap_size mmap_desc_size m =
    Inr (\<Sum>a\<leftarrow>mmap_addrs mmap mmap_size mmap_desc_size. numberofpages (load_desc m a) * 4096)"
  using assms
  by (simp add: get_memory_size_def mmap_fold_addrs
      mfold_pure [where g = "\<lambda>a acc. acc + numberofpages (load_desc m a) * 4096"] fold_plus_word)

end
