(* ===== verification/FrameBitmap.thy ===== *)
theory FrameBitmap
  imports Prelude
begin

text \<open>
  What the page frame allocator needs from its bitmap, as a contract: a flag per frame
  below a limit, a write that changes one flag, and nothing beyond the limit. The
  bookkeeping of the allocator (how many frames are free, what a loop over a range of
  frames leaves behind) is proved here from the contract alone.
\<close>

section \<open>Loops over a range of pages\<close>

text \<open>\<open>while (n--) { step(addr); addr += 4096; }\<close> of \<open>ppa_lckn\<close> and \<open>ppa_rsvn\<close>.\<close>

fun page_loop :: "(u64 \<Rightarrow> 's \<Rightarrow> 's) \<Rightarrow> nat \<Rightarrow> u64 \<Rightarrow> 's \<Rightarrow> 's" where
  "page_loop step 0 addr s = s"
| "page_loop step (Suc n) addr s = page_loop step n (addr + 4096) (step addr s)"

text \<open>
  \<open>for (int i = 0; i < n; i++) step(addr + 4096 * i)\<close> of \<open>ppa_ulckn\<close> and \<open>ppa_ursvn\<close>:
  the product is an \<open>int\<close>.
\<close>

function int_loop :: "(u64 \<Rightarrow> 's \<Rightarrow> 's) \<Rightarrow> u64 \<Rightarrow> nat \<Rightarrow> nat \<Rightarrow> 's \<Rightarrow> 's res" where
  "int_loop step addr i n s =
     (if i < n
      then rbind (c_int (4096 * int i))
             (\<lambda>off. int_loop step addr (Suc i) n (step (addr + word_of_int off) s))
      else Inr s)"
  by pat_completeness auto
termination
  by (relation "measure (\<lambda>(step, addr, i, n, s). n - i)") auto

declare int_loop.simps [simp del]

lemma page_loop_inv: "(\<And>a s. P s \<Longrightarrow> P (step a s)) \<Longrightarrow> P s \<Longrightarrow> P (page_loop step n a s)"
  by (induction n arbitrary: a s) auto

lemma int_loop_inv:
  assumes "int_loop step a i n s = Inr s'" and "P s" and "\<And>a s. P s \<Longrightarrow> P (step a s)"
  shows "P s'"
  using assms(1,2)
proof (induction "n - i" arbitrary: i s)
  case 0
  then show ?case by (simp add: int_loop.simps)
next
  case (Suc k)
  then have "i < n" and "k = n - Suc i" by auto
  then show ?case
    using Suc.hyps(1) Suc.prems assms(3)
    by (auto simp: int_loop.simps [of step a i] rbind_eq_Inr)
qed

text \<open>The frames of the \<open>n\<close> pages from \<open>addr\<close>.\<close>

definition frames_from :: "u64 \<Rightarrow> nat \<Rightarrow> nat set" where
  "frames_from addr n = {unat ((addr + of_nat (4096 * k)) div 4096) | k. k < n}"

lemma frames_from_0 [simp]: "frames_from addr 0 = {}"
  by (simp add: frames_from_def)

lemma frames_from_Suc: "frames_from addr (Suc n) =
    insert (unat (addr div 4096)) (frames_from (addr + 4096) n)"
proof -
  have "{f k | k. k < Suc n} = insert (f 0) {f (Suc k) | k. k < n}" for f :: "nat \<Rightarrow> nat"
    by (auto simp: less_Suc_eq_0_disj)
  then show ?thesis by (simp add: frames_from_def algebra_simps)
qed

lemma frames_from_snoc: "frames_from addr (Suc n) =
    insert (unat ((addr + of_nat (4096 * n)) div 4096)) (frames_from addr n)"
  by (auto simp: frames_from_def less_Suc_eq)

lemma frames_from_nowrap:
  assumes "unat addr + 4096 * n \<le> 2 ^ 64"
  shows "frames_from addr n = {unat addr div 4096 ..< unat addr div 4096 + n}"
proof -
  have eq: "unat ((addr + of_nat (4096 * k)) div 4096) = unat addr div 4096 + k" if "k < n" for k
  proof -
    define b :: u64 where "b = of_nat (4096 * k)"
    have lt: "unat addr + 4096 * k < 2 ^ 64" using assms that by linarith
    have "unat b = 4096 * k" unfolding b_def by (rule unat_of_nat_small) (use lt in simp)
    then have "unat (addr + b) = unat addr + 4096 * k" using lt by (simp add: unat_plus_nowrap)
    then have "unat ((addr + b) div 4096) = unat addr div 4096 + k"
      by (simp add: unat_div_distrib)
    then show ?thesis by (simp only: b_def)
  qed
  have "frames_from addr n = (\<lambda>k. unat addr div 4096 + k) ` {..<n}"
    unfolding frames_from_def using eq by force
  also have "\<dots> = {unat addr div 4096 ..< unat addr div 4096 + n}"
    by (simp add: lessThan_atLeast0 image_add_atLeastLessThan add.commute)
  finally show ?thesis .
qed

section \<open>The bitmap contract\<close>

locale frame_bitmap =
  fixes used :: "'s \<Rightarrow> nat \<Rightarrow> bool"
    and put :: "u64 \<Rightarrow> u8 \<Rightarrow> 's \<Rightarrow> 's"
    and limit :: "'s \<Rightarrow> nat"
    and wf :: "'s \<Rightarrow> bool"
  assumes used_put: "wf s \<Longrightarrow> unat i < limit s \<Longrightarrow>
      used (put i v s) j = (if j = unat i then v \<noteq> 0 else used s j)"
    and put_beyond: "\<not> unat i < limit s \<Longrightarrow> put i v s = s"
    and used_limit: "used s j \<Longrightarrow> j < limit s"
    and limit_put: "limit (put i v s) = limit s"
    and wf_put: "wf s \<Longrightarrow> wf (put i v s)"
begin

lemma finite_used: "finite {j. used s j}"
  by (rule finite_subset [of _ "{..<limit s}"]) (auto dest: used_limit)

lemma card_used_le: "card {j. used s j} \<le> limit s"
  using card_mono [of "{..<limit s}" "{j. used s j}"] by (auto dest: used_limit)

lemma used_put_any: "wf s \<Longrightarrow>
    used (put i v s) j = (if j = unat i \<and> j < limit s then v \<noteq> 0 else used s j)"
  by (cases "unat i < limit s") (auto simp: used_put put_beyond)

lemma card_take:
  assumes "wf s" and "unat i < limit s" and "\<not> used s (unat i)" and "v \<noteq> 0"
  shows "card {j. used (put i v s) j} = card {j. used s j} + 1"
proof -
  have "{j. used (put i v s) j} = insert (unat i) {j. used s j}"
    using assms by (auto simp: used_put)
  then show ?thesis using assms(3) by (simp add: finite_used)
qed

lemma card_drop:
  assumes "wf s" and "used s (unat i)"
  shows "card {j. used s j} = card {j. used (put i 0 s) j} + 1"
proof -
  have "{j. used (put i 0 s) j} = {j. used s j} - {unat i}"
    using assms used_limit by (auto simp: used_put)
  moreover have "unat i \<in> {j. used s j}" using assms(2) by simp
  ultimately show ?thesis by (metis Suc_eq_plus1 card_Suc_Diff1 finite_used)
qed

lemma clear_card: "card {j. j < limit s \<and> \<not> used s j} = limit s - card {j. used s j}"
proof -
  have "{j. j < limit s \<and> \<not> used s j} = {..<limit s} - {j. used s j}" by auto
  then show ?thesis
    by (simp add: card_Diff_subset finite_used subset_eq used_limit)
qed

end

text \<open>
  An operation that gives the flag of the addressed frame a fixed value, whatever else
  it does to the state; the two loops then give that value to all frames of a range.
\<close>

locale frame_setter = frame_bitmap used put limit wf
  for used :: "'s \<Rightarrow> nat \<Rightarrow> bool" and put :: "u64 \<Rightarrow> u8 \<Rightarrow> 's \<Rightarrow> 's"
    and limit :: "'s \<Rightarrow> nat" and wf :: "'s \<Rightarrow> bool" +
  fixes step :: "u64 \<Rightarrow> 's \<Rightarrow> 's" and b :: bool
  assumes used_step: "wf s \<Longrightarrow>
      used (step a s) j = (if j = unat (a div 4096) \<and> j < limit s then b else used s j)"
    and limit_step: "limit (step a s) = limit s"
    and wf_step: "wf s \<Longrightarrow> wf (step a s)"
begin

lemma limit_page_loop: "limit (page_loop step n a s) = limit s"
  by (induction n arbitrary: a s) (simp_all add: limit_step)

lemma wf_page_loop: "wf s \<Longrightarrow> wf (page_loop step n a s)"
  by (induction n arbitrary: a s) (simp_all add: wf_step)

lemma used_page_loop: "wf s \<Longrightarrow>
    used (page_loop step n a s) j = (if j \<in> frames_from a n \<and> j < limit s then b else used s j)"
  by (induction n arbitrary: a s) (auto simp: used_step wf_step limit_step frames_from_Suc)

text \<open>What the step keeps on frames below the limit, the loop keeps on such ranges.\<close>

lemma page_loop_inv_range:
  assumes "\<And>a s. wf s \<Longrightarrow> unat (a div 4096) < limit s \<Longrightarrow> P s \<Longrightarrow> P (step a s)"
    and "frames_from a n \<subseteq> {..<limit s}" and "wf s" and "P s"
  shows "P (page_loop step n a s)"
  using assms(2-)
  by (induction n arbitrary: a s) (auto simp: frames_from_Suc limit_step wf_step assms(1))

lemma int_loop_ok:
  assumes "n \<le> 524288"
  shows "\<exists>s'. int_loop step a i n s = Inr s'"
proof (induction "n - i" arbitrary: i s)
  case 0
  then show ?case by (simp add: int_loop.simps)
next
  case (Suc k)
  then have "i < n" by simp
  with assms have "c_int (4096 * int i) = Inr (4096 * int i)"
    by (simp add: INT_MAX_def INT_MIN_def)
  moreover have "k = n - Suc i" using Suc.hyps(2) by simp
  ultimately show ?case using \<open>i < n\<close> Suc.hyps(1) by (simp add: int_loop.simps [of step a i])
qed

lemma int_loop_overflow:
  assumes "524288 < n" and "i \<le> 524288"
  shows "int_loop step a i n s = Inl SignedOverflow"
  using assms
proof (induction "524288 - i" arbitrary: i s)
  case 0
  then have "i = 524288" by simp
  with \<open>524288 < n\<close> show ?case
    by (simp add: int_loop.simps [of step a 524288] c_int_def INT_MAX_def INT_MIN_def)
next
  case (Suc k)
  then have "c_int (4096 * int i) = Inr (4096 * int i)"
    by (simp add: INT_MAX_def INT_MIN_def)
  moreover have "i < n" using Suc by simp
  ultimately show ?case using Suc by (simp add: int_loop.simps [of step a i])
qed

lemma int_loop_result:
  assumes "int_loop step a i n s = Inr s'" and "wf s"
  shows "wf s' \<and> limit s' = limit s \<and>
    (\<forall>j. used s' j = (if j \<in> frames_from (a + of_nat (4096 * i)) (n - i) \<and> j < limit s
                     then b else used s j))"
  using assms
proof (induction "n - i" arbitrary: i s)
  case 0
  then show ?case by (simp add: int_loop.simps)
next
  case (Suc k)
  then have i: "i < n" and k: "n - i = Suc (n - Suc i)" "k = n - Suc i" by auto
  let ?s = "step (a + of_nat (4096 * i)) s"
  have wi: "(word_of_int (4096 * int i) :: u64) = of_nat (4096 * i)"
    by (metis of_int_of_nat_eq of_nat_mult of_nat_numeral)
  have run: "int_loop step a (Suc i) n ?s = Inr s'"
    using Suc.prems(1) i by (auto simp: int_loop.simps [of step a i] rbind_eq_Inr c_int_Inr wi)
  have nx: "a + 4096 * of_nat i + 4096 = a + (4096 + 4096 * (of_nat i :: u64))"
    by (simp add: algebra_simps)
  from Suc.hyps(1) [OF k(2) run wf_step [OF Suc.prems(2)]]
  show ?case
    using Suc.prems(2)
    by (auto simp: k(1) frames_from_Suc nx used_step limit_step)
qed

end

end
