(* ===== verification/PageFrames.thy ===== *)
theory PageFrames
  imports EfiMem FrameBitmap
begin

text \<open>
  The physical page frame allocator, \<open>page_frames.c\<close>: its global variables as a record,
  one definition per function, the bitmap as an instance of the contract of
  \<open>FrameBitmap\<close>, the bookkeeping of the four counters, and the behaviour of
  \<open>ppa_request\<close> and \<open>ppa_init\<close>.
\<close>

section \<open>State\<close>

record Bitmap =
  bm_size :: u64        \<comment> \<open>in 32-bit words\<close>
  bm_max_index :: u64
  bm_data :: u64        \<comment> \<open>address of the first word\<close>

record ppa =
  phys :: mem           \<comment> \<open>physical memory, which holds the bitmap\<close>
  ppa_bitmap :: Bitmap
  mem_used :: u64
  mem_rsvd :: u64
  mem_free :: u64
  mem_total :: u64
  ppa_initialized :: u8
  last_hit :: u64

section \<open>The bitmap\<close>

definition bitmap_word_addr :: "Bitmap \<Rightarrow> u64 \<Rightarrow> u64" where
  "bitmap_word_addr b i = bm_data b + 4 * i"

text \<open>For bit 31 the source shifts an \<open>int\<close> into its sign, which GCC documents to give the bit pattern.\<close>

definition bitmap_mask :: "u64 \<Rightarrow> u32" where
  "bitmap_mask index = push_bit (unat (index mod 32)) 1"

definition ppa_bitmap_set :: "u64 \<Rightarrow> u8 \<Rightarrow> 'a ppa_scheme \<Rightarrow> u8 \<times> 'a ppa_scheme" where
  "ppa_bitmap_set index setbit s =
     (if index > bm_max_index (ppa_bitmap s) then (0, s)
      else
        let mask = bitmap_mask index;
            a = bitmap_word_addr (ppa_bitmap s) (index div 32);
            w = load32 (phys s) a;
            s' = s\<lparr>phys := store32 (phys s) a
                     (if setbit \<noteq> 0 then w OR mask else w AND NOT mask)\<rparr>
        in (if load32 (phys s') a AND mask \<noteq> 0 then 1 else 0, s'))"

definition ppa_bitmap_get :: "u64 \<Rightarrow> 'a ppa_scheme \<Rightarrow> u8" where
  "ppa_bitmap_get index s =
     (if index > bm_max_index (ppa_bitmap s) then 0
      else if load32 (phys s) (bitmap_word_addr (ppa_bitmap s) (index div 32))
                AND bitmap_mask index \<noteq> 0 then 1 else 0)"

section \<open>Counters and single frames\<close>

definition ppa_get_mem_used :: "'a ppa_scheme \<Rightarrow> u64" where
  "ppa_get_mem_used s = mem_used s"

definition ppa_get_mem_rsvd :: "'a ppa_scheme \<Rightarrow> u64" where
  "ppa_get_mem_rsvd s = mem_rsvd s"

definition ppa_get_mem_free :: "'a ppa_scheme \<Rightarrow> u64" where
  "ppa_get_mem_free s = mem_free s"

definition ppa_get_mem_total :: "'a ppa_scheme \<Rightarrow> u64" where
  "ppa_get_mem_total s = mem_total s"

definition ppa_get_bitmap_size :: "'a ppa_scheme \<Rightarrow> u64" where
  "ppa_get_bitmap_size s = bm_size (ppa_bitmap s)"

definition ppa_lck :: "u64 \<Rightarrow> 'a ppa_scheme \<Rightarrow> 'a ppa_scheme" where
  "ppa_lck addr s =
     (let index = addr div 4096
      in if ppa_bitmap_get index s \<noteq> 0 then s
         else let s = snd (ppa_bitmap_set index 1 s)
              in s\<lparr>mem_used := mem_used s + 4096, mem_free := mem_free s - 4096\<rparr>)"

definition ppa_ulck :: "u64 \<Rightarrow> 'a ppa_scheme \<Rightarrow> 'a ppa_scheme" where
  "ppa_ulck addr s =
     (let index = addr div 4096
      in if ppa_bitmap_get index s = 0 then s
         else let s = snd (ppa_bitmap_set index 0 s)
              in s\<lparr>mem_used := mem_used s - 4096, mem_free := mem_free s + 4096,
                   last_hit := index\<rparr>)"

definition ppa_rsv :: "u64 \<Rightarrow> 'a ppa_scheme \<Rightarrow> 'a ppa_scheme" where
  "ppa_rsv addr s =
     (let index = addr div 4096
      in if ppa_bitmap_get index s \<noteq> 0 then s
         else let s = snd (ppa_bitmap_set index 1 s)
              in s\<lparr>mem_rsvd := mem_rsvd s + 4096, mem_free := mem_free s - 4096\<rparr>)"

definition ppa_ursv :: "u64 \<Rightarrow> 'a ppa_scheme \<Rightarrow> 'a ppa_scheme" where
  "ppa_ursv addr s =
     (let index = addr div 4096
      in if ppa_bitmap_get index s = 0 then s
         else let s = snd (ppa_bitmap_set index 0 s)
              in s\<lparr>mem_rsvd := mem_rsvd s - 4096, mem_free := mem_free s + 4096,
                   last_hit := index\<rparr>)"

section \<open>Ranges of frames\<close>

definition ppa_lckn :: "u64 \<Rightarrow> u64 \<Rightarrow> 'a ppa_scheme \<Rightarrow> 'a ppa_scheme" where
  "ppa_lckn addr n s = page_loop ppa_lck (unat n) addr s"

definition ppa_ulckn :: "u64 \<Rightarrow> u64 \<Rightarrow> 'a ppa_scheme \<Rightarrow> 'a ppa_scheme res" where
  "ppa_ulckn addr n s =
     rbind (int_loop ppa_ulck addr 0 (unat n) s) (\<lambda>s. Inr (s\<lparr>last_hit := addr div 4096\<rparr>))"

definition ppa_rsvn :: "u64 \<Rightarrow> u64 \<Rightarrow> 'a ppa_scheme \<Rightarrow> 'a ppa_scheme" where
  "ppa_rsvn addr n s = page_loop ppa_rsv (unat n) addr s"

definition ppa_ursvn :: "u64 \<Rightarrow> u64 \<Rightarrow> 'a ppa_scheme \<Rightarrow> 'a ppa_scheme res" where
  "ppa_ursvn addr n s =
     rbind (int_loop ppa_ursv addr 0 (unat n) s) (\<lambda>s. Inr (s\<lparr>last_hit := addr div 4096\<rparr>))"

section \<open>Allocation\<close>

text \<open>The inner loop over the 32 bits of a word, and the outer loop over the words.\<close>

function request_lo :: "nat \<Rightarrow> u64 \<Rightarrow> 'a ppa_scheme \<Rightarrow> u64 option" where
  "request_lo index_lo index_hi s =
     (if index_lo < 32
      then let index = index_hi * 32 + of_nat index_lo
           in if ppa_bitmap_get index s \<noteq> 0 then request_lo (Suc index_lo) index_hi s
              else Some index
      else None)"
  by pat_completeness auto
termination
  by (relation "measure (\<lambda>(index_lo, index_hi, s). 32 - index_lo)") auto

declare request_lo.simps [simp del]

function request_hi :: "nat \<Rightarrow> 'a ppa_scheme \<Rightarrow> u64 option" where
  "request_hi index_hi s =
     (if index_hi < unat (bm_size (ppa_bitmap s))
      then if NOT (load32 (phys s) (bitmap_word_addr (ppa_bitmap s) (of_nat index_hi))) = 0
           then request_hi (Suc index_hi) s
           else case request_lo 0 (of_nat index_hi) s of
                  Some index \<Rightarrow> Some index
                | None \<Rightarrow> request_hi (Suc index_hi) s
      else None)"
  by pat_completeness auto
termination
  by (relation "measure (\<lambda>(index_hi, s). unat (bm_size (ppa_bitmap s)) - index_hi)") auto

declare request_hi.simps [simp del]

definition ppa_request :: "'a ppa_scheme \<Rightarrow> u64 \<times> 'a ppa_scheme" where
  "ppa_request s =
     (case request_hi (unat (drop_bit 5 (last_hit s))) s of
        None \<Rightarrow> (0, s)
      | Some index \<Rightarrow> (index * 4096, ppa_lck (index * 4096) (s\<lparr>last_hit := index\<rparr>)))"

section \<open>Initialisation\<close>

text \<open>\<open>for (int i = 0; i < size; i++) data[i] = 0\<close>.\<close>

function zero_words :: "u64 \<Rightarrow> nat \<Rightarrow> nat \<Rightarrow> mem \<Rightarrow> mem res" where
  "zero_words data i words m =
     (if i < words
      then let m' = store32 m (data + 4 * of_nat i) 0
           in rbind (c_int (int i + 1)) (\<lambda>_. zero_words data (Suc i) words m')
      else Inr m)"
  by pat_completeness auto
termination
  by (relation "measure (\<lambda>(data, i, words, m). words - i)") auto

declare zero_words.simps [simp del]

definition ppa_init_bitmap :: "u64 \<Rightarrow> u64 \<Rightarrow> 'a ppa_scheme \<Rightarrow> 'a ppa_scheme res" where
  "ppa_init_bitmap data_addr pages s =
     (let size = pages div 32 + 1;
          s = s\<lparr>ppa_bitmap := \<lparr>bm_size = size, bm_max_index = pages - 1, bm_data = data_addr\<rparr>\<rparr>
      in rbind (zero_words data_addr 0 (unat size) (phys s)) (\<lambda>m. Inr (s\<lparr>phys := m\<rparr>)))"

text \<open>The first walk of \<open>ppa_init\<close>: total size, and the largest conventional segment.\<close>

definition scan_desc :: "mem \<Rightarrow> u64 \<Rightarrow> u64 \<times> u64 \<times> u64 \<Rightarrow> u64 \<times> u64 \<times> u64" where
  "scan_desc m desc = (\<lambda>(total, largest_segment, largest_size).
     let d = load_desc m desc;
         crt_size = numberofpages d * 4096;
         total = total + crt_size
     in if is_conventional d \<and> crt_size > largest_size
        then (total, physicalstart d, crt_size)
        else (total, largest_segment, largest_size))"

text \<open>The second walk: release the frames of the conventional segments.\<close>

definition release_desc :: "u64 \<Rightarrow> 'a ppa_scheme \<Rightarrow> 'a ppa_scheme res" where
  "release_desc desc s =
     (let d = load_desc (phys s) desc
      in if is_conventional d then ppa_ursvn (physicalstart d) (numberofpages d) s else Inr s)"

definition ppa_init :: "u64 \<Rightarrow> u64 \<Rightarrow> u64 \<Rightarrow> 'a ppa_scheme \<Rightarrow> 'a ppa_scheme res" where
  "ppa_init mmap mmap_size mmap_desc_size s =
     (if ppa_initialized s \<noteq> 0 then Inr s
      else
        rbind (mmap_fold (\<lambda>desc acc. Inr (scan_desc (phys s) desc acc))
                 mmap 0 (unat mmap_size) (unat mmap_desc_size) (0, 0, 0))
          (\<lambda>(total, largest_segment, largest_size).
            let s = s\<lparr>mem_used := 0, mem_rsvd := 0, mem_total := total, mem_free := total\<rparr>
            in if largest_segment = 0 then Inr s
               else
                 let total_pages = total div 4096
                 in rbind (ppa_init_bitmap largest_segment total_pages s) (\<lambda>s.
                      let size = bm_size (ppa_bitmap s);
                          bitmap_pages = size div 1024 + (if size mod 1024 \<noteq> 0 then 1 else 0);
                          s = ppa_rsvn 0 total_pages s
                      in rbind (mmap_fold release_desc mmap 0
                                  (unat mmap_size) (unat mmap_desc_size) s) (\<lambda>s.
                           let s = ppa_rsvn 0 0x100 s;
                               s = ppa_lckn (bm_data (ppa_bitmap s)) bitmap_pages s
                           in Inr (s\<lparr>ppa_initialized := 1\<rparr>)))))"

section \<open>The bitmap meets the contract\<close>

definition frames_limit :: "'a ppa_scheme \<Rightarrow> nat" where
  "frames_limit s = unat (bm_max_index (ppa_bitmap s)) + 1"

text \<open>The shape \<open>ppa_init_bitmap\<close> gives the bitmap, for a machine of fewer than \<open>2 ^ 40\<close> frames
  (physical addresses of 52 bits).\<close>

definition bitmap_wf :: "'a ppa_scheme \<Rightarrow> bool" where
  "bitmap_wf s \<longleftrightarrow> frames_limit s < 2 ^ 40 \<and>
     unat (bm_size (ppa_bitmap s)) = frames_limit s div 32 + 1"

definition frame_bit :: "'a ppa_scheme \<Rightarrow> nat \<Rightarrow> bool" where
  "frame_bit s j \<longleftrightarrow>
     bit (load32 (phys s) (bitmap_word_addr (ppa_bitmap s) (of_nat (j div 32)))) (j mod 32)"

definition frame_used :: "'a ppa_scheme \<Rightarrow> nat \<Rightarrow> bool" where
  "frame_used s j \<longleftrightarrow> j < frames_limit s \<and> frame_bit s j"

lemma index_div_32: "of_nat (unat index div 32) = (index div 32 :: u64)"
  by (simp add: word_arith_nat_div)

lemma mask_bit: "(w AND bitmap_mask index \<noteq> 0) \<longleftrightarrow> bit w (unat index mod 32)"
  unfolding bitmap_mask_def by (subst and_bit_nonzero) (simp_all add: unat_mod_distrib)

lemma index_in_range: "index > bm_max_index (ppa_bitmap s) \<longleftrightarrow> \<not> unat index < frames_limit s"
  by (auto simp: frames_limit_def word_less_nat_alt)

lemma ppa_bitmap_get_eq: "ppa_bitmap_get index s = (if frame_used s (unat index) then 1 else 0)"
  by (simp add: ppa_bitmap_get_def index_in_range frame_used_def frame_bit_def mask_bit index_div_32)

lemma ppa_bitmap_set_beyond:
  "\<not> unat index < frames_limit s \<Longrightarrow> ppa_bitmap_set index v s = (0, s)"
  by (simp add: ppa_bitmap_set_def index_in_range)

lemma bitmap_set_frame [frame_simps]:
  "ppa_bitmap (snd (ppa_bitmap_set index v s)) = ppa_bitmap s"
  "mem_used (snd (ppa_bitmap_set index v s)) = mem_used s"
  "mem_rsvd (snd (ppa_bitmap_set index v s)) = mem_rsvd s"
  "mem_free (snd (ppa_bitmap_set index v s)) = mem_free s"
  "mem_total (snd (ppa_bitmap_set index v s)) = mem_total s"
  "ppa_initialized (snd (ppa_bitmap_set index v s)) = ppa_initialized s"
  "last_hit (snd (ppa_bitmap_set index v s)) = last_hit s"
  "ppa.more (snd (ppa_bitmap_set index v s)) = ppa.more s"
  by (simp_all add: ppa_bitmap_set_def Let_def)

lemma bitmap_words_apart:
  assumes "i \<noteq> j" and "i < 2 ^ 62" and "j < 2 ^ 62"
  shows "apart (bitmap_word_addr b (of_nat i)) 4 (bitmap_word_addr b (of_nat j)) 4"
  using apart_array [of i j 4 "bm_data b"] assms by (simp add: bitmap_word_addr_def)

lemma frame_bit_set:
  assumes "unat index < frames_limit s" and "j < 2 ^ 64"
  shows "frame_bit (snd (ppa_bitmap_set index v s)) j =
    (if j = unat index then v \<noteq> 0 else frame_bit s j)"
proof -
  let ?i = "unat index"
  let ?a = "bitmap_word_addr (ppa_bitmap s) (of_nat (?i div 32))"
  let ?c = "bitmap_word_addr (ppa_bitmap s) (of_nat (j div 32))"
  let ?w = "load32 (phys s) ?a"
  let ?v = "if v \<noteq> 0 then ?w OR bitmap_mask index else ?w AND NOT (bitmap_mask index)"
  have phys: "phys (snd (ppa_bitmap_set index v s)) = store32 (phys s) ?a ?v"
    using assms(1) by (simp add: ppa_bitmap_set_def index_in_range Let_def index_div_32)
  have maskbit: "bit ?v n = (if n = ?i mod 32 then v \<noteq> 0 else bit ?w n)" for n
    unfolding bitmap_mask_def
    by (auto simp: bit_or_flag bit_and_not_flag unat_mod_distrib simp del: push_bit_of_1)
  show ?thesis
  proof (cases "j div 32 = ?i div 32")
    case True
    then have "j = ?i \<longleftrightarrow> j mod 32 = ?i mod 32" by (metis div_mult_mod_eq)
    then show ?thesis
      by (simp add: frame_bit_def frame_simps phys True mem_simps maskbit)
  next
    case False
    have "?i < 2 ^ 64" using unsigned_less[of index, where 'a = nat] by simp
    with False assms(2) have "apart ?c 4 ?a 4" by (intro bitmap_words_apart) auto
    then show ?thesis
      using False by (auto simp: frame_bit_def frame_simps phys load32_store32_apart)
  qed
qed

lemma frames_limit_set [frame_simps]: "frames_limit (snd (ppa_bitmap_set index v s)) = frames_limit s"
  by (simp add: frames_limit_def frame_simps)

lemma frames_limit_le: "frames_limit s \<le> 2 ^ 64"
  using unsigned_less[of "bm_max_index (ppa_bitmap s)", where 'a = nat]
  by (simp add: frames_limit_def)

interpretation bm: frame_bitmap frame_used "\<lambda>i v s. snd (ppa_bitmap_set i v s)" frames_limit bitmap_wf
proof
  fix s :: "'a ppa_scheme" and i v j
  show "bitmap_wf s \<Longrightarrow> unat i < frames_limit s \<Longrightarrow>
      frame_used (snd (ppa_bitmap_set i v s)) j = (if j = unat i then v \<noteq> 0 else frame_used s j)"
    using frames_limit_le[of s] by (auto simp: frame_used_def frame_simps frame_bit_set)
  show "\<not> unat i < frames_limit s \<Longrightarrow> snd (ppa_bitmap_set i v s) = s"
    by (simp add: ppa_bitmap_set_beyond)
  show "frame_used s j \<Longrightarrow> j < frames_limit s"
    by (simp add: frame_used_def)
  show "frames_limit (snd (ppa_bitmap_set i v s)) = frames_limit s"
    by (simp add: frame_simps)
  show "bitmap_wf s \<Longrightarrow> bitmap_wf (snd (ppa_bitmap_set i v s))"
    by (simp add: bitmap_wf_def frame_simps)
qed

text \<open>Writing a flag changes no byte outside the bitmap's words.\<close>

definition bitmap_bytes :: "Bitmap \<Rightarrow> u64 set" where
  "bitmap_bytes b = {x. unat (x - bm_data b) < 4 * unat (bm_size b)}"

lemma phys_bitmap_set:
  assumes "bitmap_wf s" and "x \<notin> bitmap_bytes (ppa_bitmap s)"
  shows "phys (snd (ppa_bitmap_set index v s)) x = phys s x"
proof (cases "unat index < frames_limit s")
  case True
  let ?a = "bitmap_word_addr (ppa_bitmap s) (index div 32)"
  have "\<not> unat (x - ?a) < 4"
  proof
    assume h: "unat (x - ?a) < 4"
    define k where "k = unat index div 32"
    have k: "k < unat (bm_size (ppa_bitmap s))" "k < 2 ^ 50"
      using assms(1) True by (auto simp: bitmap_wf_def k_def less_Suc_eq_le div_le_mono)
    have ua: "unat (4 * (index div 32)) = 4 * k"
      using k(2) by (subst unat_mult_nowrap) (simp_all add: k_def unat_div_distrib)
    have eq: "x - bm_data (ppa_bitmap s) = 4 * (index div 32) + (x - ?a)"
      by (simp add: bitmap_word_addr_def)
    have "unat (4 * (index div 32)) + unat (x - ?a) < 2 ^ LENGTH(64)"
      unfolding ua using h k(2) by simp
    from unat_plus_nowrap [OF this] have "unat (x - bm_data (ppa_bitmap s)) = 4 * k + unat (x - ?a)"
      by (simp only: eq ua)
    then show False using assms(2) h k(1) by (simp add: bitmap_bytes_def)
  qed
  then show ?thesis
    using True by (simp add: ppa_bitmap_set_def index_in_range Let_def store32_def store_bytes_def)
qed (simp add: ppa_bitmap_set_beyond)

section \<open>Single frames\<close>

lemma ppa_lck_cases: "ppa_lck a s =
    (if frame_used s (unat (a div 4096)) then s
     else let t = snd (ppa_bitmap_set (a div 4096) 1 s)
          in t\<lparr>mem_used := mem_used s + 4096, mem_free := mem_free s - 4096\<rparr>)"
  by (simp add: ppa_lck_def ppa_bitmap_get_eq Let_def frame_simps)

lemma ppa_rsv_cases: "ppa_rsv a s =
    (if frame_used s (unat (a div 4096)) then s
     else let t = snd (ppa_bitmap_set (a div 4096) 1 s)
          in t\<lparr>mem_rsvd := mem_rsvd s + 4096, mem_free := mem_free s - 4096\<rparr>)"
  by (simp add: ppa_rsv_def ppa_bitmap_get_eq Let_def frame_simps)

lemma ppa_ulck_cases: "ppa_ulck a s =
    (if \<not> frame_used s (unat (a div 4096)) then s
     else let t = snd (ppa_bitmap_set (a div 4096) 0 s)
          in t\<lparr>mem_used := mem_used s - 4096, mem_free := mem_free s + 4096,
               last_hit := a div 4096\<rparr>)"
  by (simp add: ppa_ulck_def ppa_bitmap_get_eq Let_def frame_simps)

lemma ppa_ursv_cases: "ppa_ursv a s =
    (if \<not> frame_used s (unat (a div 4096)) then s
     else let t = snd (ppa_bitmap_set (a div 4096) 0 s)
          in t\<lparr>mem_rsvd := mem_rsvd s - 4096, mem_free := mem_free s + 4096,
               last_hit := a div 4096\<rparr>)"
  by (simp add: ppa_ursv_def ppa_bitmap_get_eq Let_def frame_simps)

lemmas frame_op_cases = ppa_lck_cases ppa_rsv_cases ppa_ulck_cases ppa_ursv_cases

text \<open>Counters, \<open>last_hit\<close> and the like do not enter the bitmap's flags.\<close>

lemma frame_used_update [simp]:
  "frame_used (s\<lparr>mem_used := u\<rparr>) = frame_used s"
  "frame_used (s\<lparr>mem_rsvd := r\<rparr>) = frame_used s"
  "frame_used (s\<lparr>mem_free := f\<rparr>) = frame_used s"
  "frame_used (s\<lparr>mem_total := t\<rparr>) = frame_used s"
  "frame_used (s\<lparr>last_hit := h\<rparr>) = frame_used s"
  "frame_used (s\<lparr>ppa_initialized := i\<rparr>) = frame_used s"
  by (simp_all add: fun_eq_iff frame_used_def frame_bit_def frames_limit_def)

lemma frame_bit_update [simp]:
  "frame_bit (s\<lparr>mem_used := u\<rparr>) = frame_bit s"
  "frame_bit (s\<lparr>mem_rsvd := r\<rparr>) = frame_bit s"
  "frame_bit (s\<lparr>mem_free := f\<rparr>) = frame_bit s"
  "frame_bit (s\<lparr>mem_total := t\<rparr>) = frame_bit s"
  "frame_bit (s\<lparr>last_hit := h\<rparr>) = frame_bit s"
  "frame_bit (s\<lparr>ppa_initialized := i\<rparr>) = frame_bit s"
  by (simp_all add: fun_eq_iff frame_bit_def)

lemma frames_limit_update [simp]:
  "frames_limit (s\<lparr>mem_used := u\<rparr>) = frames_limit s"
  "frames_limit (s\<lparr>mem_rsvd := r\<rparr>) = frames_limit s"
  "frames_limit (s\<lparr>mem_free := f\<rparr>) = frames_limit s"
  "frames_limit (s\<lparr>mem_total := t\<rparr>) = frames_limit s"
  "frames_limit (s\<lparr>last_hit := h\<rparr>) = frames_limit s"
  "frames_limit (s\<lparr>ppa_initialized := i\<rparr>) = frames_limit s"
  "frames_limit (s\<lparr>phys := m\<rparr>) = frames_limit s"
  by (simp_all add: frames_limit_def)

lemma bitmap_wf_update [simp]:
  "bitmap_wf (s\<lparr>mem_used := u\<rparr>) = bitmap_wf s"
  "bitmap_wf (s\<lparr>mem_rsvd := r\<rparr>) = bitmap_wf s"
  "bitmap_wf (s\<lparr>mem_free := f\<rparr>) = bitmap_wf s"
  "bitmap_wf (s\<lparr>mem_total := t\<rparr>) = bitmap_wf s"
  "bitmap_wf (s\<lparr>last_hit := h\<rparr>) = bitmap_wf s"
  "bitmap_wf (s\<lparr>ppa_initialized := i\<rparr>) = bitmap_wf s"
  "bitmap_wf (s\<lparr>phys := m\<rparr>) = bitmap_wf s"
  by (simp_all add: bitmap_wf_def)

interpretation lck: frame_setter frame_used "\<lambda>i v s. snd (ppa_bitmap_set i v s)"
    frames_limit bitmap_wf ppa_lck True
  by unfold_locales
    (auto simp: ppa_lck_cases Let_def bm.used_put_any bm.wf_put frame_simps dest: bm.used_limit)

interpretation rsv: frame_setter frame_used "\<lambda>i v s. snd (ppa_bitmap_set i v s)"
    frames_limit bitmap_wf ppa_rsv True
  by unfold_locales
    (auto simp: ppa_rsv_cases Let_def bm.used_put_any bm.wf_put frame_simps dest: bm.used_limit)

interpretation ulck: frame_setter frame_used "\<lambda>i v s. snd (ppa_bitmap_set i v s)"
    frames_limit bitmap_wf ppa_ulck False
  by unfold_locales
    (auto simp: ppa_ulck_cases Let_def bm.used_put_any bm.wf_put frame_simps dest: bm.used_limit)

interpretation ursv: frame_setter frame_used "\<lambda>i v s. snd (ppa_bitmap_set i v s)"
    frames_limit bitmap_wf ppa_ursv False
  by unfold_locales
    (auto simp: ppa_ursv_cases Let_def bm.used_put_any bm.wf_put frame_simps dest: bm.used_limit)

text \<open>Setting a clear flag and clearing it again restores memory.\<close>

lemma bitmap_set_clear:
  assumes "unat i < frames_limit s" and "\<not> frame_used s (unat i)"
  shows "snd (ppa_bitmap_set i 0 (snd (ppa_bitmap_set i 1 s))) = s"
proof -
  let ?a = "bitmap_word_addr (ppa_bitmap s) (i div 32)"
  let ?w = "load32 (phys s) ?a"
  let ?mask = "bitmap_mask i"
  have "\<not> bit ?w (unat i mod 32)"
    using assms by (simp add: frame_used_def frame_bit_def index_div_32)
  then have "(?w OR ?mask) AND NOT ?mask = ?w"
    unfolding bitmap_mask_def
    by (intro bit_word_eqI)
      (auto simp: bit_or_flag bit_and_not_flag unat_mod_distrib simp del: push_bit_of_1)
  moreover have "unat i < frames_limit (snd (ppa_bitmap_set i 1 s))"
    using assms(1) by (simp add: frame_simps)
  ultimately show ?thesis
    using assms(1) by (simp add: ppa_bitmap_set_def index_in_range Let_def mem_simps)
qed

end
