(* ===== verification/FrameAccounting.thy ===== *)
theory FrameAccounting
  imports PageFrames
begin

text \<open>
  The four counters of the frame allocator. Their sum is the total after any sequence of
  calls; on frames the bitmap covers they are exact; on frames beyond it they are not.
\<close>

section \<open>The counters add up\<close>

definition accounted :: "'a ppa_scheme \<Rightarrow> bool" where
  "accounted s \<longleftrightarrow> mem_used s + mem_rsvd s + mem_free s = mem_total s"

lemma accounted_ops:
  "accounted s \<Longrightarrow> accounted (ppa_lck a s)"
  "accounted s \<Longrightarrow> accounted (ppa_rsv a s)"
  "accounted s \<Longrightarrow> accounted (ppa_ulck a s)"
  "accounted s \<Longrightarrow> accounted (ppa_ursv a s)"
  by (auto simp: accounted_def frame_op_cases Let_def frame_simps algebra_simps)

lemma accounted_ranges:
  "accounted s \<Longrightarrow> accounted (ppa_lckn a n s)"
  "accounted s \<Longrightarrow> accounted (ppa_rsvn a n s)"
  "accounted s \<Longrightarrow> ppa_ulckn a n s = Inr s' \<Longrightarrow> accounted s'"
  "accounted s \<Longrightarrow> ppa_ursvn a n s = Inr s' \<Longrightarrow> accounted s'"
proof -
  have upd: "accounted (s\<lparr>last_hit := h\<rparr>) = accounted s" for s :: "'a ppa_scheme" and h
    by (simp add: accounted_def)
  show "accounted s \<Longrightarrow> accounted (ppa_lckn a n s)"
    unfolding ppa_lckn_def by (rule page_loop_inv) (rule accounted_ops)
  show "accounted s \<Longrightarrow> accounted (ppa_rsvn a n s)"
    unfolding ppa_rsvn_def by (rule page_loop_inv) (rule accounted_ops)
  have loop: "accounted t" if "int_loop f a i k s = Inr t" and "accounted s"
      and "\<And>a s. accounted s \<Longrightarrow> accounted (f a s)"
    for f :: "u64 \<Rightarrow> 'a ppa_scheme \<Rightarrow> 'a ppa_scheme" and i k s t
    using that by (rule int_loop_inv)
  show "accounted s'" if h: "accounted s" "ppa_ulckn a n s = Inr s'"
  proof -
    from h(2) obtain t where t: "int_loop ppa_ulck a 0 (unat n) s = Inr t"
        "s' = t\<lparr>last_hit := a div 4096\<rparr>"
      by (auto simp: ppa_ulckn_def rbind_eq_Inr)
    from loop [OF t(1) h(1) accounted_ops(3)] show ?thesis by (simp add: t(2) upd)
  qed
  show "accounted s'" if h: "accounted s" "ppa_ursvn a n s = Inr s'"
  proof -
    from h(2) obtain t where t: "int_loop ppa_ursv a 0 (unat n) s = Inr t"
        "s' = t\<lparr>last_hit := a div 4096\<rparr>"
      by (auto simp: ppa_ursvn_def rbind_eq_Inr)
    from loop [OF t(1) h(1) accounted_ops(4)] show ?thesis by (simp add: t(2) upd)
  qed
qed

lemma accounted_request: "accounted s \<Longrightarrow> accounted (snd (ppa_request s))"
  by (auto simp: ppa_request_def accounted_def [of "s\<lparr>last_hit := _\<rparr>"] accounted_def [of s]
      intro!: accounted_ops split: option.split)

lemma ppa_init_bitmap_frame:
  assumes "ppa_init_bitmap d n s = Inr s'"
  shows "mem_used s' = mem_used s \<and> mem_rsvd s' = mem_rsvd s \<and> mem_free s' = mem_free s \<and>
    mem_total s' = mem_total s \<and> ppa_initialized s' = ppa_initialized s \<and> last_hit s' = last_hit s"
  using assms by (auto simp: ppa_init_bitmap_def Let_def rbind_eq_Inr)

lemma accounted_release:
  assumes "mmap_fold release_desc mmap off extent stride s = Inr s'" and "accounted s"
  shows "accounted s'"
  by (rule mmap_fold_inv [OF assms(1), of accounted])
    (auto simp: release_desc_def Let_def assms(2) split: if_splits intro: accounted_ranges)

lemma accounted_init:
  assumes "ppa_init mmap mmap_size mmap_desc_size s = Inr s'" and "ppa_initialized s = 0 \<or> accounted s"
  shows "accounted s'"
proof (cases "ppa_initialized s \<noteq> 0")
  case True
  then show ?thesis using assms by (simp add: ppa_init_def)
next
  case False
  let ?s = "\<lambda>total. s\<lparr>mem_used := 0, mem_rsvd := 0, mem_total := total, mem_free := total\<rparr>"
  have start: "accounted (?s total)" for total by (simp add: accounted_def)
  have bitmap: "accounted t" if "ppa_init_bitmap d n (?s total) = Inr t" for d n total t
    using start [of total] ppa_init_bitmap_frame [OF that] by (simp add: accounted_def)
  have done_: "accounted (t\<lparr>ppa_initialized := i\<rparr>)" if "accounted t" for t :: "'a ppa_scheme" and i
    using that by (simp add: accounted_def)
  show ?thesis
    using assms(1) False
    by (auto simp: ppa_init_def Let_def rbind_eq_Inr split: if_splits
        intro!: start done_ accounted_ranges(1,2) intro: accounted_release bitmap)
qed

text \<open>The calls a client can make, in any order.\<close>

inductive ppa_step :: "'a ppa_scheme \<Rightarrow> 'a ppa_scheme \<Rightarrow> bool" where
  init: "ppa_init mmap mmap_size mmap_desc_size s = Inr s' \<Longrightarrow> ppa_step s s'"
| lck: "ppa_step s (ppa_lck a s)"
| lckn: "ppa_step s (ppa_lckn a n s)"
| ulck: "ppa_step s (ppa_ulck a s)"
| ulckn: "ppa_ulckn a n s = Inr s' \<Longrightarrow> ppa_step s s'"
| rsv: "ppa_step s (ppa_rsv a s)"
| rsvn: "ppa_step s (ppa_rsvn a n s)"
| ursv: "ppa_step s (ppa_ursv a s)"
| ursvn: "ppa_ursvn a n s = Inr s' \<Longrightarrow> ppa_step s s'"
| request: "ppa_step s (snd (ppa_request s))"

inductive ppa_reachable :: "'a ppa_scheme \<Rightarrow> 'a ppa_scheme \<Rightarrow> bool" for s0 where
  start: "ppa_reachable s0 s0"
| step: "ppa_reachable s0 s \<Longrightarrow> ppa_step s s' \<Longrightarrow> ppa_reachable s0 s'"

lemma ppa_step_accounted: "ppa_step s s' \<Longrightarrow> accounted s \<Longrightarrow> accounted s'"
  by (induction rule: ppa_step.induct)
    (auto intro: accounted_init accounted_ops accounted_ranges accounted_request)

lemma ppa_reachable_accounted: "ppa_reachable s0 s \<Longrightarrow> accounted s0 \<Longrightarrow> accounted s"
  by (induction rule: ppa_reachable.induct) (auto intro: ppa_step_accounted)

text \<open>The state at power-on: every global variable is zero.\<close>

definition ppa_power_on :: "mem \<Rightarrow> ppa" where
  "ppa_power_on m =
     \<lparr>phys = m, ppa_bitmap = \<lparr>bm_size = 0, bm_max_index = 0, bm_data = 0\<rparr>,
      mem_used = 0, mem_rsvd = 0, mem_free = 0, mem_total = 0, ppa_initialized = 0, last_hit = 0\<rparr>"

section \<open>The counters are exact on covered frames\<close>

definition counters_exact :: "'a ppa_scheme \<Rightarrow> bool" where
  "counters_exact s \<longleftrightarrow>
     mem_free s = of_nat (4096 * card {j. j < frames_limit s \<and> \<not> frame_used s j}) \<and>
     mem_used s + mem_rsvd s = of_nat (4096 * card {j. frame_used s j})"

lemma counters_take:
  assumes "bitmap_wf s" and "unat i < frames_limit s" and "\<not> frame_used s (unat i)"
    and "counters_exact s"
    and "frame_used t = frame_used (snd (ppa_bitmap_set i 1 s))" and "frames_limit t = frames_limit s"
    and "mem_free t = mem_free s - 4096" and "mem_used t + mem_rsvd t = mem_used s + mem_rsvd s + 4096"
  shows "counters_exact t"
proof -
  have "card {j. frame_used t j} = card {j. frame_used s j} + 1"
    using bm.card_take [OF assms(1-3), of 1] assms(5) by simp
  moreover from this have "frames_limit s - card {j. frame_used s j} =
      frames_limit t - card {j. frame_used t j} + 1"
    using bm.card_used_le [of t] assms(6) by simp
  ultimately show ?thesis
    using assms(4,7,8) by (simp add: counters_exact_def bm.clear_card algebra_simps)
qed

lemma counters_drop:
  assumes "bitmap_wf s" and "frame_used s (unat i)" and "counters_exact s"
    and "frame_used t = frame_used (snd (ppa_bitmap_set i 0 s))" and "frames_limit t = frames_limit s"
    and "mem_free t = mem_free s + 4096" and "mem_used t + mem_rsvd t = mem_used s + mem_rsvd s - 4096"
  shows "counters_exact t"
proof -
  have "card {j. frame_used s j} = card {j. frame_used t j} + 1"
    using bm.card_drop [OF assms(1,2)] assms(4) by simp
  moreover from this have "frames_limit t - card {j. frame_used t j} =
      frames_limit s - card {j. frame_used s j} + 1"
    using bm.card_used_le [of s] assms(5) by simp
  ultimately show ?thesis
    using assms(3,6,7) by (simp add: counters_exact_def bm.clear_card algebra_simps)
qed

lemma counters_exact_lck:
  "bitmap_wf s \<Longrightarrow> unat (a div 4096) < frames_limit s \<Longrightarrow> counters_exact s \<Longrightarrow>
     counters_exact (ppa_lck a s)"
  by (auto simp: ppa_lck_cases Let_def frame_simps
      intro!: counters_take [where i = "a div 4096" and s = s])

lemma counters_exact_rsv:
  "bitmap_wf s \<Longrightarrow> unat (a div 4096) < frames_limit s \<Longrightarrow> counters_exact s \<Longrightarrow>
     counters_exact (ppa_rsv a s)"
  by (auto simp: ppa_rsv_cases Let_def frame_simps
      intro!: counters_take [where i = "a div 4096" and s = s])

lemma counters_exact_ulck:
  "bitmap_wf s \<Longrightarrow> counters_exact s \<Longrightarrow> counters_exact (ppa_ulck a s)"
  by (auto simp: ppa_ulck_cases Let_def frame_simps
      intro!: counters_drop [where i = "a div 4096" and s = s])

lemma counters_exact_ursv:
  "bitmap_wf s \<Longrightarrow> counters_exact s \<Longrightarrow> counters_exact (ppa_ursv a s)"
  by (auto simp: ppa_ursv_cases Let_def frame_simps
      intro!: counters_drop [where i = "a div 4096" and s = s])

lemma counters_exact_lckn:
  "bitmap_wf s \<Longrightarrow> frames_from a (unat n) \<subseteq> {..<frames_limit s} \<Longrightarrow> counters_exact s \<Longrightarrow>
     counters_exact (ppa_lckn a n s)"
  unfolding ppa_lckn_def by (rule lck.page_loop_inv_range) (rule counters_exact_lck)

lemma counters_exact_rsvn:
  "bitmap_wf s \<Longrightarrow> frames_from a (unat n) \<subseteq> {..<frames_limit s} \<Longrightarrow> counters_exact s \<Longrightarrow>
     counters_exact (ppa_rsvn a n s)"
  unfolding ppa_rsvn_def by (rule rsv.page_loop_inv_range) (rule counters_exact_rsv)

lemma counters_exact_last_hit [simp]: "counters_exact (s\<lparr>last_hit := h\<rparr>) = counters_exact s"
  by (simp add: counters_exact_def)

lemma counters_exact_ursvn:
  assumes "bitmap_wf s" and "counters_exact s" and "ppa_ursvn a n s = Inr s'"
  shows "bitmap_wf s' \<and> counters_exact s'"
proof -
  from assms(3) obtain t where t: "int_loop ppa_ursv a 0 (unat n) s = Inr t"
      and s': "s' = t\<lparr>last_hit := a div 4096\<rparr>"
    by (auto simp: ppa_ursvn_def rbind_eq_Inr)
  have "bitmap_wf t \<and> counters_exact t"
    by (rule int_loop_inv [OF t]) (use assms in \<open>auto simp: counters_exact_ursv ursv.wf_step\<close>)
  then show ?thesis by (simp add: s')
qed

section \<open>Frames the bitmap does not cover\<close>

lemma ppa_lck_beyond:
  "\<not> unat (a div 4096) < frames_limit s \<Longrightarrow>
     ppa_lck a s = s\<lparr>mem_used := mem_used s + 4096, mem_free := mem_free s - 4096\<rparr>"
  by (auto simp: ppa_lck_cases Let_def ppa_bitmap_set_beyond dest: bm.used_limit)

lemma ppa_rsv_beyond:
  "\<not> unat (a div 4096) < frames_limit s \<Longrightarrow>
     ppa_rsv a s = s\<lparr>mem_rsvd := mem_rsvd s + 4096, mem_free := mem_free s - 4096\<rparr>"
  by (auto simp: ppa_rsv_cases Let_def ppa_bitmap_set_beyond dest: bm.used_limit)

lemma ppa_lckn_beyond:
  assumes "\<And>j. j \<in> frames_from a (unat n) \<Longrightarrow> frames_limit s \<le> j"
  shows "ppa_lckn a n s =
    s\<lparr>mem_used := mem_used s + 4096 * n, mem_free := mem_free s - 4096 * n\<rparr>"
proof -
  have "page_loop ppa_lck k a s =
      s\<lparr>mem_used := mem_used s + 4096 * of_nat k, mem_free := mem_free s - 4096 * of_nat k\<rparr>"
    if "\<And>j. j \<in> frames_from a k \<Longrightarrow> frames_limit s \<le> j" for k
    using that
  proof (induction k arbitrary: a s)
    case 0
    then show ?case by simp
  next
    case (Suc k)
    have "\<not> unat (a div 4096) < frames_limit s"
      using Suc.prems [of "unat (a div 4096)"] by (auto simp: frames_from_Suc)
    then show ?case
      using Suc.prems by (simp add: ppa_lck_beyond Suc.IH frames_from_Suc algebra_simps)
  qed
  from this [of "unat n"] assms show ?thesis by (simp add: ppa_lckn_def)
qed

end
