(* ===== verification/FrameSource.thy ===== *)
theory FrameSource
  imports Memory
begin

text \<open>
  What the page mapper needs from the frame allocator, as a contract: while frames are
  available, a request returns a page nobody owns, the caller owns it from then on, and
  the bytes of the pages owned before are as they were. From the contract alone: a
  request followed by clearing the page leaves a zeroed page of the caller's and the
  other owned pages as they were, and successive requests return different pages.
\<close>

definition page_bytes :: "u64 \<Rightarrow> u64 set" where
  "page_bytes p = {x. page_of x = p}"

locale frame_source =
  fixes request :: "'s \<Rightarrow> u64 \<times> 's"
    and memory :: "'s \<Rightarrow> mem"
    and owned :: "'s \<Rightarrow> u64 \<Rightarrow> bool"      \<comment> \<open>pages handed out\<close>
    and available :: "'s \<Rightarrow> nat"         \<comment> \<open>requests that can still be served\<close>
    and ready :: "'s \<Rightarrow> bool"
  assumes request_aligned: "ready s \<Longrightarrow> 0 < available s \<Longrightarrow> page_aligned (fst (request s))"
    and request_fresh: "ready s \<Longrightarrow> 0 < available s \<Longrightarrow> \<not> owned s (fst (request s))"
    and request_owned: "ready s \<Longrightarrow> 0 < available s \<Longrightarrow>
      owned (snd (request s)) p \<longleftrightarrow> p = fst (request s) \<or> owned s p"
    and request_memory: "ready s \<Longrightarrow> 0 < available s \<Longrightarrow> owned s (page_of x) \<Longrightarrow>
      memory (snd (request s)) x = memory s x"
    and request_available: "ready s \<Longrightarrow> 0 < available s \<Longrightarrow>
      available s \<le> available (snd (request s)) + 1"
    and request_ready: "ready s \<Longrightarrow> 0 < available s \<Longrightarrow> ready (snd (request s))"
begin

text \<open>The pages of \<open>n\<close> requests in a row.\<close>

primrec take_pages :: "nat \<Rightarrow> 's \<Rightarrow> u64 list" where
  "take_pages 0 s = []"
| "take_pages (Suc n) s = fst (request s) # take_pages n (snd (request s))"

lemma take_pages_fresh:
  "ready s \<Longrightarrow> n \<le> available s \<Longrightarrow> p \<in> set (take_pages n s) \<Longrightarrow> \<not> owned s p"
proof (induction n arbitrary: s)
  case 0
  then show ?case by simp
next
  case (Suc n)
  then have "0 < available s" and "n \<le> available (snd (request s))"
    using request_available [of s] by auto
  with Suc show ?case
    using request_fresh [of s] request_owned [of s p] request_ready [of s] by auto
qed

lemma take_pages_distinct: "ready s \<Longrightarrow> n \<le> available s \<Longrightarrow> distinct (take_pages n s)"
proof (induction n arbitrary: s)
  case 0
  then show ?case by simp
next
  case (Suc n)
  then have av: "0 < available s" and n: "n \<le> available (snd (request s))"
    using request_available [of s] by auto
  have "owned (snd (request s)) (fst (request s))"
    using request_owned [OF Suc.prems(1) av] by simp
  then have "fst (request s) \<notin> set (take_pages n (snd (request s)))"
    using take_pages_fresh [OF request_ready [OF Suc.prems(1) av] n] by blast
  with Suc n show ?case using request_ready [OF Suc.prems(1) av] by simp
qed

text \<open>A fresh page, cleared.\<close>

lemma cleared_page:
  assumes "ready s" and "0 < available s" and "request s = (p, s')"
    and "m = fst (ppa_memset p 0 4096 (memory s'))"
  shows "page_aligned p"
    and "\<not> owned s p"
    and "unat (x - p) < 4096 \<Longrightarrow> m x = 0"
    and "owned s (page_of x) \<Longrightarrow> m x = memory s x"
proof -
  show al: "page_aligned p" and fresh: "\<not> owned s p"
    using request_aligned [OF assms(1,2)] request_fresh [OF assms(1,2)] by (simp_all add: assms(3))
  show "unat (x - p) < 4096 \<Longrightarrow> m x = 0"
    by (simp add: assms(4) ppa_memset_apply)
  show "m x = memory s x" if "owned s (page_of x)"
  proof -
    have "page_of x \<noteq> p" using that fresh by auto
    then have "\<not> unat (x - p) < 4096" by (simp add: page_of_iff al)
    then show ?thesis
      using request_memory [OF assms(1,2) that] by (simp add: assms(3,4) ppa_memset_apply)
  qed
qed

end

end
