(* ===== verification/FrameRequest.thy ===== *)
theory FrameRequest
  imports FrameAccounting FrameSource
begin

text \<open>
  \<open>ppa_request\<close>: which frame it returns, what it changes, what it does when no frame is
  left, and the contract of \<open>FrameSource\<close> that follows while frames are left.
\<close>

section \<open>The flags beyond the last frame\<close>

text \<open>
  The last word of the bitmap has at least one flag beyond the last frame. They are
  cleared at initialisation and no operation writes them.
\<close>

definition tail_clear :: "'a ppa_scheme \<Rightarrow> bool" where
  "tail_clear s \<longleftrightarrow>
     (\<forall>j. frames_limit s \<le> j \<and> j < 32 * unat (bm_size (ppa_bitmap s)) \<longrightarrow> \<not> frame_bit s j)"

lemma size_bits_bound: "bitmap_wf s \<Longrightarrow> 32 * unat (bm_size (ppa_bitmap s)) \<le> 2 ^ 53"
  by (auto simp: bitmap_wf_def)

lemma tail_clear_set: "bitmap_wf s \<Longrightarrow> tail_clear s \<Longrightarrow> tail_clear (snd (ppa_bitmap_set i v s))"
  using size_bits_bound [of s]
  by (cases "unat i < frames_limit s")
    (auto simp: tail_clear_def frame_simps frame_bit_set ppa_bitmap_set_beyond)

lemma tail_clear_update [simp]:
  "tail_clear (s\<lparr>mem_used := u\<rparr>) = tail_clear s"
  "tail_clear (s\<lparr>mem_rsvd := r\<rparr>) = tail_clear s"
  "tail_clear (s\<lparr>mem_free := f\<rparr>) = tail_clear s"
  "tail_clear (s\<lparr>last_hit := h\<rparr>) = tail_clear s"
  "tail_clear (s\<lparr>ppa_initialized := b\<rparr>) = tail_clear s"
  by (simp_all add: tail_clear_def)

lemma tail_clear_ops:
  "bitmap_wf s \<Longrightarrow> tail_clear s \<Longrightarrow> tail_clear (ppa_lck a s)"
  "bitmap_wf s \<Longrightarrow> tail_clear s \<Longrightarrow> tail_clear (ppa_rsv a s)"
  "bitmap_wf s \<Longrightarrow> tail_clear s \<Longrightarrow> tail_clear (ppa_ulck a s)"
  "bitmap_wf s \<Longrightarrow> tail_clear s \<Longrightarrow> tail_clear (ppa_ursv a s)"
  by (simp_all add: frame_op_cases Let_def tail_clear_set)

section \<open>The search\<close>

lemma unat_index:
  assumes "hi < 2 ^ 58" and "k < 32"
  shows "unat (of_nat hi * 32 + of_nat k :: u64) = 32 * hi + k"
proof -
  have "(of_nat hi * 32 + of_nat k :: u64) = of_nat (32 * hi + k)" by simp
  also have "unat \<dots> = 32 * hi + k" by (rule unat_of_nat_small) (use assms in simp)
  finally show ?thesis .
qed

lemma request_lo_Some:
  assumes "request_lo lo (of_nat hi) s = Some index" and "hi < 2 ^ 58"
  shows "\<exists>k. lo \<le> k \<and> k < 32 \<and> index = of_nat (32 * hi + k) \<and> \<not> frame_used s (32 * hi + k) \<and>
    (\<forall>l. lo \<le> l \<and> l < k \<longrightarrow> frame_used s (32 * hi + l))"
  using assms(1)
proof (induction "32 - lo" arbitrary: lo)
  case 0
  then show ?case by (simp add: request_lo.simps)
next
  case (Suc d)
  then have lo: "lo < 32" and d: "d = 32 - Suc lo" by auto
  note step = request_lo.simps [of lo "of_nat hi" s] unat_index [OF assms(2) lo]
  show ?case
  proof (cases "frame_used s (32 * hi + lo)")
    case True
    with Suc.prems lo have "request_lo (Suc lo) (of_nat hi) s = Some index"
      by (simp add: step ppa_bitmap_get_eq)
    from Suc.hyps(1) [OF d this] True show ?thesis
      by (metis Suc_leD Suc_leI le_neq_implies_less)
  next
    case False
    with Suc.prems lo show ?thesis by (intro exI [of _ lo]) (auto simp: step ppa_bitmap_get_eq)
  qed
qed

lemma request_lo_None:
  assumes "request_lo lo (of_nat hi) s = None" and "hi < 2 ^ 58" and "lo \<le> l" and "l < 32"
  shows "frame_used s (32 * hi + l)"
  using assms(1,3)
proof (induction "32 - lo" arbitrary: lo)
  case 0
  then show ?case using assms(4) by simp
next
  case (Suc d)
  then have lo: "lo < 32" and d: "d = 32 - Suc lo" by auto
  note step = request_lo.simps [of lo "of_nat hi" s] unat_index [OF assms(2) lo]
  from Suc.prems(1) lo have used: "frame_used s (32 * hi + lo)"
    and rest: "request_lo (Suc lo) (of_nat hi) s = None"
    by (auto simp: step ppa_bitmap_get_eq split: if_splits)
  show ?case
    using Suc.hyps(1) [OF d rest] used Suc.prems(2) by (cases "l = lo") auto
qed

lemma full_word:
  assumes "NOT (load32 (phys s) (bitmap_word_addr (ppa_bitmap s) (of_nat hi))) = 0" and "k < 32"
  shows "frame_bit s (32 * hi + k)"
proof -
  have "load32 (phys s) (bitmap_word_addr (ppa_bitmap s) (of_nat hi)) = - 1"
    using assms(1) by (metis bit.compl_zero bit.double_compl)
  then show ?thesis using assms(2) by (simp add: frame_bit_def)
qed

lemma request_hi_result:
  assumes "bitmap_wf s" and "tail_clear s" and "hi < unat (bm_size (ppa_bitmap s))"
  shows "\<exists>i. 32 * hi \<le> i \<and> i \<le> frames_limit s \<and> \<not> frame_used s i \<and>
    (\<forall>j. 32 * hi \<le> j \<and> j < i \<longrightarrow> frame_used s j) \<and> request_hi hi s = Some (of_nat i)"
  using assms(3)
proof (induction "unat (bm_size (ppa_bitmap s)) - hi" arbitrary: hi)
  case 0
  then show ?case by simp
next
  case (Suc d)
  let ?n = "unat (bm_size (ppa_bitmap s))"
  from Suc have hi: "hi < ?n" and d: "d = ?n - Suc hi" by auto
  have small: "hi < 2 ^ 58" using hi size_bits_bound [OF assms(1)] by simp
  note step = request_hi.simps [of hi s]
  have last: "Suc hi < ?n" if all: "\<And>k. k < 32 \<Longrightarrow> frame_bit s (32 * hi + k)"
  proof (rule ccontr)
    assume "\<not> Suc hi < ?n"
    with hi have e: "frames_limit s div 32 = hi" using assms(1) by (simp add: bitmap_wf_def)
    have "frame_bit s (32 * hi + frames_limit s mod 32)" by (rule all) simp
    moreover have "32 * hi + frames_limit s mod 32 = frames_limit s" using e by auto
    moreover have "frames_limit s < 32 * ?n" using assms(1) by (simp add: bitmap_wf_def)
    ultimately show False using assms(2) by (auto simp: tail_clear_def)
  qed
  have onward: ?case
    if all: "\<And>k. k < 32 \<Longrightarrow> frame_bit s (32 * hi + k)"
      and eq: "request_hi hi s = request_hi (Suc hi) s"
  proof -
    from Suc.hyps(1) [OF d last [OF all]] obtain i
      where i: "32 * Suc hi \<le> i" "i \<le> frames_limit s" "\<not> frame_used s i"
        "\<forall>j. 32 * Suc hi \<le> j \<and> j < i \<longrightarrow> frame_used s j" "request_hi (Suc hi) s = Some (of_nat i)"
      by blast
    have "frame_used s j" if "32 * hi \<le> j" "j < i" for j
    proof (cases "32 * Suc hi \<le> j")
      case False
      then have "j = 32 * hi + (j - 32 * hi)" "j - 32 * hi < 32" using that by auto
      then have "frame_bit s j" using all by metis
      then show ?thesis using that i(2) by (simp add: frame_used_def)
    qed (use i(4) that in blast)
    then show ?thesis using i eq by (intro exI [of _ i]) auto
  qed
  show ?case
  proof (cases "NOT (load32 (phys s) (bitmap_word_addr (ppa_bitmap s) (of_nat hi))) = 0")
    case True
    then show ?thesis using hi by (intro onward full_word) (simp_all add: step)
  next
    case False
    show ?thesis
    proof (cases "request_lo 0 (of_nat hi) s")
      case None
      then have "\<And>k. k < 32 \<Longrightarrow> frame_bit s (32 * hi + k)"
        using request_lo_None [OF None small] by (auto simp: frame_used_def)
      then show ?thesis using False hi None by (intro onward) (simp_all add: step)
    next
      case (Some index)
      from request_lo_Some [OF Some small] obtain k where
        k: "k < 32" "index = of_nat (32 * hi + k)" "\<not> frame_used s (32 * hi + k)"
          "\<forall>l<k. frame_used s (32 * hi + l)" by auto
      have prefix: "frame_used s j" if "32 * hi \<le> j" "j < 32 * hi + k" for j
        using k(4) that by (metis add_less_cancel_left le_add_diff_inverse)
      have "32 * hi + k \<le> frames_limit s"
      proof (rule ccontr)
        assume far: "\<not> 32 * hi + k \<le> frames_limit s"
        have "32 * hi \<le> frames_limit s"
          using hi assms(1) by (simp add: bitmap_wf_def)
        with far have "frame_used s (frames_limit s)" by (intro prefix) auto
        then show False by (simp add: frame_used_def)
      qed
      then show ?thesis
        using k prefix False hi Some by (intro exI [of _ "32 * hi + k"]) (simp add: step)
    qed
  qed
qed

lemma last_hit_word: "unat (drop_bit 5 (w :: u64)) = unat w div 32"
  by (simp add: unsigned_drop_bit_eq drop_bit_eq_div unat_div_distrib)

text \<open>The frame \<open>ppa_request\<close> settles on.\<close>

lemma ppa_request_result:
  assumes "bitmap_wf s" and "tail_clear s"
    and "unat (last_hit s) div 32 < unat (bm_size (ppa_bitmap s))"
  obtains i where "32 * (unat (last_hit s) div 32) \<le> i" and "i \<le> frames_limit s"
    and "\<not> frame_used s i"
    and "\<And>j. 32 * (unat (last_hit s) div 32) \<le> j \<Longrightarrow> j < i \<Longrightarrow> frame_used s j"
    and "ppa_request s = (of_nat (4096 * i), ppa_lck (of_nat (4096 * i)) (s\<lparr>last_hit := of_nat i\<rparr>))"
proof -
  from request_hi_result [OF assms] obtain i where
    i: "32 * (unat (last_hit s) div 32) \<le> i" "i \<le> frames_limit s" "\<not> frame_used s i"
      "\<forall>j. 32 * (unat (last_hit s) div 32) \<le> j \<and> j < i \<longrightarrow> frame_used s j"
      "request_hi (unat (last_hit s) div 32) s = Some (of_nat i)" by blast
  have "ppa_request s = (of_nat (4096 * i), ppa_lck (of_nat (4096 * i)) (s\<lparr>last_hit := of_nat i\<rparr>))"
    by (simp add: ppa_request_def last_hit_word i(5) mult.commute)
  with i that show thesis by blast
qed

section \<open>The allocator as a source of frames\<close>

lemma frame_addr:
  assumes "i < 2 ^ 52"
  shows "unat (of_nat (4096 * i) :: u64) = 4096 * i"
    and "unat (of_nat (4096 * i) div 4096 :: u64) = i"
    and "page_aligned (of_nat (4096 * i))"
proof -
  define a :: u64 where "a = of_nat (4096 * i)"
  have a: "unat a = 4096 * i"
    unfolding a_def by (rule unat_of_nat_small) (use assms in simp)
  have "take_bit 12 (unat a) = 0" by (simp add: a take_bit_eq_mod)
  then have "take_bit 12 a = 0" by (simp add: word_unat_eq_iff unsigned_take_bit_eq)
  then show "unat (of_nat (4096 * i) :: u64) = 4096 * i"
    and "unat (of_nat (4096 * i) div 4096 :: u64) = i"
    and "page_aligned (of_nat (4096 * i))"
    using a by (simp_all only: a_def [symmetric] page_aligned_def unat_div_distrib) simp_all
qed

lemma page_aligned_frame: "page_aligned p \<Longrightarrow> p = of_nat (4096 * (unat p div 4096))"
proof -
  assume "page_aligned p"
  then have "take_bit 12 (unat p) = 0"
    by (metis page_aligned_def unsigned_0 unsigned_take_bit_eq)
  then have "4096 * (unat p div 4096) = unat p" by (simp add: take_bit_eq_mod mod_0_imp_dvd)
  then show "p = of_nat (4096 * (unat p div 4096))" by simp
qed

lemma page_of_frame: "unat (page_of x) div 4096 = unat x div 4096"
proof -
  have "drop_bit 12 (page_of x) = drop_bit 12 x"
    by (rule bit_word_eqI) (auto simp: bit_drop_bit_eq bit_page_of)
  then have "unat (drop_bit 12 (page_of x)) = unat (drop_bit 12 x)" by simp
  then show ?thesis by (simp add: drop_bit_eq_div unat_div_distrib)
qed

text \<open>A page of the allocator's clients: its frame is taken and holds none of the bitmap.\<close>

definition client_page :: "'a ppa_scheme \<Rightarrow> u64 \<Rightarrow> bool" where
  "client_page s p \<longleftrightarrow> page_aligned p \<and> frame_used s (unat p div 4096) \<and>
     (\<forall>x\<in>bitmap_bytes (ppa_bitmap s). page_of x \<noteq> p)"

text \<open>Frames the search can still reach.\<close>

definition frames_ahead :: "'a ppa_scheme \<Rightarrow> nat set" where
  "frames_ahead s =
     {j. 32 * (unat (last_hit s) div 32) \<le> j \<and> j < frames_limit s \<and> \<not> frame_used s j}"

definition allocator_ready :: "'a ppa_scheme \<Rightarrow> bool" where
  "allocator_ready s \<longleftrightarrow> bitmap_wf s \<and> tail_clear s \<and>
     unat (last_hit s) div 32 < unat (bm_size (ppa_bitmap s)) \<and>
     (\<forall>x\<in>bitmap_bytes (ppa_bitmap s). frame_used s (unat x div 4096))"

lemma ppa_lck_phys:
  assumes "bitmap_wf s" and "x \<notin> bitmap_bytes (ppa_bitmap s)"
  shows "phys (ppa_lck a s) x = phys s x"
  using assms by (simp add: ppa_lck_cases Let_def phys_bitmap_set)

lemma ppa_lck_frame [frame_simps]:
  "ppa_bitmap (ppa_lck a s) = ppa_bitmap s"
  "last_hit (ppa_lck a s) = last_hit s"
  "mem_total (ppa_lck a s) = mem_total s"
  "frames_limit (ppa_lck a s) = frames_limit s"
  "ppa_initialized (ppa_lck a s) = ppa_initialized s"
  "ppa.more (ppa_lck a s) = ppa.more s"
  by (simp_all add: ppa_lck_cases Let_def frame_simps)

text \<open>A request that meets a free frame ahead.\<close>

lemma ppa_request_served:
  assumes "allocator_ready s" and "frames_ahead s \<noteq> {}"
  obtains i where "i \<in> frames_ahead s"
    and "\<And>j. j \<in> frames_ahead s \<Longrightarrow> i \<le> j"
    and "fst (ppa_request s) = of_nat (4096 * i)"
    and "snd (ppa_request s) = ppa_lck (of_nat (4096 * i)) (s\<lparr>last_hit := of_nat i\<rparr>)"
    and "\<And>j. frame_used (snd (ppa_request s)) j \<longleftrightarrow> j = i \<or> frame_used s j"
proof -
  from assms(1) have wf: "bitmap_wf s" by (simp add: allocator_ready_def)
  from assms(1) obtain i where
    i: "32 * (unat (last_hit s) div 32) \<le> i" "i \<le> frames_limit s" "\<not> frame_used s i"
      "\<And>j. 32 * (unat (last_hit s) div 32) \<le> j \<Longrightarrow> j < i \<Longrightarrow> frame_used s j"
      "ppa_request s = (of_nat (4096 * i), ppa_lck (of_nat (4096 * i)) (s\<lparr>last_hit := of_nat i\<rparr>))"
    by (auto simp: allocator_ready_def elim: ppa_request_result)
  from assms(2) obtain f where f: "f \<in> frames_ahead s" by blast
  then have "i \<le> f" using i(4) [of f] by (auto simp: frames_ahead_def not_less [symmetric])
  with f have lt: "i < frames_limit s" by (simp add: frames_ahead_def)
  with wf have fa: "unat (of_nat (4096 * i) div 4096 :: u64) = i"
    by (intro frame_addr(2)) (simp add: bitmap_wf_def)
  have "frame_used (snd (ppa_request s)) j \<longleftrightarrow> j = i \<or> frame_used s j" for j
    using wf lt by (auto simp: i(5) lck.used_step fa simp del: of_nat_mult)
  moreover have "i \<in> frames_ahead s" using i(1,3) lt by (simp add: frames_ahead_def)
  moreover have "i \<le> j" if "j \<in> frames_ahead s" for j
    using that i(4) [of j] by (auto simp: frames_ahead_def not_less [symmetric])
  ultimately show thesis using i(5) that by auto
qed

lemma request_ahead:
  assumes "allocator_ready s" and "0 < card (frames_ahead s)" and "fst (ppa_request s) = p"
  shows "unat p div 4096 \<in> frames_ahead s"
proof -
  have "frames_ahead s \<noteq> {}" using assms(2) by auto
  from assms(1) this obtain i where i: "i \<in> frames_ahead s" "fst (ppa_request s) = of_nat (4096 * i)"
    by (rule ppa_request_served)
  have "i < 2 ^ 40" using i(1) assms(1) by (simp add: frames_ahead_def allocator_ready_def bitmap_wf_def)
  then have "unat p = 4096 * i"
    using unat_of_nat_small [of "4096 * i", where 'a = 64] i(2) assms(3) by simp
  with i(1) show ?thesis by simp
qed

lemma finite_frames_ahead: "finite (frames_ahead s)"
  by (rule finite_subset [of _ "{..<frames_limit s}"]) (auto simp: frames_ahead_def)

lemma frames_ahead_request:
  assumes "allocator_ready s" and "frames_ahead s \<noteq> {}"
  shows "\<exists>i\<in>frames_ahead s. frames_ahead (snd (ppa_request s)) = frames_ahead s - {i}"
proof -
  obtain i where i: "i \<in> frames_ahead s" "\<And>j. j \<in> frames_ahead s \<Longrightarrow> i \<le> j"
      "snd (ppa_request s) = ppa_lck (of_nat (4096 * i)) (s\<lparr>last_hit := of_nat i\<rparr>)"
      "\<And>j. frame_used (snd (ppa_request s)) j \<longleftrightarrow> j = i \<or> frame_used s j"
    by (rule ppa_request_served [OF assms]) blast
  have "frames_limit s < 2 ^ 52" using assms(1) by (simp add: allocator_ready_def bitmap_wf_def)
  then have hit: "unat (of_nat i :: u64) = i"
    using i(1) by (intro unat_of_nat_small) (auto simp: frames_ahead_def)
  have lim: "frames_limit (snd (ppa_request s)) = frames_limit s"
    and lh: "last_hit (snd (ppa_request s)) = of_nat i"
    by (simp_all add: i(3) frame_simps)
  have ge: "32 * (unat (last_hit s) div 32) \<le> 32 * (i div 32)" and le: "32 * (i div 32) \<le> i"
    using i(1) by (auto simp: frames_ahead_def)
  have "frames_ahead (snd (ppa_request s)) = frames_ahead s - {i}"
    unfolding frames_ahead_def [of "snd (ppa_request s)"] lim lh hit i(4)
    using i(2) ge le by (fastforce simp: frames_ahead_def)
  with i(1) show ?thesis by blast
qed

lemma allocator_ready_request:
  assumes "allocator_ready s" and "frames_ahead s \<noteq> {}"
  shows "allocator_ready (snd (ppa_request s))"
proof -
  obtain i where i: "i \<in> frames_ahead s"
      "snd (ppa_request s) = ppa_lck (of_nat (4096 * i)) (s\<lparr>last_hit := of_nat i\<rparr>)"
      "\<And>j. frame_used (snd (ppa_request s)) j \<longleftrightarrow> j = i \<or> frame_used s j"
    by (rule ppa_request_served [OF assms]) blast
  from assms(1) have wf: "bitmap_wf s" and tail: "tail_clear s"
    and n: "unat (bm_size (ppa_bitmap s)) = frames_limit s div 32 + 1"
    by (simp_all add: allocator_ready_def bitmap_wf_def)
  have "unat (of_nat i :: u64) = i"
    using i(1) wf by (intro unat_of_nat_small) (auto simp: frames_ahead_def bitmap_wf_def)
  then have "unat (of_nat i :: u64) div 32 < unat (bm_size (ppa_bitmap s))"
    using i(1) n by (simp add: frames_ahead_def less_Suc_eq_le div_le_mono)
  moreover have "tail_clear (snd (ppa_request s))"
    using wf tail unfolding i(2) by (simp add: tail_clear_ops)
  moreover have "bitmap_wf (snd (ppa_request s))"
    using wf unfolding i(2) by (simp add: lck.wf_step)
  moreover have "\<forall>x\<in>bitmap_bytes (ppa_bitmap s). frame_used (snd (ppa_request s)) (unat x div 4096)"
    using assms(1) i(3) by (simp add: allocator_ready_def)
  ultimately show ?thesis by (simp add: allocator_ready_def i(2) frame_simps)
qed

lemma client_page_request:
  assumes "allocator_ready s" and "frames_ahead s \<noteq> {}"
  shows "page_aligned (fst (ppa_request s))"
    and "\<not> client_page s (fst (ppa_request s))"
    and "client_page (snd (ppa_request s)) p \<longleftrightarrow> p = fst (ppa_request s) \<or> client_page s p"
    and "client_page s (page_of x) \<Longrightarrow> phys (snd (ppa_request s)) x = phys s x"
proof -
  obtain i where i: "i \<in> frames_ahead s"
      "fst (ppa_request s) = of_nat (4096 * i)"
      "snd (ppa_request s) = ppa_lck (of_nat (4096 * i)) (s\<lparr>last_hit := of_nat i\<rparr>)"
      "\<And>j. frame_used (snd (ppa_request s)) j \<longleftrightarrow> j = i \<or> frame_used s j"
    by (rule ppa_request_served [OF assms]) blast
  from assms(1) have wf: "bitmap_wf s"
    and locked: "\<And>x. x \<in> bitmap_bytes (ppa_bitmap s) \<Longrightarrow> frame_used s (unat x div 4096)"
    by (simp_all add: allocator_ready_def)
  have "i < 2 ^ 52" and free: "\<not> frame_used s i"
    using i(1) wf by (simp_all add: frames_ahead_def bitmap_wf_def)
  note addr = frame_addr [OF this(1)]
  show al: "page_aligned (fst (ppa_request s))" unfolding i(2) by (rule addr(3))
  have num: "unat (fst (ppa_request s)) div 4096 = i" unfolding i(2) addr(1) by simp
  show "\<not> client_page s (fst (ppa_request s))" by (simp add: client_page_def num free)
  have "page_of x \<noteq> fst (ppa_request s)" if "x \<in> bitmap_bytes (ppa_bitmap s)" for x
  proof
    assume "page_of x = fst (ppa_request s)"
    then have "unat x div 4096 = i" using num page_of_frame [of x] by (simp only:)
    then show False using locked [OF that] free by simp
  qed
  moreover have "unat p div 4096 = i \<longleftrightarrow> p = fst (ppa_request s)" if "page_aligned p"
  proof
    assume "unat p div 4096 = i"
    with page_aligned_frame [OF that] show "p = fst (ppa_request s)" by (simp only: i(2))
  qed (simp only: num)
  moreover have "ppa_bitmap (snd (ppa_request s)) = ppa_bitmap s" by (simp add: i(3) frame_simps)
  ultimately show "client_page (snd (ppa_request s)) p \<longleftrightarrow> p = fst (ppa_request s) \<or> client_page s p"
    using al by (cases "page_aligned p") (auto simp: client_page_def i(4))
  show "phys (snd (ppa_request s)) x = phys s x" if "client_page s (page_of x)"
  proof -
    have "x \<notin> bitmap_bytes (ppa_bitmap s)" using that by (auto simp: client_page_def)
    then show ?thesis using wf by (simp add: i(3) ppa_lck_phys)
  qed
qed

lemma frames_ahead_pos: "0 < card (frames_ahead s) \<longleftrightarrow> frames_ahead s \<noteq> {}"
  by (simp add: card_gt_0_iff finite_frames_ahead)

interpretation ppa: frame_source ppa_request phys client_page "\<lambda>s. card (frames_ahead s)" allocator_ready
proof
  fix s :: "'a ppa_scheme" and p x
  assume ready: "allocator_ready s" and "0 < card (frames_ahead s)"
  then have ahead: "frames_ahead s \<noteq> {}" by (simp add: frames_ahead_pos)
  note facts = client_page_request [OF ready ahead]
  show "page_aligned (fst (ppa_request s))" by (rule facts(1))
  show "\<not> client_page s (fst (ppa_request s))" by (rule facts(2))
  show "client_page (snd (ppa_request s)) p \<longleftrightarrow> p = fst (ppa_request s) \<or> client_page s p"
    by (rule facts(3))
  show "client_page s (page_of x) \<Longrightarrow> phys (snd (ppa_request s)) x = phys s x" by (rule facts(4))
  from frames_ahead_request [OF ready ahead] obtain i where i: "i \<in> frames_ahead s"
    and rest: "frames_ahead (snd (ppa_request s)) = frames_ahead s - {i}" by blast
  from card_Suc_Diff1 [OF finite_frames_ahead i]
  show "card (frames_ahead s) \<le> card (frames_ahead (snd (ppa_request s))) + 1"
    by (simp only: rest)
  show "allocator_ready (snd (ppa_request s))" by (rule allocator_ready_request [OF ready ahead])
qed

section \<open>Exact counters over runs of covered calls\<close>

inductive covered_step :: "'a ppa_scheme \<Rightarrow> 'a ppa_scheme \<Rightarrow> bool" where
  lck: "unat (a div 4096) < frames_limit s \<Longrightarrow> covered_step s (ppa_lck a s)"
| lckn: "frames_from a (unat n) \<subseteq> {..<frames_limit s} \<Longrightarrow> covered_step s (ppa_lckn a n s)"
| ulck: "covered_step s (ppa_ulck a s)"
| ulckn: "ppa_ulckn a n s = Inr s' \<Longrightarrow> covered_step s s'"
| rsv: "unat (a div 4096) < frames_limit s \<Longrightarrow> covered_step s (ppa_rsv a s)"
| rsvn: "frames_from a (unat n) \<subseteq> {..<frames_limit s} \<Longrightarrow> covered_step s (ppa_rsvn a n s)"
| ursv: "covered_step s (ppa_ursv a s)"
| ursvn: "ppa_ursvn a n s = Inr s' \<Longrightarrow> covered_step s s'"
| request: "unat (last_hit s) div 32 < unat (bm_size (ppa_bitmap s)) \<Longrightarrow> frames_ahead s \<noteq> {} \<Longrightarrow>
    covered_step s (snd (ppa_request s))"

inductive covered_run :: "'a ppa_scheme \<Rightarrow> 'a ppa_scheme \<Rightarrow> bool" for s0 where
  start: "covered_run s0 s0"
| step: "covered_run s0 s \<Longrightarrow> covered_step s s' \<Longrightarrow> covered_run s0 s'"

definition exact_state :: "'a ppa_scheme \<Rightarrow> bool" where
  "exact_state s \<longleftrightarrow> bitmap_wf s \<and> tail_clear s \<and> counters_exact s"

lemma exact_state_last_hit [simp]: "exact_state (s\<lparr>last_hit := h\<rparr>) = exact_state s"
  by (simp add: exact_state_def)

lemma exact_state_ops:
  "exact_state s \<Longrightarrow> unat (a div 4096) < frames_limit s \<Longrightarrow> exact_state (ppa_lck a s)"
  "exact_state s \<Longrightarrow> unat (a div 4096) < frames_limit s \<Longrightarrow> exact_state (ppa_rsv a s)"
  "exact_state s \<Longrightarrow> exact_state (ppa_ulck a s)"
  "exact_state s \<Longrightarrow> exact_state (ppa_ursv a s)"
  by (simp_all add: exact_state_def tail_clear_ops lck.wf_step rsv.wf_step ulck.wf_step ursv.wf_step
      counters_exact_lck counters_exact_rsv counters_exact_ulck counters_exact_ursv)

lemma exact_state_ranges:
  assumes "exact_state s" and "frames_from a (unat n) \<subseteq> {..<frames_limit s}"
  shows "exact_state (ppa_lckn a n s)" and "exact_state (ppa_rsvn a n s)"
proof -
  have wf: "bitmap_wf s" using assms(1) by (simp add: exact_state_def)
  show "exact_state (ppa_lckn a n s)"
    unfolding ppa_lckn_def
    by (rule lck.page_loop_inv_range [where P = exact_state, OF _ assms(2) wf assms(1)]) (rule exact_state_ops)
  show "exact_state (ppa_rsvn a n s)"
    unfolding ppa_rsvn_def
    by (rule rsv.page_loop_inv_range [where P = exact_state, OF _ assms(2) wf assms(1)]) (rule exact_state_ops)
qed

lemma exact_state_int_loop:
  assumes "int_loop step a i n s = Inr t" and "exact_state s"
    and "\<And>a s. exact_state s \<Longrightarrow> exact_state (step a s)"
  shows "exact_state t"
  using assms by (rule int_loop_inv)

lemma exact_state_releases:
  "ppa_ulckn a n s = Inr s' \<Longrightarrow> exact_state s \<Longrightarrow> exact_state s'"
  "ppa_ursvn a n s = Inr s' \<Longrightarrow> exact_state s \<Longrightarrow> exact_state s'"
  by (auto simp: ppa_ulckn_def ppa_ursvn_def rbind_eq_Inr
      elim!: exact_state_int_loop exact_state_ops)

lemma exact_state_request:
  assumes "exact_state s" and "unat (last_hit s) div 32 < unat (bm_size (ppa_bitmap s))"
    and "frames_ahead s \<noteq> {}"
  shows "exact_state (snd (ppa_request s))"
proof -
  from assms(1) have wf: "bitmap_wf s" and tail: "tail_clear s" by (simp_all add: exact_state_def)
  from wf tail assms(2) obtain i where i: "i \<le> frames_limit s"
      "\<And>j. 32 * (unat (last_hit s) div 32) \<le> j \<Longrightarrow> j < i \<Longrightarrow> frame_used s j"
      "ppa_request s = (of_nat (4096 * i), ppa_lck (of_nat (4096 * i)) (s\<lparr>last_hit := of_nat i\<rparr>))"
    by (rule ppa_request_result) blast
  have "i \<noteq> frames_limit s" using assms(3) i(2) by (auto simp: frames_ahead_def)
  with i(1) have lt: "i < frames_limit s" by simp
  with wf have "unat (of_nat (4096 * i) div 4096 :: u64) = i"
    by (intro frame_addr(2)) (simp add: bitmap_wf_def)
  then show ?thesis using lt assms(1) by (simp add: i(3) exact_state_ops(1) del: of_nat_mult)
qed

lemma covered_run_exact:
  assumes "covered_run s s'" and "bitmap_wf s" and "tail_clear s" and "counters_exact s"
  shows "exact_state s'"
  using assms(1)
proof (induction rule: covered_run.induct)
  case start
  then show ?case using assms by (simp add: exact_state_def)
next
  case (step s s')
  from step.hyps(2) step.IH show ?case
    by (induction rule: covered_step.induct)
      (blast intro: exact_state_ops exact_state_ranges exact_state_releases exact_state_request)+
qed

end
