(* ===== verification/PageMap.thy ===== *)
theory PageMap
  imports FrameRequest
begin

text \<open>
  The four-level page tables, \<open>page_map.c\<close>: entries and their flag and address fields,
  the walk of \<open>pmm_find_paddr\<close>, and \<open>pmm_map_memory\<close>, which takes the pages for missing
  tables from the frame allocator.
\<close>

section \<open>Entries\<close>

type_synonym PageDirectoryEntry = u64

text \<open>
  The flags are an enumeration without negative values, which the compiler represents as
  an \<open>unsigned int\<close>: the complement of a mask is taken at 32 bits and then extended by
  zeros.
\<close>

definition PDE_P :: u32 where "PDE_P = push_bit 0 1"
definition PDE_RW :: u32 where "PDE_RW = push_bit 1 1"
definition PDE_US :: u32 where "PDE_US = push_bit 2 1"
definition PDE_PWT :: u32 where "PDE_PWT = push_bit 3 1"
definition PDE_PCD :: u32 where "PDE_PCD = push_bit 4 1"
definition PDE_A :: u32 where "PDE_A = push_bit 5 1"
definition PDE_AVL :: u32 where "PDE_AVL = push_bit 6 1"
definition PDE_PS :: u32 where "PDE_PS = push_bit 7 1"

definition pmm_flag_set :: "PageDirectoryEntry \<Rightarrow> u32 \<Rightarrow> u8 \<Rightarrow> PageDirectoryEntry" where
  "pmm_flag_set entry bit_mask val =
     (if val \<noteq> 0 then entry OR ucast bit_mask else entry AND ucast (NOT bit_mask))"

definition pmm_flag_get :: "PageDirectoryEntry \<Rightarrow> u32 \<Rightarrow> u8" where
  "pmm_flag_get entry bit_mask = (if entry AND ucast bit_mask = ucast bit_mask then 1 else 0)"

definition pmm_addr_set :: "PageDirectoryEntry \<Rightarrow> u64 \<Rightarrow> PageDirectoryEntry" where
  "pmm_addr_set entry addr =
     (let addr = addr AND 0x000000ffffffffff;
          entry = entry AND 0xfff0000000000fff
      in entry OR push_bit 12 addr)"

definition pmm_addr_get :: "PageDirectoryEntry \<Rightarrow> u64" where
  "pmm_addr_get entry = drop_bit 12 (entry AND 0x000ffffffffff000)"

section \<open>Tables\<close>

text \<open>
  The allocator's state with the root table. A table is named by its address; entry \<open>i\<close>
  is the 64-bit word at byte offset \<open>8 * i\<close>.
\<close>

record pmm = ppa +
  PML4 :: u64

definition pmm_init_pml4 :: "u64 \<Rightarrow> 'a pmm_scheme \<Rightarrow> u64 \<times> 'a pmm_scheme" where
  "pmm_init_pml4 addr s = (addr, s\<lparr>PML4 := addr\<rparr>)"

definition table_entry :: "mem \<Rightarrow> u64 \<Rightarrow> u64 \<Rightarrow> PageDirectoryEntry" where
  "table_entry m table index = load64 m (table + 8 * index)"

definition table_store :: "u64 \<Rightarrow> u64 \<Rightarrow> PageDirectoryEntry \<Rightarrow> mem \<Rightarrow> mem" where
  "table_store table index pde m = store64 m (table + 8 * index) pde"

text \<open>\<open>((uint64_t)vaddr >> shift) & 0x1ff\<close>, with shifts 39, 30, 21 and 12.\<close>

definition vindex :: "nat \<Rightarrow> u64 \<Rightarrow> u64" where
  "vindex shift vaddr = drop_bit shift vaddr AND 0x1ff"

text \<open>
  The step the code repeats for the first three levels: the entry's table, made and
  linked when the entry is not present.
\<close>

definition next_table :: "u64 \<Rightarrow> u64 \<Rightarrow> 'a ppa_scheme \<Rightarrow> u64 \<times> 'a ppa_scheme" where
  "next_table table index s =
     (let pde = table_entry (phys s) table index
      in if pmm_flag_get pde PDE_P = 0
         then let (sub, s) = ppa_request s;
                  s = s\<lparr>phys := fst (ppa_memset sub 0 4096 (phys s))\<rparr>;
                  pde = pmm_addr_set pde (drop_bit 12 sub);
                  pde = pmm_flag_set pde (PDE_P OR PDE_RW) 1
              in (sub, s\<lparr>phys := table_store table index pde (phys s)\<rparr>)
         else (push_bit 12 (pmm_addr_get pde), s))"

definition pmm_map_memory :: "u64 \<Rightarrow> u64 \<Rightarrow> 'a pmm_scheme \<Rightarrow> 'a pmm_scheme" where
  "pmm_map_memory vaddr paddr s =
     (let (pdp, s) = next_table (PML4 s) (vindex 39 vaddr) s;
          (pd, s) = next_table pdp (vindex 30 vaddr) s;
          (pt, s) = next_table pd (vindex 21 vaddr) s;
          index = vindex 12 vaddr;
          pde = table_entry (phys s) pt index;
          pde = pmm_addr_set pde (drop_bit 12 paddr);
          pde = pmm_flag_set pde (PDE_P OR PDE_RW) 1
      in s\<lparr>phys := table_store pt index pde (phys s)\<rparr>)"

definition pmm_find_paddr :: "u64 \<Rightarrow> 'a pmm_scheme \<Rightarrow> u64" where
  "pmm_find_paddr vaddr s =
     (let pde = table_entry (phys s) (PML4 s) (vindex 39 vaddr)
      in if pmm_flag_get pde PDE_P = 0 then 0
         else let pdp = push_bit 12 (pmm_addr_get pde);
                  pde = table_entry (phys s) pdp (vindex 30 vaddr)
              in if pmm_flag_get pde PDE_P = 0 then 0
                 else let pd = push_bit 12 (pmm_addr_get pde);
                          pde = table_entry (phys s) pd (vindex 21 vaddr)
                      in if pmm_flag_get pde PDE_P = 0 then 0
                         else let pt = push_bit 12 (pmm_addr_get pde);
                                  pde = table_entry (phys s) pt (vindex 12 vaddr)
                              in if pmm_flag_get pde PDE_P = 0 then 0
                                 else push_bit 12 (pmm_addr_get pde))"

section \<open>Fields of an entry\<close>

lemma pte_mask_simps:
  "(0x000000ffffffffff :: u64) = mask 40"
  "(0x000ffffffffff000 :: u64) = push_bit 12 (mask 40)"
  "(0xfff0000000000fff :: u64) = NOT (push_bit 12 (mask 40))"
  "(0x1ff :: u64) = mask 9"
  by (simp_all add: mask_eq_exp_minus_1 push_bit_eq_mult)

lemma bit_pmm_addr_set [pte_simps]:
  "bit (pmm_addr_set entry addr) n \<longleftrightarrow>
     (if 12 \<le> n \<and> n < 52 then bit addr (n - 12) else bit entry n)"
  unfolding pmm_addr_set_def Let_def pte_mask_simps
  by (auto simp: bit_or_iff bit_and_iff bit_not_iff bit_push_bit_iff bit_mask_iff
      dest: bit_imp_le_length)

lemma bit_pmm_addr_get [pte_simps]: "bit (pmm_addr_get entry) n \<longleftrightarrow> n < 40 \<and> bit entry (n + 12)"
  unfolding pmm_addr_get_def pte_mask_simps
  by (auto simp: bit_and_iff bit_drop_bit_eq bit_push_bit_iff bit_mask_iff add.commute)

lemma bit_pmm_flag_set [pte_simps]:
  "bit (pmm_flag_set entry bit_mask val) n \<longleftrightarrow>
     (if val \<noteq> 0 then bit entry n \<or> bit bit_mask n
      else n < 32 \<and> bit entry n \<and> \<not> bit bit_mask n)"
  by (auto simp: pmm_flag_set_def bit_or_iff bit_and_iff bit_not_iff bit_ucast_iff
      dest: bit_imp_le_length)

lemma bit_PDE_P [pte_simps]: "bit PDE_P n \<longleftrightarrow> n = 0"
  by (auto simp: PDE_P_def bit_1_iff)

lemma bit_PDE_RW [pte_simps]: "bit PDE_RW n \<longleftrightarrow> n = 1"
  unfolding PDE_RW_def bit_push_bit_iff by (auto simp: bit_1_iff)

lemma pmm_flag_get_bits:
  "pmm_flag_get entry bit_mask = (if \<forall>n. bit bit_mask n \<longrightarrow> bit entry n then 1 else 0)"
proof -
  have "entry AND ucast bit_mask = ucast bit_mask \<longleftrightarrow> (\<forall>n. bit bit_mask n \<longrightarrow> bit entry n)"
    by (simp add: and_eq_right_bits bit_ucast_u32)
  then show ?thesis by (simp add: pmm_flag_get_def)
qed

lemma present_iff [pte_simps]: "pmm_flag_get entry PDE_P = 0 \<longleftrightarrow> \<not> bit entry 0"
  by (simp add: pmm_flag_get_bits pte_simps)

text \<open>The entry the code builds for an address: present, writable, that address.\<close>

lemma pte_built [pte_simps]:
  "pmm_flag_get (pmm_flag_set (pmm_addr_set e a) (PDE_P OR PDE_RW) 1) PDE_P = 1"
  "pmm_addr_get (pmm_flag_set (pmm_addr_set e a) (PDE_P OR PDE_RW) 1) = take_bit 40 a"
proof -
  show "pmm_flag_get (pmm_flag_set (pmm_addr_set e a) (PDE_P OR PDE_RW) 1) PDE_P = 1"
    by (simp add: pmm_flag_get_bits pte_simps bit_or_iff)
  show "pmm_addr_get (pmm_flag_set (pmm_addr_set e a) (PDE_P OR PDE_RW) 1) = take_bit 40 a"
    by (rule bit_word_eqI) (auto simp: pte_simps bit_or_iff bit_take_bit_iff)
qed

end
