(* ===== verification/PageWalk.thy ===== *)
theory PageWalk
  imports PageMap
begin

text \<open>
  The walk through the tables as a specification, over any reading of table entries, and
  what one new entry does to it: tables that no other path reaches make the change local
  to the addresses that share the path.
\<close>

section \<open>The walk\<close>

text \<open>The index of level \<open>k\<close> (0 is the root): shifts 39, 30, 21, 12.\<close>

definition level_index :: "nat \<Rightarrow> u64 \<Rightarrow> u64" where
  "level_index k vaddr = vindex (39 - 9 * k) vaddr"

fun pt_walk :: "(u64 \<Rightarrow> u64 \<Rightarrow> u64) \<Rightarrow> u64 \<Rightarrow> nat \<Rightarrow> u64 \<Rightarrow> u64 option" where
  "pt_walk entry root 0 vaddr = Some root"
| "pt_walk entry root (Suc k) vaddr =
     (case pt_walk entry root k vaddr of
        None \<Rightarrow> None
      | Some table \<Rightarrow>
          let pde = entry table (level_index k vaddr)
          in if pmm_flag_get pde PDE_P = 0 then None
             else Some (push_bit 12 (pmm_addr_get pde)))"

lemmas pt_walk_Suc = pt_walk.simps(2)

declare pt_walk.simps(2) [simp del]

lemma pmm_find_paddr_walk:
  "pmm_find_paddr vaddr s =
     (case pt_walk (table_entry (phys s)) (PML4 s) 4 vaddr of None \<Rightarrow> 0 | Some p \<Rightarrow> p)"
  by (simp add: pmm_find_paddr_def Let_def numeral_eq_Suc level_index_def pt_walk_Suc)

definition same_path :: "nat \<Rightarrow> u64 \<Rightarrow> u64 \<Rightarrow> bool" where
  "same_path k v w \<longleftrightarrow> (\<forall>j<k. level_index j v = level_index j w)"

lemma same_path_0 [simp]: "same_path 0 v w"
  by (simp add: same_path_def)

lemma same_path_Suc: "same_path (Suc k) v w \<longleftrightarrow> same_path k v w \<and> level_index k v = level_index k w"
  by (auto simp: same_path_def less_Suc_eq)

lemma same_path_refl [simp]: "same_path k v v"
  by (simp add: same_path_def)

lemma same_path_less: "same_path k v w \<Longrightarrow> j \<le> k \<Longrightarrow> same_path j v w"
  by (simp add: same_path_def)

lemma level_index_small: "unat (level_index k v) < 512"
proof -
  have "level_index k v = take_bit 9 (drop_bit (39 - 9 * k) v)"
    unfolding level_index_def vindex_def pte_mask_simps by (simp only: take_bit_eq_mask)
  then show ?thesis
    using take_bit_nat_less_exp [of 9 "unat (drop_bit (39 - 9 * k) v)"]
    by (simp add: unsigned_take_bit_eq)
qed

text \<open>The four indices of an address are its page number, of 36 bits.\<close>

lemma field_eq_iff:
  "take_bit m (drop_bit l v) = take_bit m (drop_bit l w) \<longleftrightarrow>
    (\<forall>n. l \<le> n \<and> n < l + m \<longrightarrow> bit v n = bit w n)" for v w :: "'a::len word"
proof
  assume eq: "take_bit m (drop_bit l v) = take_bit m (drop_bit l w)"
  have "bit v n = bit w n" if "l \<le> n" "n < l + m" for n
  proof -
    have "n - l < m" using that by arith
    with arg_cong [OF eq, of "\<lambda>x. bit x (n - l)"] that(1) show ?thesis
      by (simp add: bit_take_bit_iff bit_drop_bit_eq)
  qed
  then show "\<forall>n. l \<le> n \<and> n < l + m \<longrightarrow> bit v n = bit w n" by blast
next
  assume "\<forall>n. l \<le> n \<and> n < l + m \<longrightarrow> bit v n = bit w n"
  then show "take_bit m (drop_bit l v) = take_bit m (drop_bit l w)"
    by (intro bit_word_eqI) (auto simp: bit_take_bit_iff bit_drop_bit_eq)
qed

lemma same_path_page:
  "same_path 4 v w \<longleftrightarrow> take_bit 36 (drop_bit 12 v) = take_bit 36 (drop_bit 12 w)"
proof -
  have eq: "level_index k v = level_index k w \<longleftrightarrow>
      (\<forall>n. 39 - 9 * k \<le> n \<and> n < 39 - 9 * k + 9 \<longrightarrow> bit v n = bit w n)" for k
  proof -
    have "level_index k u = take_bit 9 (drop_bit (39 - 9 * k) u)" for u
      unfolding level_index_def vindex_def pte_mask_simps by (simp only: take_bit_eq_mask)
    then show ?thesis by (simp add: field_eq_iff)
  qed
  have "same_path 4 v w \<longleftrightarrow> (\<forall>n. 12 \<le> n \<and> n < 12 + 36 \<longrightarrow> bit v n = bit w n)"
  proof
    assume l: "same_path 4 v w"
    show "\<forall>n. 12 \<le> n \<and> n < 12 + 36 \<longrightarrow> bit v n = bit w n"
    proof (intro allI impI)
      fix n :: nat
      assume n: "12 \<le> n \<and> n < 12 + 36"
      define k where "k = (47 - n) div 9"
      have "k < 4" "39 - 9 * k \<le> n \<and> n < 39 - 9 * k + 9" using n unfolding k_def by presburger+
      with l eq [of k] show "bit v n = bit w n" by (auto simp: same_path_def)
    qed
  next
    assume r: "\<forall>n. 12 \<le> n \<and> n < 12 + 36 \<longrightarrow> bit v n = bit w n"
    have "level_index k v = level_index k w" if "k < 4" for k
      unfolding eq
    proof (intro allI impI)
      fix n
      assume "39 - 9 * k \<le> n \<and> n < 39 - 9 * k + 9"
      with that have "12 \<le> n \<and> n < 12 + 36" by arith
      with r show "bit v n = bit w n" by blast
    qed
    then show "same_path 4 v w" by (simp add: same_path_def)
  qed
  then show ?thesis by (simp only: field_eq_iff)
qed

lemma pt_walk_same_path: "same_path k v w \<Longrightarrow> pt_walk entry root k v = pt_walk entry root k w"
proof (induction k)
  case (Suc k)
  then have "pt_walk entry root k v = pt_walk entry root k w" and "level_index k v = level_index k w"
    by (auto simp: same_path_Suc)
  then show ?case by (simp only: pt_walk_Suc)
qed simp

lemma pt_walk_None_mono: "pt_walk entry root j v = None \<Longrightarrow> j \<le> k \<Longrightarrow> pt_walk entry root k v = None"
  by (induction k) (auto simp: le_Suc_eq pt_walk_Suc)

lemma pt_walk_Some_mono:
  "pt_walk entry root k v \<noteq> None \<Longrightarrow> j \<le> k \<Longrightarrow> pt_walk entry root j v \<noteq> None"
  using pt_walk_None_mono by metis

section \<open>Tables that form a tree\<close>

definition tables_tree :: "(u64 \<Rightarrow> bool) \<Rightarrow> (u64 \<Rightarrow> u64 \<Rightarrow> u64) \<Rightarrow> u64 \<Rightarrow> bool" where
  "tables_tree own entry root \<longleftrightarrow>
     (\<forall>k v t. k \<le> 3 \<longrightarrow> pt_walk entry root k v = Some t \<longrightarrow> own t) \<and>
     (\<forall>k j v w t. k \<le> 3 \<longrightarrow> j \<le> 3 \<longrightarrow>
        pt_walk entry root k v = Some t \<longrightarrow> pt_walk entry root j w = Some t \<longrightarrow>
        k = j \<and> same_path k v w)"

lemma tables_tree_own:
  "tables_tree own entry root \<Longrightarrow> k \<le> 3 \<Longrightarrow> pt_walk entry root k v = Some t \<Longrightarrow> own t"
  by (auto simp: tables_tree_def)

lemma tables_tree_unique:
  "tables_tree own entry root \<Longrightarrow> k \<le> 3 \<Longrightarrow> j \<le> 3 \<Longrightarrow> pt_walk entry root k v = Some t \<Longrightarrow>
     pt_walk entry root j w = Some t \<Longrightarrow> k = j \<and> same_path k v w"
  unfolding tables_tree_def by blast

text \<open>
  One entry changes, in the table the path of \<open>v\<close> reaches at level \<open>k\<close>. Above the last
  level the new entry links an empty table that was not among the tables.
\<close>

definition entry_update ::
    "(u64 \<Rightarrow> bool) \<Rightarrow> (u64 \<Rightarrow> u64 \<Rightarrow> u64) \<Rightarrow> (u64 \<Rightarrow> u64 \<Rightarrow> u64) \<Rightarrow> u64 \<Rightarrow> nat \<Rightarrow> u64 \<Rightarrow> u64 \<Rightarrow> u64 \<Rightarrow> bool"
  where
  "entry_update own entry entry' root k v t n \<longleftrightarrow>
     tables_tree own entry root \<and> k \<le> 3 \<and> pt_walk entry root k v = Some t \<and>
     (\<forall>p i. own p \<longrightarrow> unat i < 512 \<longrightarrow> (p, i) \<noteq> (t, level_index k v) \<longrightarrow> entry' p i = entry p i) \<and>
     pmm_flag_get (entry' t (level_index k v)) PDE_P = 1 \<and>
     push_bit 12 (pmm_addr_get (entry' t (level_index k v))) = n \<and>
     (k < 3 \<longrightarrow> pmm_flag_get (entry t (level_index k v)) PDE_P = 0 \<and> \<not> own n \<and>
        (\<forall>i. unat i < 512 \<longrightarrow> entry' n i = 0))"

lemma entry_updateD:
  assumes "entry_update own entry entry' root k v t n"
  shows "tables_tree own entry root" and "k \<le> 3" and "pt_walk entry root k v = Some t"
    and "\<And>p i. own p \<Longrightarrow> unat i < 512 \<Longrightarrow> (p, i) \<noteq> (t, level_index k v) \<Longrightarrow> entry' p i = entry p i"
    and "pmm_flag_get (entry' t (level_index k v)) PDE_P = 1"
    and "push_bit 12 (pmm_addr_get (entry' t (level_index k v))) = n"
    and "k < 3 \<Longrightarrow> pmm_flag_get (entry t (level_index k v)) PDE_P = 0 \<and> \<not> own n \<and>
      (\<forall>i. unat i < 512 \<longrightarrow> entry' n i = 0)"
  using assms unfolding entry_update_def by blast+

lemma walk_above:
  assumes upd: "entry_update own entry entry' root k v t n" and "j \<le> k"
  shows "pt_walk entry' root j w = pt_walk entry root j w"
  using assms(2)
proof (induction j)
  case (Suc j)
  note tree = entry_updateD(1) [OF upd] and level = entry_updateD(2) [OF upd]
    and reaches = entry_updateD(3) [OF upd] and others = entry_updateD(4) [OF upd]
  show ?case
  proof (cases "pt_walk entry root j w")
    case (Some p)
    have "p \<noteq> t"
      using tables_tree_unique [OF tree _ level Some] reaches Suc.prems level by fastforce
    moreover have "own p" using tables_tree_own [OF tree _ Some] Suc.prems level by simp
    ultimately have "entry' p (level_index j w) = entry p (level_index j w)"
      by (intro others) (simp_all add: level_index_small)
    then show ?thesis using Suc Some by (simp add: pt_walk_Suc)
  qed (use Suc in \<open>simp add: pt_walk_Suc\<close>)
qed simp

lemma walk_on_path:
  assumes upd: "entry_update own entry entry' root k v t n" and "same_path (Suc k) v w"
  shows "pt_walk entry' root (Suc k) w = Some n"
proof -
  note reaches = entry_updateD(3) [OF upd]
    and present = entry_updateD(5) [OF upd] and target = entry_updateD(6) [OF upd]
  have "pt_walk entry root k v = pt_walk entry root k w" and i: "level_index k w = level_index k v"
    using assms(2) pt_walk_same_path [of k v w] by (simp_all add: same_path_Suc)
  then have "pt_walk entry' root k w = Some t" using reaches by (simp add: walk_above [OF upd])
  then show ?thesis by (simp add: pt_walk_Suc Let_def i present target)
qed

lemma walk_beyond:
  assumes upd: "entry_update own entry entry' root k v t n" and "same_path (Suc k) v w" and "Suc k < j" and "j \<le> 4"
  shows "pt_walk entry' root j w = None \<and> pt_walk entry root j w = None"
proof -
  note reaches = entry_updateD(3) [OF upd] and linked = entry_updateD(7) [OF upd]
  have k: "k < 3" using assms(3,4) by simp
  have "pt_walk entry root (Suc k) v = None"
    using reaches linked [OF k] by (simp add: pt_walk_Suc)
  then have "pt_walk entry root (Suc k) w = None" using pt_walk_same_path [OF assms(2)] by simp
  moreover have "pt_walk entry' root (Suc (Suc k)) w = None"
    using walk_on_path [OF upd assms(2)] linked [OF k]
    by (simp add: pt_walk_Suc [of _ _ "Suc k"] level_index_small pte_simps)
  ultimately show ?thesis
    using assms(3) pt_walk_None_mono [of _ _ "Suc k" w j] pt_walk_None_mono [of _ _ "Suc (Suc k)" w j]
    by simp
qed

lemma walk_off_path:
  assumes upd: "entry_update own entry entry' root k v t n" and "\<not> same_path (Suc k) v w" and "j \<le> 4"
  shows "pt_walk entry' root j w = pt_walk entry root j w"
  using assms(3)
proof (induction j)
  case (Suc j)
  note tree = entry_updateD(1) [OF upd] and level = entry_updateD(2) [OF upd]
    and reaches = entry_updateD(3) [OF upd] and others = entry_updateD(4) [OF upd]
  show ?case
  proof (cases "pt_walk entry root j w")
    case (Some p)
    have j: "j \<le> 3" using Suc.prems by simp
    have "(p, level_index j w) \<noteq> (t, level_index k v)"
    proof
      assume eq: "(p, level_index j w) = (t, level_index k v)"
      with Some have "pt_walk entry root j w = Some t" by simp
      from tables_tree_unique [OF tree level j reaches this]
      have "same_path (Suc k) v w" using eq by (auto simp: same_path_Suc)
      with assms(2) show False by simp
    qed
    then have "entry' p (level_index j w) = entry p (level_index j w)"
      using tables_tree_own [OF tree j Some] by (intro others) (simp_all add: level_index_small)
    then show ?thesis using Suc Some by (simp add: pt_walk_Suc)
  qed (use Suc in \<open>simp add: pt_walk_Suc\<close>)
qed simp

lemma walk_update:
  assumes upd: "entry_update own entry entry' root k v t n" and "j \<le> 4"
  shows "pt_walk entry' root j w =
    (if j = Suc k \<and> same_path (Suc k) v w then Some n else pt_walk entry root j w)"
proof (cases "same_path (Suc k) v w")
  case True
  consider "j \<le> k" | "j = Suc k" | "Suc k < j" by linarith
  then show ?thesis
  proof cases
    case 3
    then show ?thesis using walk_beyond [OF upd True 3 assms(2)] by simp
  qed (use True in \<open>simp_all add: walk_above [OF upd] walk_on_path [OF upd]\<close>)
next
  case False
  then show ?thesis using walk_off_path [OF upd False assms(2)] by simp
qed

lemma tree_update:
  assumes upd: "entry_update own entry entry' root k v t n" and "\<And>p. own p \<Longrightarrow> own' p" and "k < 3 \<Longrightarrow> own' n"
  shows "tables_tree own' entry' root"
  unfolding tables_tree_def
proof (rule conjI; intro allI impI)
  note tree = entry_updateD(1) [OF upd] and linked = entry_updateD(7) [OF upd]
  fix j w p
  assume j: "j \<le> 3" and walk: "pt_walk entry' root j w = Some p"
  show "own' p"
    using walk j assms(2,3) tables_tree_own [OF tree j, of w p] by (auto simp: walk_update [OF upd] split: if_splits)
next
  note tree = entry_updateD(1) [OF upd] and linked = entry_updateD(7) [OF upd]
  have fresh: "pt_walk entry root i u \<noteq> Some n" if "k < 3" "i \<le> 3" for i u
    using tables_tree_own [OF tree that(2), of u n] linked [OF that(1)] by blast
  fix i j u w p
  assume ij: "i \<le> 3" "j \<le> 3"
    and walks: "pt_walk entry' root i u = Some p" "pt_walk entry' root j w = Some p"
  have path: "same_path (Suc k) u w" if "same_path (Suc k) v u" "same_path (Suc k) v w"
    using that by (simp add: same_path_def)
  show "i = j \<and> same_path i u w"
  proof (cases "i = Suc k \<and> same_path (Suc k) v u")
    case True
    then have "p = n" and "k < 3" using walks(1) ij by (auto simp: walk_update [OF upd])
    then have "j = Suc k \<and> same_path (Suc k) v w"
      using walks(2) fresh [OF _ ij(2), of w] ij(2) by (auto simp: walk_update [OF upd] split: if_splits)
    with True path show ?thesis by simp
  next
    case False
    then have iw: "pt_walk entry root i u = Some p"
      using walks(1) ij by (auto simp: walk_update [OF upd] split: if_splits)
    have "\<not> (j = Suc k \<and> same_path (Suc k) v w)"
      using walks(2) fresh [OF _ ij(1), of u] iw ij by (auto simp: walk_update [OF upd])
    then have "pt_walk entry root j w = Some p"
      using walks(2) ij by (auto simp: walk_update [OF upd] split: if_splits)
    then show ?thesis by (rule tables_tree_unique [OF tree ij iw])
  qed
qed

end
