(* ===== verification/PageMapCorrect.thy ===== *)
theory PageMapCorrect
  imports PageWalk
begin

text \<open>
  \<open>pmm_map_memory\<close> against the walk of \<open>PageWalk\<close>, over the memory the allocator's bitmap
  and the tables share: the new mapping is found, every other one is as before, the
  tables stay a tree of the allocator's pages, and the allocator stays usable.
\<close>

section \<open>Table entries in memory\<close>

lemma table_byte:
  assumes "page_aligned t" and "unat i < 512" and "q < 8"
  shows "page_of (t + 8 * i + of_nat q) = t"
proof -
  define d :: u64 where "d = 8 * i + of_nat q"
  have "unat (8 * i) = 8 * unat i" using assms(2) by (subst unat_mult_nowrap) simp_all
  moreover have "unat (of_nat q :: u64) = q" by (rule unat_of_nat_small) (use assms(3) in simp)
  ultimately have "unat d = 8 * unat i + q"
    unfolding d_def using assms(2,3) by (subst unat_plus_nowrap) simp_all
  with assms(2,3) have "unat d < 4096" by simp
  with assms(1) have "page_of (t + d) = t" by (rule page_of_plus)
  then show ?thesis by (simp add: d_def add.assoc)
qed

lemma table_entry_cong:
  assumes "page_aligned t" and "unat i < 512" and "\<And>x. page_of x = t \<Longrightarrow> m x = m' x"
  shows "table_entry m t i = table_entry m' t i"
  unfolding table_entry_def load64_def
  by (rule load_bytes_cong) (use assms table_byte in simp)

lemma table_entry_zero:
  assumes "page_aligned t" and "unat i < 512" and "\<And>x. page_of x = t \<Longrightarrow> m x = 0"
  shows "table_entry m t i = 0"
  unfolding table_entry_def load64_def
  by (rule bit_word_eqI) (simp add: bit_load_bytes assms table_byte)

lemma table_store_other:
  assumes "page_aligned t" and "unat i < 512" and "page_of x \<noteq> t"
  shows "table_store t i e m x = m x"
proof -
  have "\<not> unat (x - (t + 8 * i)) < 8"
  proof
    assume h: "unat (x - (t + 8 * i)) < 8"
    have "x = t + 8 * i + of_nat (unat (x - (t + 8 * i)))" by simp
    with table_byte [OF assms(1,2) h] assms(3) show False by metis
  qed
  then show ?thesis by (simp add: table_store_def store64_def store_bytes_def)
qed

lemma table_entry_store:
  assumes "page_aligned t" and "unat i < 512" and "page_aligned p" and "unat j < 512"
  shows "table_entry (table_store t i e m) p j = (if (p, j) = (t, i) then e else table_entry m p j)"
proof (cases "p = t")
  case True
  show ?thesis
  proof (cases "j = i")
    case False
    then have "unat j \<noteq> unat i" by (simp add: word_unat_eq_iff)
    then have "apart (t + of_nat (8 * unat j)) 8 (t + of_nat (8 * unat i)) 8"
      by (rule apart_array) (use assms in simp_all)
    then have "apart (t + 8 * j) 8 (t + 8 * i) 8" by simp
    with False True show ?thesis
      by (simp add: table_entry_def table_store_def load64_store64_apart)
  qed (simp add: True table_entry_def table_store_def mem_simps)
next
  case False
  then show ?thesis
    using assms by (auto intro!: table_entry_cong table_store_other)
qed

section \<open>Writes outside the bitmap do not touch the allocator\<close>

lemma frame_bit_phys:
  assumes "bitmap_wf s" and "j < 32 * unat (bm_size (ppa_bitmap s))"
    and "\<And>x. x \<in> bitmap_bytes (ppa_bitmap s) \<Longrightarrow> m x = phys s x"
  shows "frame_bit (s\<lparr>phys := m\<rparr>) j = frame_bit s j"
proof -
  let ?a = "bitmap_word_addr (ppa_bitmap s) (of_nat (j div 32))"
  have n: "unat (bm_size (ppa_bitmap s)) \<le> 2 ^ 48" using size_bits_bound [OF assms(1)] by simp
  have k: "j div 32 < unat (bm_size (ppa_bitmap s))" using assms(2) by auto
  have "?a + of_nat q \<in> bitmap_bytes (ppa_bitmap s)" if "q < 4" for q
  proof -
    have "unat (of_nat (4 * (j div 32) + q) :: u64) = 4 * (j div 32) + q"
      by (rule unat_of_nat_small) (use k n that in simp)
    moreover have "?a + of_nat q - bm_data (ppa_bitmap s) = of_nat (4 * (j div 32) + q)"
      by (simp add: bitmap_word_addr_def)
    ultimately have "unat (?a + of_nat q - bm_data (ppa_bitmap s)) = 4 * (j div 32) + q"
      by (simp only:)
    with k that show ?thesis by (simp add: bitmap_bytes_def)
  qed
  then have "load32 m ?a = load32 (phys s) ?a"
    unfolding load32_def by (intro load_bytes_cong assms(3))
  then show ?thesis by (simp add: frame_bit_def)
qed

lemma allocator_phys:
  assumes "allocator_ready s"
    and "\<And>x. x \<in> bitmap_bytes (ppa_bitmap s) \<Longrightarrow> m x = phys s x"
  shows "frame_used (s\<lparr>phys := m\<rparr>) = frame_used s"
    and "allocator_ready (s\<lparr>phys := m\<rparr>)"
    and "frames_ahead (s\<lparr>phys := m\<rparr>) = frames_ahead s"
    and "client_page (s\<lparr>phys := m\<rparr>) = client_page s"
proof -
  have wf: "bitmap_wf s" using assms(1) by (simp add: allocator_ready_def)
  have lim: "frames_limit s \<le> 32 * unat (bm_size (ppa_bitmap s))"
    using wf by (simp add: bitmap_wf_def)
  note bits = frame_bit_phys [OF wf _ assms(2)]
  show used: "frame_used (s\<lparr>phys := m\<rparr>) = frame_used s"
    using lim bits by (auto simp: fun_eq_iff frame_used_def)
  show "allocator_ready (s\<lparr>phys := m\<rparr>)"
    using assms(1) bits by (simp add: allocator_ready_def used tail_clear_def)
  show "frames_ahead (s\<lparr>phys := m\<rparr>) = frames_ahead s"
    by (simp add: frames_ahead_def used)
  show "client_page (s\<lparr>phys := m\<rparr>) = client_page s"
    by (simp add: fun_eq_iff client_page_def used)
qed

lemma client_page_aligned: "client_page s p \<Longrightarrow> page_aligned p"
  by (simp add: client_page_def)

lemma client_page_bitmap: "client_page s p \<Longrightarrow> page_of x = p \<Longrightarrow> x \<notin> bitmap_bytes (ppa_bitmap s)"
  by (auto simp: client_page_def)

lemma client_page_address:
  assumes "bitmap_wf s" and "client_page s p"
  shows "push_bit 12 (take_bit 40 (drop_bit 12 p)) = p"
proof -
  have "unat p div 4096 < 2 ^ 40"
    using assms bm.used_limit [of s "unat p div 4096"] by (simp add: client_page_def bitmap_wf_def)
  then have "unat p < 2 ^ 52" by simp
  then have "\<not> bit p n" if "52 \<le> n" for n using that by (rule bit_small)
  moreover have "\<not> bit p n" if "n < 12" for n
    using client_page_aligned [OF assms(2)] that by (simp add: page_aligned_bits)
  moreover have "bit (push_bit 12 (take_bit 40 (drop_bit 12 p))) n \<longleftrightarrow> 12 \<le> n \<and> n < 52 \<and> bit p n" for n
    by (auto simp: bit_push_bit_iff bit_take_bit_iff bit_drop_bit_eq dest: bit_imp_le_length)
  ultimately show ?thesis
    by (intro bit_word_eqI) (metis not_less)
qed

section \<open>One level\<close>

definition pmm_tables :: "'a ppa_scheme \<Rightarrow> u64 \<Rightarrow> bool" where
  "pmm_tables s root \<longleftrightarrow> tables_tree (client_page s) (table_entry (phys s)) root"

text \<open>A page of a client that is none of the tables, and what it means that a step leaves all of them alone.\<close>

definition data_page :: "'a ppa_scheme \<Rightarrow> u64 \<Rightarrow> u64 \<Rightarrow> bool" where
  "data_page s root q \<longleftrightarrow> client_page s q \<and>
     (\<forall>j w. j \<le> 3 \<longrightarrow> pt_walk (table_entry (phys s)) root j w \<noteq> Some q)"

definition keeps_data :: "u64 \<Rightarrow> 'a ppa_scheme \<Rightarrow> 'a ppa_scheme \<Rightarrow> bool" where
  "keeps_data root s s' \<longleftrightarrow> (\<forall>q. data_page s root q \<longrightarrow>
     data_page s' root q \<and> (\<forall>x. page_of x = q \<longrightarrow> phys s' x = phys s x))"

lemma keeps_data_refl [simp]: "keeps_data root s s"
  by (simp add: keeps_data_def)

lemma keeps_data_trans: "keeps_data root s s1 \<Longrightarrow> keeps_data root s1 s2 \<Longrightarrow> keeps_data root s s2"
  unfolding keeps_data_def by metis

text \<open>The outcome of a step at level \<open>k\<close>: the path of \<open>v\<close> goes on to \<open>sub\<close>.\<close>

definition level_step ::
    "u64 \<Rightarrow> nat \<Rightarrow> u64 \<Rightarrow> 'a ppa_scheme \<Rightarrow> u64 \<Rightarrow> 'a ppa_scheme \<Rightarrow> bool" where
  "level_step root k v s sub s' \<longleftrightarrow>
     allocator_ready s' \<and> pmm_tables s' root \<and> ppa.more s' = ppa.more s \<and>
     (\<forall>p. client_page s p \<longrightarrow> client_page s' p) \<and> keeps_data root s s' \<and>
     (\<forall>j w. j \<le> 4 \<longrightarrow> pt_walk (table_entry (phys s')) root j w =
        (if j = Suc k \<and> same_path (Suc k) v w then Some sub
         else pt_walk (table_entry (phys s)) root j w)) \<and>
     card (frames_ahead s) \<le> card (frames_ahead s') +
       (if pt_walk (table_entry (phys s)) root (Suc k) v = None then 1 else 0)"

lemma next_table_present:
  assumes "allocator_ready s" and "pmm_tables s root" and "k < 3"
    and "pt_walk (table_entry (phys s)) root k v = Some t"
    and "pmm_flag_get (table_entry (phys s) t (level_index k v)) PDE_P \<noteq> 0"
    and "next_table t (level_index k v) s = (sub, s')"
  shows "level_step root k v s sub s'"
proof -
  have s': "s' = s" and sub: "pt_walk (table_entry (phys s)) root (Suc k) v = Some sub"
    using assms(4-6) by (auto simp: next_table_def Let_def pt_walk_Suc)
  have "pt_walk (table_entry (phys s)) root (Suc k) w = Some sub" if "same_path (Suc k) v w" for w
    using pt_walk_same_path [OF that] sub by metis
  with sub s' assms(1,2) show ?thesis by (auto simp: level_step_def)
qed

lemma next_table_absent:
  assumes ready: "allocator_ready s" and tree: "pmm_tables s root" and k: "k < 3"
    and walk: "pt_walk (table_entry (phys s)) root k v = Some t"
    and absent: "pmm_flag_get (table_entry (phys s) t (level_index k v)) PDE_P = 0"
    and ahead: "frames_ahead s \<noteq> {}"
    and step: "next_table t (level_index k v) s = (sub, s')"
  shows "level_step root k v s sub s'"
proof -
  let ?i = "level_index k v"
  obtain s1 where req: "ppa_request s = (sub, s1)"
    using step absent by (auto simp: next_table_def Let_def split: prod.splits)
  define m where "m = fst (ppa_memset sub 0 4096 (phys s1))"
  define e0 where
    "e0 = pmm_flag_set (pmm_addr_set (table_entry (phys s) t ?i) (drop_bit 12 sub)) (PDE_P OR PDE_RW) 1"
  define m' where "m' = table_store t ?i e0 m"
  have s': "s' = s1\<lparr>phys := m'\<rparr>"
    using step absent by (simp add: next_table_def Let_def req m_def m'_def e0_def)
  have av: "0 < card (frames_ahead s)" using ahead by (simp add: frames_ahead_pos)
  note cleared = ppa.cleared_page [OF ready av req m_def]
  have ready1: "allocator_ready s1" and own1: "\<And>p. client_page s1 p \<longleftrightarrow> p = sub \<or> client_page s p"
    and av1: "card (frames_ahead s) \<le> card (frames_ahead s1) + 1"
    using ppa.request_ready [OF ready av] ppa.request_owned [OF ready av]
      ppa.request_available [OF ready av] by (simp_all add: req)
  have own_t: "client_page s t"
    using tables_tree_own [OF tree [unfolded pmm_tables_def] _ walk] k by simp
  note al_t = client_page_aligned [OF own_t]
  have idx: "unat ?i < 512" by (rule level_index_small)
  have m_page: "m x = phys s1 x" if "page_of x \<noteq> sub" for x
    using that cleared(1) by (simp add: m_def ppa_memset_apply page_of_iff)
  have bitmap: "m' x = phys s1 x" if "x \<in> bitmap_bytes (ppa_bitmap s1)" for x
  proof -
    have "page_of x \<noteq> t" "page_of x \<noteq> sub"
      using that client_page_bitmap [of s1 _ x] own1 own_t by blast+
    then show ?thesis by (simp add: m'_def table_store_other [OF al_t idx] m_page)
  qed
  note alloc = allocator_phys [OF ready1 bitmap]
  have m_old: "table_entry m p i = table_entry (phys s) p i" if "client_page s p" "unat i < 512" for p i
    using that cleared(4) by (intro table_entry_cong) (auto simp: client_page_aligned)
  have fresh: "sub \<noteq> t" using cleared(2) own_t by blast
  have upd: "entry_update (client_page s) (table_entry (phys s)) (table_entry m') root k v t sub"
    unfolding entry_update_def
  proof (intro conjI allI impI)
    show "tables_tree (client_page s) (table_entry (phys s)) root"
      using tree by (simp add: pmm_tables_def)
    show "k \<le> 3" using k by simp
    show "pt_walk (table_entry (phys s)) root k v = Some t" by (rule walk)
    have e0: "table_entry m' t ?i = e0"
      by (simp add: m'_def table_entry_store al_t idx)
    show "pmm_flag_get (table_entry m' t ?i) PDE_P = 1" unfolding e0 by (simp add: e0_def pte_simps)
    have "push_bit 12 (take_bit 40 (drop_bit 12 sub)) = sub"
      using client_page_address [of s1 sub] ready1 own1 by (simp add: allocator_ready_def)
    then show "push_bit 12 (pmm_addr_get (table_entry m' t ?i)) = sub"
      unfolding e0 by (simp add: e0_def pte_simps)
    show "pmm_flag_get (table_entry (phys s) t ?i) PDE_P = 0" by (rule absent)
    show "\<not> client_page s sub" by (rule cleared(2))
    fix i :: u64
    assume i: "unat i < 512"
    show "table_entry m' sub i = 0"
      using fresh cleared(1,3) i table_entry_zero [OF cleared(1) i, of m]
      by (simp add: m'_def table_entry_store al_t idx page_of_iff)
    fix p
    assume p: "client_page s p" and "(p, i) \<noteq> (t, ?i)"
    then show "table_entry m' p i = table_entry (phys s) p i"
      using i by (auto simp: m'_def table_entry_store al_t idx client_page_aligned m_old)
  qed
  have "tables_tree (client_page s1) (table_entry m') root"
    by (rule tree_update [OF upd]) (simp_all add: own1)
  moreover have "ppa.more s1 = ppa.more s"
    using req by (auto simp: ppa_request_def frame_simps split: option.splits)
  moreover have "pt_walk (table_entry (phys s)) root (Suc k) v = None"
    using walk absent by (simp add: pt_walk_Suc)
  moreover have "keeps_data root s s'"
    unfolding keeps_data_def
  proof (intro allI impI conjI)
    fix q
    assume q: "data_page s root q"
    then have own: "client_page s q" and "q \<noteq> t" using walk k by (auto simp: data_page_def)
    then have "q \<noteq> sub" using cleared(2) by blast
    then show "data_page s' root q"
      using q own walk_update [OF upd] by (auto simp: data_page_def s' alloc own1)
    show "phys s' x = phys s x" if "page_of x = q" for x
      using that own \<open>q \<noteq> t\<close> cleared(4) [of x] by (simp add: s' m'_def table_store_other [OF al_t idx])
  qed
  ultimately show ?thesis
    using walk_update [OF upd] own1 av1 alloc by (simp add: level_step_def pmm_tables_def s')
qed

lemma next_table_step:
  assumes "allocator_ready s" and "pmm_tables s root" and "k < 3"
    and "pt_walk (table_entry (phys s)) root k v = Some t"
    and "pt_walk (table_entry (phys s)) root (Suc k) v = None \<Longrightarrow> frames_ahead s \<noteq> {}"
    and "next_table t (level_index k v) s = (sub, s')"
  shows "level_step root k v s sub s'"
proof (cases "pmm_flag_get (table_entry (phys s) t (level_index k v)) PDE_P = 0")
  case True
  then have "frames_ahead s \<noteq> {}" using assms(4,5) by (simp add: pt_walk_Suc)
  from next_table_absent [OF assms(1-4) True this assms(6)] show ?thesis .
next
  case False
  from next_table_present [OF assms(1-4) False assms(6)] show ?thesis .
qed

section \<open>Mapping a page\<close>

lemma level_stepD:
  assumes "level_step root k v s sub s'"
  shows "allocator_ready s'" and "pmm_tables s' root" and "ppa.more s' = ppa.more s"
    and "client_page s p \<Longrightarrow> client_page s' p"
    and "j \<le> 4 \<Longrightarrow> pt_walk (table_entry (phys s')) root j w =
      (if j = Suc k \<and> same_path (Suc k) v w then Some sub
       else pt_walk (table_entry (phys s)) root j w)"
    and "card (frames_ahead s) \<le> card (frames_ahead s') +
      (if pt_walk (table_entry (phys s)) root (Suc k) v = None then 1 else 0)"
    and "keeps_data root s s'"
  using assms unfolding level_step_def by blast+

lemma PML4_more: "ppa.more s = ppa.more s' \<Longrightarrow> PML4 s = PML4 s'"
  by (cases s, cases s') simp

lemma PML4_phys [simp]: "PML4 (s\<lparr>phys := m\<rparr>) = PML4 s"
  by (cases s) simp

text \<open>How many tables the path of \<open>v\<close> still lacks.\<close>

definition tables_missing :: "'a ppa_scheme \<Rightarrow> u64 \<Rightarrow> u64 \<Rightarrow> nat" where
  "tables_missing s root v =
     length (filter (\<lambda>k. pt_walk (table_entry (phys s)) root k v = None) [1, 2, 3])"

definition pmm_ready :: "'a pmm_scheme \<Rightarrow> bool" where
  "pmm_ready s \<longleftrightarrow> allocator_ready s \<and> pmm_tables s (PML4 s)"

text \<open>The three upper levels, in the order the code takes them.\<close>

lemma three_levels:
  assumes ready: "allocator_ready s" and tree: "pmm_tables s root"
    and enough: "tables_missing s root v \<le> card (frames_ahead s)"
    and s1: "next_table root (level_index 0 v) s = (pdp, s1)"
    and s2: "next_table pdp (level_index 1 v) s1 = (pd, s2)"
    and s3: "next_table pd (level_index 2 v) s2 = (pt, s3)"
  shows "allocator_ready s3" and "pmm_tables s3 root" and "ppa.more s3 = ppa.more s"
    and "pt_walk (table_entry (phys s3)) root 3 v = Some pt"
    and "pt_walk (table_entry (phys s3)) root 4 w = pt_walk (table_entry (phys s)) root 4 w"
    and "client_page s p \<Longrightarrow> client_page s3 p"
    and "card (frames_ahead s) \<le> card (frames_ahead s3) + tables_missing s root v"
    and "\<And>j. 1 \<le> j \<Longrightarrow> j \<le> 3 \<Longrightarrow> pt_walk (table_entry (phys s3)) root j w \<noteq> None \<longleftrightarrow>
      pt_walk (table_entry (phys s)) root j w \<noteq> None \<or> same_path j v w"
    and "keeps_data root s s3"
proof -
  let ?w = "\<lambda>s j w. pt_walk (table_entry (phys s)) root j w"
  have pos: "frames_ahead t \<noteq> {}" if "0 < card (frames_ahead t)" for t :: "'a ppa_scheme"
    using that by auto
  have L1: "level_step root 0 v s pdp s1"
    using ready tree s1 enough
    by (intro next_table_step pos) (auto simp: tables_missing_def)
  note d1 = level_stepD [OF L1]
  have w1: "?w s1 1 v = Some pdp" using d1(5) [of 1 v] by simp
  have L2: "level_step root 1 v s1 pd s2"
    using d1(1,2,5,6) w1 s2 enough
    by (intro next_table_step pos) (auto simp: tables_missing_def numeral_2_eq_2 split: if_splits)
  note d2 = level_stepD [OF L2]
  have w2: "?w s2 2 v = Some pd" using d2(5) [of 2 v] by (simp add: numeral_2_eq_2)
  have m2: "?w s1 2 v = None \<longleftrightarrow> ?w s 2 v = None" using d1(5) [of 2 v] by simp
  have m3: "?w s2 3 v = None \<longleftrightarrow> ?w s 3 v = None"
    using d1(5) [of 3 v] d2(5) [of 3 v] by (simp add: numeral_2_eq_2)
  have c1: "card (frames_ahead s) \<le> card (frames_ahead s1) + (if ?w s 1 v = None then 1 else 0)"
    using d1(6) by simp
  have c2: "card (frames_ahead s1) \<le> card (frames_ahead s2) + (if ?w s 2 v = None then 1 else 0)"
    using d2(6) m2 by (simp add: numeral_2_eq_2)
  have L3: "level_step root 2 v s2 pt s3"
    using d2(1,2) w2 s3 enough c1 c2 m3
    by (intro next_table_step pos) (auto simp: tables_missing_def numeral_3_eq_3 split: if_splits)
  note d3 = level_stepD [OF L3]
  show "allocator_ready s3" and "pmm_tables s3 root" using d3 by simp_all
  show "ppa.more s3 = ppa.more s" using d1(3) d2(3) d3(3) by simp
  show "keeps_data root s s3" by (rule keeps_data_trans [OF keeps_data_trans [OF d1(7) d2(7)] d3(7)])
  show "?w s3 3 v = Some pt" using d3(5) [of 3 v] by simp
  show "?w s3 4 w = ?w s 4 w" using d1(5) [of 4 w] d2(5) [of 4 w] d3(5) [of 4 w] by simp
  show "client_page s p \<Longrightarrow> client_page s3 p" using d1(4) d2(4) d3(4) by blast
  have c3: "card (frames_ahead s2) \<le> card (frames_ahead s3) + (if ?w s 3 v = None then 1 else 0)"
    using d3(6) m3 by (simp add: numeral_3_eq_3)
  show "card (frames_ahead s) \<le> card (frames_ahead s3) + tables_missing s root v"
    using c1 c2 c3 by (auto simp: tables_missing_def split: if_splits)
  fix j :: nat
  assume "1 \<le> j" "j \<le> 3"
  then have "j = 1 \<or> j = 2 \<or> j = 3" by auto
  then show "?w s3 j w \<noteq> None \<longleftrightarrow> ?w s j w \<noteq> None \<or> same_path j v w"
    using d1(5) [of j w] d2(5) [of j w] d3(5) [of j w]
    by (auto simp: numeral_2_eq_2 numeral_3_eq_3 simp del: not_None_eq split: if_splits)
qed

text \<open>The write of the last entry.\<close>

lemma leaf_store:
  assumes ready: "allocator_ready s" and tree: "pmm_tables s root"
    and walk: "pt_walk (table_entry (phys s)) root 3 v = Some pt"
    and e: "pmm_flag_get e PDE_P = 1"
    and s': "s' = s\<lparr>phys := table_store pt (level_index 3 v) e (phys s)\<rparr>"
  shows "allocator_ready s'" and "pmm_tables s' root" and "client_page s' = client_page s"
    and "frames_ahead s' = frames_ahead s"
    and "j \<le> 4 \<Longrightarrow> pt_walk (table_entry (phys s')) root j w =
      (if j = 4 \<and> same_path 4 v w then Some (push_bit 12 (pmm_addr_get e))
       else pt_walk (table_entry (phys s)) root j w)"
    and "keeps_data root s s'"
proof -
  let ?i = "level_index 3 v"
  let ?m = "table_store pt ?i e (phys s)"
  have own: "client_page s pt"
    using tables_tree_own [OF tree [unfolded pmm_tables_def] _ walk] by simp
  note al = client_page_aligned [OF own] and idx = level_index_small [of 3 v]
  have "?m x = phys s x" if "x \<in> bitmap_bytes (ppa_bitmap s)" for x
    using that client_page_bitmap [OF own] table_store_other [OF al idx] by blast
  note alloc = allocator_phys [OF ready this]
  show "allocator_ready s'" and cp: "client_page s' = client_page s"
    and "frames_ahead s' = frames_ahead s" using alloc by (simp_all add: s')
  have upd: "entry_update (client_page s) (table_entry (phys s)) (table_entry ?m) root 3 v pt
      (push_bit 12 (pmm_addr_get e))"
    using tree walk e
    by (auto simp: entry_update_def pmm_tables_def table_entry_store al idx client_page_aligned)
  have "tables_tree (client_page s) (table_entry ?m) root"
    by (rule tree_update [OF upd]) simp_all
  then show "pmm_tables s' root" by (simp add: pmm_tables_def s' alloc)
  show "j \<le> 4 \<Longrightarrow> pt_walk (table_entry (phys s')) root j w =
      (if j = 4 \<and> same_path 4 v w then Some (push_bit 12 (pmm_addr_get e))
       else pt_walk (table_entry (phys s)) root j w)"
    using walk_update [OF upd, of j w] by (simp add: s')
  show "keeps_data root s s'"
    unfolding keeps_data_def
  proof (intro allI impI conjI)
    fix q
    assume q: "data_page s root q"
    then have "q \<noteq> pt" using walk by (auto simp: data_page_def)
    then show "phys s' x = phys s x" if "page_of x = q" for x
      using that by (simp add: s' table_store_other [OF al idx])
    show "data_page s' root q"
      using q walk_update [OF upd] by (auto simp: data_page_def s' alloc)
  qed
qed

text \<open>Bits 12 to 51 of a physical address: what an entry can hold.\<close>

definition frame_field :: "u64 \<Rightarrow> u64" where
  "frame_field p = push_bit 12 (take_bit 40 (drop_bit 12 p))"

lemma pmm_map_memory_run:
  assumes "pmm_ready s" and "tables_missing s (PML4 s) v \<le> card (frames_ahead s)"
    and s': "s' = pmm_map_memory v p s"
  shows "pmm_ready s'" and "PML4 s' = PML4 s"
    and "pt_walk (table_entry (phys s')) (PML4 s) 4 w =
      (if same_path 4 v w then Some (frame_field p) else pt_walk (table_entry (phys s)) (PML4 s) 4 w)"
    and "client_page s q \<Longrightarrow> client_page s' q"
    and "card (frames_ahead s) \<le> card (frames_ahead s') + tables_missing s (PML4 s) v"
    and "\<And>j. 1 \<le> j \<Longrightarrow> j \<le> 3 \<Longrightarrow> pt_walk (table_entry (phys s')) (PML4 s) j w \<noteq> None \<longleftrightarrow>
      pt_walk (table_entry (phys s)) (PML4 s) j w \<noteq> None \<or> same_path j v w"
    and "keeps_data (PML4 s) s s'"
proof -
  obtain pdp s1 where s1: "next_table (PML4 s) (level_index 0 v) s = (pdp, s1)" by fastforce
  obtain pd s2 where s2: "next_table pdp (level_index 1 v) s1 = (pd, s2)" by fastforce
  obtain pt s3 where s3: "next_table pd (level_index 2 v) s2 = (pt, s3)" by fastforce
  note three = three_levels [OF _ _ assms(2) s1 s2 s3]
  define e where
    "e = pmm_flag_set (pmm_addr_set (table_entry (phys s3) pt (level_index 3 v)) (drop_bit 12 p))
           (PDE_P OR PDE_RW) 1"
  have run: "s' = s3\<lparr>phys := table_store pt (level_index 3 v) e (phys s3)\<rparr>"
    using s1 s2 s3 by (simp add: s' pmm_map_memory_def e_def level_index_def Let_def)
  have ready: "allocator_ready s" and tree: "pmm_tables s (PML4 s)"
    using assms(1) by (simp_all add: pmm_ready_def)
  have e: "pmm_flag_get e PDE_P = 1" and target: "push_bit 12 (pmm_addr_get e) = frame_field p"
    by (simp_all add: e_def pte_simps frame_field_def)
  note leaf = leaf_store [OF three(1) [OF ready tree] three(2) [OF ready tree]
      three(4) [OF ready tree] e run]
  have "PML4 s3 = PML4 s" by (rule PML4_more) (rule three(3) [OF ready tree])
  then show root: "PML4 s' = PML4 s" by (simp add: run)
  show "pmm_ready s'" using leaf(1,2) by (simp add: pmm_ready_def root)
  show "pt_walk (table_entry (phys s')) (PML4 s) 4 w =
      (if same_path 4 v w then Some (frame_field p) else pt_walk (table_entry (phys s)) (PML4 s) 4 w)"
    using leaf(5) [of 4 w] three(5) [OF ready tree, of w] by (simp add: target)
  show "client_page s q \<Longrightarrow> client_page s' q" using three(6) [OF ready tree] leaf(3) by simp
  show "keeps_data (PML4 s) s s'" by (rule keeps_data_trans [OF three(9) [OF ready tree] leaf(6)])
  show "card (frames_ahead s) \<le> card (frames_ahead s') + tables_missing s (PML4 s) v"
    using three(7) [OF ready tree] leaf(4) by simp
  show "pt_walk (table_entry (phys s')) (PML4 s) j w \<noteq> None \<longleftrightarrow>
      pt_walk (table_entry (phys s)) (PML4 s) j w \<noteq> None \<or> same_path j v w"
    if "1 \<le> j" "j \<le> 3" for j
    using leaf(5) [of j w] three(8) [OF ready tree that, of w] that by simp
qed

section \<open>An empty root\<close>

lemma empty_root:
  assumes "allocator_ready s" and "client_page s (PML4 s)"
    and "\<And>x. page_of x = PML4 s \<Longrightarrow> phys s x = 0"
  shows "pmm_ready s" and "pt_walk (table_entry (phys s)) (PML4 s) (Suc k) v = None"
    and "tables_missing s (PML4 s) v = 3" and "pmm_find_paddr v s = 0"
proof -
  have zero: "table_entry (phys s) (PML4 s) (level_index k v) = 0" for k v
    by (rule table_entry_zero) (use assms client_page_aligned level_index_small in simp_all)
  have none: "pt_walk (table_entry (phys s)) (PML4 s) (Suc k) v = None" for k v
    by (induction k) (simp_all add: pt_walk_Suc zero pte_simps)
  then show "pt_walk (table_entry (phys s)) (PML4 s) (Suc k) v = None" .
  have walk: "pt_walk (table_entry (phys s)) (PML4 s) k v =
      (if k = 0 then Some (PML4 s) else None)" for k v
    using none by (cases k) simp_all
  show "tables_missing s (PML4 s) v = 3" by (simp add: tables_missing_def walk)
  show "pmm_find_paddr v s = 0" by (simp add: pmm_find_paddr_walk walk)
  have "pmm_tables s (PML4 s)"
    using assms(2) by (simp add: pmm_tables_def tables_tree_def walk)
  with assms(1) show "pmm_ready s" by (simp add: pmm_ready_def)
qed

end
