(* ===== verification/Descriptors.thy ===== *)
theory Descriptors
  imports Memory
begin

text \<open>
  The descriptor tables, \<open>gdt.h\<close>, \<open>gdt.c\<close>, \<open>idt.h\<close>, \<open>idt.c\<close>: packed structures as records, their
  layout in memory, the default segments and the entries of the interrupt table.
\<close>

section \<open>Disjoint fields\<close>

lemma apart_offsets:
  assumes "i + k \<le> j \<or> j + l \<le> i" and "i + k \<le> 2 ^ 63" and "j + l \<le> 2 ^ 63"
  shows "apart (a + of_nat i) k (a + of_nat j) l"
  unfolding apart_def
proof (intro allI notI, elim conjE)
  fix x :: u64
  define d where "d = x - a"
  have at: "n \<le> unat d \<and> unat d < n + c"
    if "unat (x - (a + of_nat n)) < c" "n + c \<le> 2 ^ 63" for n c
  proof -
    define r where "r = x - (a + of_nat n)"
    have "unat r < c" using that(1) by (simp add: r_def)
    moreover have "unat (of_nat n :: u64) = n" by (rule unat_of_nat_small) (use that(2) in simp)
    moreover have "d = of_nat n + r" by (simp add: d_def r_def)
    ultimately have "unat d = n + unat r" using that(2) by (simp add: unat_plus_nowrap)
    with \<open>unat r < c\<close> show ?thesis by simp
  qed
  assume "unat (x - (a + of_nat i)) < k" "unat (x - (a + of_nat j)) < l"
  with at [of i k] at [of j l] assms show False by linarith
qed

section \<open>Segments\<close>

record GDTEntry =
  limit0 :: u16
  base0 :: u16
  base1 :: u8
  accessbyte :: u8
  limit1_flags :: u8
  base2 :: u8

record GDT =
  null0 :: GDTEntry
  kernel_code :: GDTEntry
  kernel_data :: GDTEntry
  null1 :: GDTEntry
  user_code :: GDTEntry
  user_data :: GDTEntry

record GDTDescriptor =
  gdt_size :: u16
  gdt_offset :: u64

definition DEFAULT_GDT :: GDT where
  "DEFAULT_GDT =
     \<lparr>null0 = \<lparr>limit0 = 0, base0 = 0, base1 = 0, accessbyte = 0x00, limit1_flags = 0x00, base2 = 0\<rparr>,
      kernel_code = \<lparr>limit0 = 0, base0 = 0, base1 = 0, accessbyte = 0x9a, limit1_flags = 0xa0, base2 = 0\<rparr>,
      kernel_data = \<lparr>limit0 = 0, base0 = 0, base1 = 0, accessbyte = 0x92, limit1_flags = 0xa0, base2 = 0\<rparr>,
      null1 = \<lparr>limit0 = 0, base0 = 0, base1 = 0, accessbyte = 0x00, limit1_flags = 0x00, base2 = 0\<rparr>,
      user_code = \<lparr>limit0 = 0, base0 = 0, base1 = 0, accessbyte = 0x9a, limit1_flags = 0xa0, base2 = 0\<rparr>,
      user_data = \<lparr>limit0 = 0, base0 = 0, base1 = 0, accessbyte = 0x92, limit1_flags = 0xa0, base2 = 0\<rparr>\<rparr>"

text \<open>
  The structure is packed: entry \<open>i\<close> of the table at \<open>a\<close> is the 8 bytes from \<open>a + 8 * i\<close>, at the
  selector \<open>8 * i\<close>.
\<close>

definition load_gdt_entry :: "mem \<Rightarrow> u64 \<Rightarrow> GDTEntry" where
  "load_gdt_entry m a =
     \<lparr>limit0 = load_bytes 2 m a, base0 = load_bytes 2 m (a + 2), base1 = load_bytes 1 m (a + 4),
      accessbyte = load_bytes 1 m (a + 5), limit1_flags = load_bytes 1 m (a + 6),
      base2 = load_bytes 1 m (a + 7)\<rparr>"

definition load_gdt :: "mem \<Rightarrow> u64 \<Rightarrow> GDT" where
  "load_gdt m a =
     \<lparr>null0 = load_gdt_entry m a, kernel_code = load_gdt_entry m (a + 8),
      kernel_data = load_gdt_entry m (a + 16), null1 = load_gdt_entry m (a + 24),
      user_code = load_gdt_entry m (a + 32), user_data = load_gdt_entry m (a + 40)\<rparr>"

text \<open>What the processor takes from an entry.\<close>

definition seg_dpl :: "GDTEntry \<Rightarrow> u8" where
  "seg_dpl e = take_bit 2 (drop_bit 5 (accessbyte e))"

definition seg_present :: "GDTEntry \<Rightarrow> bool" where
  "seg_present e = bit (accessbyte e) 7"

definition seg_code :: "GDTEntry \<Rightarrow> bool" where
  "seg_code e = (bit (accessbyte e) 4 \<and> bit (accessbyte e) 3)"

definition seg_data :: "GDTEntry \<Rightarrow> bool" where
  "seg_data e = (bit (accessbyte e) 4 \<and> \<not> bit (accessbyte e) 3 \<and> bit (accessbyte e) 1)"

definition seg_long :: "GDTEntry \<Rightarrow> bool" where
  "seg_long e = bit (limit1_flags e) 5"

section \<open>Interrupt gates\<close>

definition IDT_INTERRUPT_GATE :: u8 where "IDT_INTERRUPT_GATE = 0x8E"
definition IDT_TRAP_GATE :: u8 where "IDT_TRAP_GATE = 0x8F"

record IDTDescriptor =
  idt_size :: u16
  idt_offset :: u64

record IDTEntry =
  offset_0 :: u16
  selector :: u16
  ist :: u8
  type_attributes :: u8
  offset_1 :: u16
  offset_2 :: u32
  zero :: u32

definition IDT_CREATE_ENTRY :: "u64 \<Rightarrow> u16 \<Rightarrow> u8 \<Rightarrow> u8 \<Rightarrow> IDTEntry" where
  "IDT_CREATE_ENTRY OFFSET SELECTOR IST TYPE_ATTR =
     \<lparr>offset_0 = ucast (OFFSET AND 0xffff),
      selector = SELECTOR,
      ist = IST,
      type_attributes = (if TYPE_ATTR = IDT_INTERRUPT_GATE \<or> TYPE_ATTR = IDT_TRAP_GATE
                         then TYPE_ATTR else 0x00),
      offset_1 = ucast (drop_bit 16 OFFSET AND 0xffff),
      offset_2 = ucast (drop_bit 32 OFFSET AND 0xffffffff),
      zero = 0\<rparr>"

definition idt_create_entry :: "u64 \<Rightarrow> u16 \<Rightarrow> u8 \<Rightarrow> u8 \<Rightarrow> IDTEntry" where
  "idt_create_entry offset sel i ta =
     (let ret = \<lparr>offset_0 = 0, selector = 0, ist = 0, type_attributes = 0, offset_1 = 0, offset_2 = 0,
                 zero = 0\<rparr>;
          ret = ret\<lparr>offset_0 := ucast (offset AND 0xffff)\<rparr>;
          ret = ret\<lparr>offset_1 := ucast (drop_bit 16 offset AND 0xffff)\<rparr>;
          ret = ret\<lparr>offset_2 := ucast (drop_bit 32 offset AND 0xffffffff)\<rparr>;
          ret = ret\<lparr>selector := sel\<rparr>;
          ret = ret\<lparr>ist := i\<rparr>;
          ret = (if ta = IDT_INTERRUPT_GATE \<or> ta = IDT_TRAP_GATE then ret\<lparr>type_attributes := ta\<rparr>
                 else ret\<lparr>type_attributes := 0x00\<rparr>)
      in ret\<lparr>zero := 0\<rparr>)"

text \<open>An entry in memory, 16 bytes.\<close>

definition store_idt_entry :: "u64 \<Rightarrow> IDTEntry \<Rightarrow> mem \<Rightarrow> mem" where
  "store_idt_entry a e m =
     (let m = store_bytes 2 m a (offset_0 e);
          m = store_bytes 2 m (a + 2) (selector e);
          m = store_bytes 1 m (a + 4) (ist e);
          m = store_bytes 1 m (a + 5) (type_attributes e);
          m = store_bytes 2 m (a + 6) (offset_1 e);
          m = store_bytes 4 m (a + 8) (offset_2 e)
      in store_bytes 4 m (a + 12) (zero e))"

definition load_idt_entry :: "mem \<Rightarrow> u64 \<Rightarrow> IDTEntry" where
  "load_idt_entry m a =
     \<lparr>offset_0 = load_bytes 2 m a, selector = load_bytes 2 m (a + 2), ist = load_bytes 1 m (a + 4),
      type_attributes = load_bytes 1 m (a + 5), offset_1 = load_bytes 2 m (a + 6),
      offset_2 = load_bytes 4 m (a + 8), zero = load_bytes 4 m (a + 12)\<rparr>"

text \<open>The address a gate leads to.\<close>

definition gate_offset :: "IDTEntry \<Rightarrow> u64" where
  "gate_offset e = ucast (offset_0 e) OR push_bit 16 (ucast (offset_1 e)) OR push_bit 32 (ucast (offset_2 e))"

lemma gate_offset_create: "gate_offset (IDT_CREATE_ENTRY offset sel i ta) = offset"
proof (rule bit_word_eqI)
  fix n
  assume n: "n < LENGTH(64)"
  have m: "(0xffff :: u64) = mask 16" "(0xffffffff :: u64) = mask 32"
    by (simp_all add: mask_eq_exp_minus_1)
  show "bit (gate_offset (IDT_CREATE_ENTRY offset sel i ta)) n = bit offset n"
    unfolding gate_offset_def IDT_CREATE_ENTRY_def m using n
    by (cases "n < 16"; cases "n < 32")
      (auto simp: bit_or_iff bit_and_iff bit_push_bit_iff bit_ucast_iff bit_drop_bit_eq bit_mask_iff)
qed

lemma create_entry_eq: "idt_create_entry = IDT_CREATE_ENTRY"
  by (auto simp: fun_eq_iff idt_create_entry_def IDT_CREATE_ENTRY_def Let_def)

lemma load_field_apart:
  assumes "i + k \<le> j \<or> j + l \<le> i" and "i + k \<le> 2 ^ 63" and "j + l \<le> 2 ^ 63"
  shows "load_bytes k (store_bytes l m (a + of_nat j) v) (a + of_nat i) =
    (load_bytes k m (a + of_nat i) :: 'a::len word)"
  using apart_offsets [OF assms, of a] assms(2) by (intro load_store_bytes_apart) simp_all

lemma load_field_numeral:
  assumes "numeral i + k \<le> (numeral j :: nat) \<or> numeral j + l \<le> (numeral i :: nat)"
    and "numeral i + k \<le> (4096 :: nat)" and "numeral j + l \<le> (4096 :: nat)"
  shows "load_bytes k (store_bytes l m (a + numeral j) v) (a + numeral i) =
    (load_bytes k m (a + numeral i) :: 'a::len word)"
  using load_field_apart [of "numeral i" k "numeral j" l m a v] assms by simp

lemma load_field_first:
  assumes "k \<le> (numeral j :: nat)" and "numeral j + l \<le> (4096 :: nat)"
  shows "load_bytes k (store_bytes l m (a + numeral j) v) a = (load_bytes k m a :: 'a::len word)"
  using load_field_apart [of 0 k "numeral j" l m a v] assms by simp

lemma load_store_idt_entry: "load_idt_entry (store_idt_entry a e m) a = e"
  by (simp add: load_idt_entry_def store_idt_entry_def Let_def load_store_bytes_same
      load_field_numeral load_field_first del: One_nat_def load_bytes.simps)

text \<open>Entries of one table do not overlap, and an entry is written in its own bytes.\<close>

lemma store_idt_entry_outside:
  assumes "\<not> unat (x - a) < 16"
  shows "store_idt_entry a e m x = m x"
proof -
  have "\<not> unat (x - (a + of_nat i)) < k" if "i + k \<le> 16" for i k
  proof
    assume less: "unat (x - (a + of_nat i)) < k"
    define r where "r = x - (a + of_nat i)"
    have "unat r < k" using less by (simp add: r_def)
    moreover have "unat (of_nat i :: u64) = i" by (rule unat_of_nat_small) (use that in simp)
    moreover have "x - a = of_nat i + r" by (simp add: r_def)
    ultimately have "unat (x - a) = i + unat r" using that by (simp add: unat_plus_nowrap)
    with \<open>unat r < k\<close> assms that show False by simp
  qed
  from this [of 0 2] this [of 2 2] this [of 4 1] this [of 5 1] this [of 6 2] this [of 8 4]
    this [of 12 4]
  show ?thesis by (simp add: store_idt_entry_def store_bytes_def Let_def)
qed

lemma load_bytes_within:
  assumes "\<And>q. q < n \<Longrightarrow> m (a + of_nat q) = m' (a + of_nat q)" and "i + k \<le> n"
  shows "load_bytes k m (a + of_nat i) = (load_bytes k m' (a + of_nat i) :: 'a::len word)"
proof (rule load_bytes_cong)
  fix q
  assume "q < k"
  then have "i + q < n" using assms(2) by simp
  from assms(1) [OF this] show "m (a + of_nat i + of_nat q) = m' (a + of_nat i + of_nat q)"
    by (simp add: add.assoc)
qed

lemma load_idt_entry_cong:
  assumes "\<And>q. q < 16 \<Longrightarrow> m (a + of_nat q) = m' (a + of_nat q)"
  shows "load_idt_entry m a = load_idt_entry m' a"
proof -
  note eq = load_bytes_within [of 16 m a m', OF assms]
  have "(load_bytes 2 m a :: u16) = load_bytes 2 m' a"
    "(load_bytes 2 m (a + 2) :: u16) = load_bytes 2 m' (a + 2)"
    "(load_bytes 1 m (a + 4) :: u8) = load_bytes 1 m' (a + 4)"
    "(load_bytes 1 m (a + 5) :: u8) = load_bytes 1 m' (a + 5)"
    "(load_bytes 2 m (a + 6) :: u16) = load_bytes 2 m' (a + 6)"
    "(load_bytes 4 m (a + 8) :: u32) = load_bytes 4 m' (a + 8)"
    "(load_bytes 4 m (a + 12) :: u32) = load_bytes 4 m' (a + 12)"
    using eq [of 0 2, where 'a = 16] eq [of 2 2, where 'a = 16] eq [of 4 1, where 'a = 8]
      eq [of 5 1, where 'a = 8] eq [of 6 2, where 'a = 16] eq [of 8 4, where 'a = 32]
      eq [of 12 4, where 'a = 32]
    by (simp_all del: load_bytes.simps One_nat_def)
  then show ?thesis unfolding load_idt_entry_def by (simp only:)
qed

lemma load_idt_entry_other:
  assumes "i \<noteq> j" and "i < 256" and "j < 256"
  shows "load_idt_entry (store_idt_entry (a + of_nat (16 * j)) e m) (a + of_nat (16 * i)) =
    load_idt_entry m (a + of_nat (16 * i))"
proof (rule load_idt_entry_cong, rule store_idt_entry_outside)
  fix q :: nat
  assume q: "q < 16"
  have "apart (a + of_nat (16 * i)) 16 (a + of_nat (16 * j)) 16"
    by (rule apart_array) (use assms in simp_all)
  moreover have "unat (of_nat q :: u64) = q" by (rule unat_of_nat_small) (use q in simp)
  ultimately show "\<not> unat (a + of_nat (16 * i) + of_nat q - (a + of_nat (16 * j))) < 16"
    using q unfolding apart_def by (metis add_diff_cancel_left')
qed

lemma load_field_unfold:
  "(load_bytes 2 m a :: u16) = ucast (m a) OR push_bit 8 (ucast (m (a + 1)))"
  "(load_bytes 1 m a :: u8) = m a"
  by (simp_all add: numeral_eq_Suc)

lemma load_gdt_entry_cong:
  assumes "\<And>q. q < 8 \<Longrightarrow> m (a + of_nat q) = m' (a + of_nat q)"
  shows "load_gdt_entry m a = load_gdt_entry m' a"
proof -
  note eq = load_bytes_within [of 8 m a m', OF assms]
  have "(load_bytes 2 m a :: u16) = load_bytes 2 m' a"
    "(load_bytes 2 m (a + 2) :: u16) = load_bytes 2 m' (a + 2)"
    "(load_bytes 1 m (a + 4) :: u8) = load_bytes 1 m' (a + 4)"
    "(load_bytes 1 m (a + 5) :: u8) = load_bytes 1 m' (a + 5)"
    "(load_bytes 1 m (a + 6) :: u8) = load_bytes 1 m' (a + 6)"
    "(load_bytes 1 m (a + 7) :: u8) = load_bytes 1 m' (a + 7)"
    using eq [of 0 2, where 'a = 16] eq [of 2 2, where 'a = 16] eq [of 4 1, where 'a = 8]
      eq [of 5 1, where 'a = 8] eq [of 6 1, where 'a = 8] eq [of 7 1, where 'a = 8]
    by (simp_all del: load_bytes.simps One_nat_def)
  then show ?thesis unfolding load_gdt_entry_def by (simp only:)
qed

lemma load_gdt_cong:
  assumes "\<And>q. q < 48 \<Longrightarrow> m (a + of_nat q) = m' (a + of_nat q)"
  shows "load_gdt m a = load_gdt m' a"
proof -
  have entry: "load_gdt_entry m (a + of_nat i) = load_gdt_entry m' (a + of_nat i)" if "i \<le> 40" for i
  proof (rule load_gdt_entry_cong)
    show "m (a + of_nat i + of_nat q) = m' (a + of_nat i + of_nat q)" if "q < 8" for q
      using assms [of "i + q"] that \<open>i \<le> 40\<close> by (simp add: add.assoc)
  qed
  show ?thesis
    using entry [of 0] entry [of 8] entry [of 16] entry [of 24] entry [of 32] entry [of 40]
    by (simp add: load_gdt_def)
qed

section \<open>Properties\<close>

text \<open>C27. The macro and the function make the same gate. Stored in the table it is read back
  unchanged, it leads to the address it was made from, the bytes and the other entries of the table are
  as before, and its type is the one given for interrupt and trap gates and otherwise 0, an absent
  gate.\<close>

theorem idt_gate_roundtrip:
  assumes "i < 256" and "j < 256" and "i \<noteq> j"
  shows "idt_create_entry offset sel st ta = IDT_CREATE_ENTRY offset sel st ta \<and>
    (let e = IDT_CREATE_ENTRY offset sel st ta; m' = store_idt_entry (a + of_nat (16 * i)) e m
     in load_idt_entry m' (a + of_nat (16 * i)) = e \<and> gate_offset e = offset \<and> selector e = sel \<and>
        load_idt_entry m' (a + of_nat (16 * j)) = load_idt_entry m (a + of_nat (16 * j)) \<and>
        type_attributes e = (if ta \<in> {0x8E, 0x8F} then ta else 0) \<and>
        (bit (type_attributes e) 7 \<longleftrightarrow> ta \<in> {0x8E, 0x8F}))"
proof -
  have "bit (0x8E :: u8) 7" "bit (0x8F :: u8) 7" by simp_all
  then show ?thesis
    using load_idt_entry_other [OF not_sym [OF assms(3)] assms(2,1)] assms
    by (auto simp: create_entry_eq gate_offset_create load_store_idt_entry Let_def)
      (auto simp: IDT_CREATE_ENTRY_def IDT_INTERRUPT_GATE_def IDT_TRAP_GATE_def)
qed

theorem idt_gate_roundtrip_witness:
  "gate_offset (load_idt_entry (store_idt_entry (0x5000 + of_nat (16 * 14))
    (IDT_CREATE_ENTRY 0xFFFFFFFF80123456 8 0 0x8E) (\<lambda>_. 0)) (0x5000 + of_nat (16 * 14))) =
    0xFFFFFFFF80123456"
  using idt_gate_roundtrip [where i = 14 and j = 8 and a = "0x5000" and m = "\<lambda>_. 0" and ta = "0x8E"
      and offset = "0xFFFFFFFF80123456" and sel = 8 and st = 0] by (simp add: Let_def)

end
