(* ===== verification/PortIO.thy ===== *)
theory PortIO
  imports Prelude
begin

text \<open>
  Port input and output, the interrupt controllers and the timer (\<open>port_io.h\<close>,
  \<open>port_io.c\<close>, \<open>chrono.c\<close>). The state is the sequence of accesses made so far; what a
  read returns is up to the devices, a function of that sequence and the port.
\<close>

section \<open>Accesses\<close>

datatype io_event = Out8 u16 u8 | Out16 u16 u16 | Out32 u16 u32 | In8 u16 u8 | Sti | Cli

record io =
  events :: "io_event list"     \<comment> \<open>oldest first\<close>

type_synonym device = "io_event list \<Rightarrow> u16 \<Rightarrow> u8"

definition emit :: "io_event \<Rightarrow> 'a io_scheme \<Rightarrow> 'a io_scheme" where
  "emit e s = s\<lparr>events := events s @ [e]\<rparr>"

definition outb :: "u16 \<Rightarrow> u8 \<Rightarrow> 'a io_scheme \<Rightarrow> 'a io_scheme" where
  "outb port val = emit (Out8 port val)"

definition outw :: "u16 \<Rightarrow> u16 \<Rightarrow> 'a io_scheme \<Rightarrow> 'a io_scheme" where
  "outw port val = emit (Out16 port val)"

definition outl :: "u16 \<Rightarrow> u32 \<Rightarrow> 'a io_scheme \<Rightarrow> 'a io_scheme" where
  "outl port val = emit (Out32 port val)"

definition inb :: "device \<Rightarrow> u16 \<Rightarrow> 'a io_scheme \<Rightarrow> u8 \<times> 'a io_scheme" where
  "inb dev port s = (let v = dev (events s) port in (v, emit (In8 port v) s))"

definition io_wait :: "'a io_scheme \<Rightarrow> 'a io_scheme" where
  "io_wait = outb 0x80 0"

definition enable_interrupts :: "'a io_scheme \<Rightarrow> 'a io_scheme" where
  "enable_interrupts = emit Sti"

definition clear_interrupts :: "'a io_scheme \<Rightarrow> 'a io_scheme" where
  "clear_interrupts = emit Cli"

section \<open>Interrupt controllers\<close>

definition PIC_EOI :: u8 where "PIC_EOI = 0x20"
definition PIC1 :: u16 where "PIC1 = 0x20"
definition PIC2 :: u16 where "PIC2 = 0xA0"
definition PIC1_COMMAND :: u16 where "PIC1_COMMAND = PIC1"
definition PIC1_DATA :: u16 where "PIC1_DATA = PIC1 + 1"
definition PIC2_COMMAND :: u16 where "PIC2_COMMAND = PIC2"
definition PIC2_DATA :: u16 where "PIC2_DATA = PIC2 + 1"
definition ICW1_ICW4 :: u8 where "ICW1_ICW4 = 0x01"
definition ICW1_INIT :: u8 where "ICW1_INIT = 0x10"
definition ICW4_8086 :: u8 where "ICW4_8086 = 0x01"

lemmas pic_defs = PIC_EOI_def PIC1_def PIC2_def PIC1_COMMAND_def PIC1_DATA_def PIC2_COMMAND_def
  PIC2_DATA_def ICW1_ICW4_def ICW1_INIT_def ICW4_8086_def

text \<open>The offsets are \<open>int\<close> and the port takes their low byte.\<close>

definition PIC_remap :: "device \<Rightarrow> int \<Rightarrow> int \<Rightarrow> 'a io_scheme \<Rightarrow> 'a io_scheme" where
  "PIC_remap dev offset1 offset2 s =
     (let (a1, s) = inb dev PIC1_DATA s;
          (a2, s) = inb dev PIC2_DATA s;
          s = io_wait (outb PIC1_COMMAND (ICW1_INIT OR ICW1_ICW4) s);
          s = io_wait (outb PIC2_COMMAND (ICW1_INIT OR ICW1_ICW4) s);
          s = io_wait (outb PIC1_DATA (word_of_int offset1) s);
          s = io_wait (outb PIC2_DATA (word_of_int offset2) s);
          s = io_wait (outb PIC1_DATA 4 s);
          s = io_wait (outb PIC2_DATA 2 s);
          s = io_wait (outb PIC1_DATA ICW4_8086 s);
          s = io_wait (outb PIC2_DATA ICW4_8086 s);
          s = outb PIC1_DATA a1 s
      in outb PIC2_DATA a2 s)"

definition PIC_sendEOI :: "u8 \<Rightarrow> 'a io_scheme \<Rightarrow> 'a io_scheme" where
  "PIC_sendEOI irq s =
     (let s = if irq \<ge> 8 then outb PIC2_COMMAND PIC_EOI s else s
      in outb PIC1_COMMAND PIC_EOI s)"

text \<open>\<open>1 << n\<close> on \<open>int\<close>: the shift count has to be below the width; for 31 the bit pattern GCC documents.\<close>

definition shl_one :: "nat \<Rightarrow> u32 res" where
  "shl_one n = (if n < 32 then Inr (push_bit n 1) else Inl BadShift)"

definition irq_port :: "u8 \<Rightarrow> u16 \<times> u8" where
  "irq_port line = (if line < 8 then (PIC1_DATA, line) else (PIC2_DATA, line - 8))"

definition IRQ_set_mask :: "device \<Rightarrow> u8 \<Rightarrow> 'a io_scheme \<Rightarrow> 'a io_scheme res" where
  "IRQ_set_mask dev line s =
     (let (port, line) = irq_port line;
          (v, s) = inb dev port s
      in rbind (shl_one (unat line)) (\<lambda>m. Inr (outb port (ucast (ucast v OR m)) s)))"

definition IRQ_clear_mask :: "device \<Rightarrow> u8 \<Rightarrow> 'a io_scheme \<Rightarrow> 'a io_scheme res" where
  "IRQ_clear_mask dev line s =
     (let (port, line) = irq_port line;
          (v, s) = inb dev port s
      in rbind (shl_one (unat line)) (\<lambda>m. Inr (outb port (ucast (ucast v AND NOT m)) s)))"

section \<open>The timer\<close>

record chrono = io +
  ms_count :: u64

definition init_PIT :: "u32 \<Rightarrow> 'a chrono_scheme \<Rightarrow> 'a chrono_scheme res" where
  "init_PIT frequency s =
     (if frequency = 0 then Inl DivByZero
      else
        let divisor = 1193180 div frequency;
            s = s\<lparr>ms_count := 0\<rparr>;
            s = outb 0x43 0x36 s;
            lo = ucast (divisor AND 0xFF) :: u8;
            hi = ucast (drop_bit 8 divisor AND 0xFF) :: u8;
            s = clear_interrupts s;
            s = outb 0x40 lo s
        in Inr (outb 0x40 hi s))"

section \<open>What the accesses leave in the sequence\<close>

named_theorems io_simps \<open>the accesses made and the fields they leave\<close>

lemma emit_io [io_simps]:
  "events (emit e s) = events s @ [e]"
  "ms_count (emit e t) = ms_count t"
  by (simp_all add: emit_def)

lemma out_io [io_simps]:
  "events (outb port v s) = events s @ [Out8 port v]"
  "events (io_wait s) = events s @ [Out8 0x80 0]"
  "events (enable_interrupts s) = events s @ [Sti]"
  "events (clear_interrupts s) = events s @ [Cli]"
  "inb dev port s = (dev (events s) port, emit (In8 port (dev (events s) port)) s)"
  by (simp_all add: outb_def io_wait_def enable_interrupts_def clear_interrupts_def inb_def Let_def
      io_simps)

lemma out_ms_count [io_simps]:
  "ms_count (outb port v t) = ms_count t"
  "ms_count (clear_interrupts t) = ms_count t"
  by (simp_all add: outb_def clear_interrupts_def io_simps)

text \<open>A controller that keeps what is written to its data port.\<close>

fun last_out :: "u16 \<Rightarrow> u8 \<Rightarrow> io_event list \<Rightarrow> u8" where
  "last_out port v [] = v"
| "last_out port v (e # es) =
     last_out port (case e of Out8 q w \<Rightarrow> if q = port then w else v | _ \<Rightarrow> v) es"

definition latch :: "u8 \<Rightarrow> device" where
  "latch v0 es port = last_out port v0 es"

lemma last_out_append: "last_out port v (xs @ ys) = last_out port (last_out port v xs) ys"
  by (induction xs arbitrary: v) auto

section \<open>Properties\<close>

text \<open>C37. For the sixteen lines, \<open>IRQ_set_mask\<close> and \<open>IRQ_clear_mask\<close> read the mask of the line's
  controller and write it back with the line's bit set or cleared and the other seven as read; from
  line 40 on they shift an \<open>int\<close> by its width or more.\<close>

theorem IRQ_masks:
  "(case (IRQ_set_mask dev line s, IRQ_clear_mask dev line s) of
      (Inr s1, Inr s2) \<Rightarrow> line < 40 \<and>
        (line < 16 \<longrightarrow> (let port = (if line < 8 then 0x21 else 0xA1); v = dev (events s) port
         in \<exists>v1 v2. events s1 = events s @ [In8 port v, Out8 port v1] \<and>
              events s2 = events s @ [In8 port v, Out8 port v2] \<and>
              (\<forall>k<8. bit v1 k = (k = unat line mod 8 \<or> bit v k) \<and>
                     bit v2 k = (k \<noteq> unat line mod 8 \<and> bit v k))))
    | (Inl e1, Inl e2) \<Rightarrow> 40 \<le> line \<and> e1 = BadShift \<and> e2 = BadShift
    | _ \<Rightarrow> False)"
proof -
  define port where "port = fst (irq_port line)"
  define l where "l = snd (irq_port line)"
  define v where "v = dev (events s) port"
  have l: "unat l = (if unat line < 8 then unat line else unat line - 8)"
    by (auto simp: l_def irq_port_def word_less_nat_alt unat_minus_le word_le_nat_alt)
  have fits: "unat l < 32 \<longleftrightarrow> line < 40" using l by (auto simp: word_less_nat_alt)
  show ?thesis
  proof (cases "line < 40")
    case False
    then show ?thesis
      using fits by (simp add: IRQ_set_mask_def IRQ_clear_mask_def shl_one_def io_simps Let_def
          split_def flip: l_def)
  next
    case True
    then have m: "shl_one (unat l) = Inr (push_bit (unat l) 1)" using fits by (simp add: shl_one_def)
    define v1 :: u8 where "v1 = ucast (ucast v OR (push_bit (unat l) 1 :: u32))"
    define v2 :: u8 where "v2 = ucast (ucast v AND NOT (push_bit (unat l) 1 :: u32))"
    have run: "IRQ_set_mask dev line s = Inr (outb port v1 (emit (In8 port v) s))"
      "IRQ_clear_mask dev line s = Inr (outb port v2 (emit (In8 port v) s))"
      using m by (simp_all add: IRQ_set_mask_def IRQ_clear_mask_def io_simps Let_def split_def
          v1_def v2_def v_def flip: l_def port_def)
    have bits: "bit v1 k = (k = unat l \<or> bit v k)" "bit v2 k = (k \<noteq> unat l \<and> bit v k)" if "k < 8" for k
      using that unfolding v1_def v2_def
      by (auto simp: bit_ucast_iff bit_or_iff bit_and_iff bit_not_iff bit_push_bit_iff bit_1_iff
          simp del: push_bit_of_1)
    have "unat l = unat line mod 8" if "line < 16"
      using l that by (auto simp: word_less_nat_alt mod_if)
    moreover have "port = (if line < 8 then 0x21 else 0xA1)"
      by (simp add: port_def irq_port_def pic_defs)
    ultimately show ?thesis
      using True run bits by (auto simp: io_simps Let_def v_def intro!: exI [of _ v1] exI [of _ v2])
  qed
qed

theorem IRQ_masks_witness:
  "case IRQ_clear_mask (latch 0xFF) 9 \<lparr>events = []\<rparr> of
     Inr s \<Rightarrow> \<exists>v. events s = [In8 0xA1 0xFF, Out8 0xA1 v] \<and> \<not> bit v 1 \<and> bit v 0
   | Inl _ \<Rightarrow> False"
proof -
  have b: "bit (0xFF :: u8) 0" by simp
  show ?thesis
    using IRQ_masks [where dev = "latch 0xFF" and line = 9 and s = "\<lparr>events = []\<rparr>"] b
    by (auto simp: latch_def Let_def split: sum.splits)
qed

text \<open>\<open>init_PIT\<close> resets the millisecond count and programs channel 0 with the two bytes of
  the divisor, modulo \<open>2 ^ 16\<close>, interrupts off between command and data; a frequency of 0 divides by
  zero, and a frequency below 19 has a divisor the timer cannot hold.\<close>

theorem init_PIT_result:
  "init_PIT frequency s =
    (if frequency = 0 then Inl DivByZero
     else Inr (s\<lparr>ms_count := 0, events := events s @
       [Out8 0x43 0x36, Cli, Out8 0x40 (ucast (1193180 div frequency)),
        Out8 0x40 (ucast (drop_bit 8 (1193180 div frequency)))]\<rparr>)) \<and>
   (frequency \<noteq> 0 \<longrightarrow> (unat (1193180 div frequency) < 2 ^ 16 \<longleftrightarrow> 19 \<le> frequency))"
proof
  have m: "(ucast (x AND 0xFF) :: u8) = ucast x" for x :: u32
  proof -
    have "x AND 0xFF = take_bit 8 x" by (simp add: take_bit_eq_mask mask_eq_exp_minus_1)
    then show ?thesis by (simp add: word_unat_eq_iff unsigned_ucast_eq unsigned_take_bit_eq)
  qed
  show "init_PIT frequency s =
    (if frequency = 0 then Inl DivByZero
     else Inr (s\<lparr>ms_count := 0, events := events s @
       [Out8 0x43 0x36, Cli, Out8 0x40 (ucast (1193180 div frequency)),
        Out8 0x40 (ucast (drop_bit 8 (1193180 div frequency)))]\<rparr>))"
    by (simp add: init_PIT_def Let_def m outb_def clear_interrupts_def emit_def)
  show "frequency \<noteq> 0 \<longrightarrow> (unat (1193180 div frequency) < 2 ^ 16 \<longleftrightarrow> 19 \<le> frequency)"
  proof
    assume "frequency \<noteq> 0"
    then have "0 < unat frequency" by (simp add: unat_gt_0)
    then have "1193180 div unat frequency < 2 ^ 16 \<longleftrightarrow> 19 \<le> unat frequency"
      by (auto simp: div_less_iff_less_mult)
    then show "unat (1193180 div frequency) < 2 ^ 16 \<longleftrightarrow> 19 \<le> frequency"
      by (simp add: unat_div_distrib word_le_nat_alt)
  qed
qed

theorem init_PIT_result_witness:
  "map_sum id events (init_PIT 1000 \<lparr>events = [], ms_count = 7\<rparr>) =
    Inr [Out8 0x43 0x36, Cli, Out8 0x40 0xA9, Out8 0x40 0x04]"
  using init_PIT_result [of 1000 "\<lparr>events = [], ms_count = 7\<rparr>"] by simp

end
