(* ===== verification/Serial.thy ===== *)
theory Serial
  imports PortIO FmtItems
begin

text \<open>
  The serial port, \<open>serial.c\<close>, and the macro \<open>serial_printf\<close> of \<open>serial.h\<close>. The waits for the
  device are unbounded loops: \<open>None\<close> is a call that never returns. The proofs rest on one law of
  the transmitter, the locale \<open>channel\<close>: a character given to a device that keeps becoming ready
  is sent.
\<close>

section \<open>Waiting for the device\<close>

text \<open>\<open>while (status() == 0) ;\<close>\<close>

partial_function (option) await :: "('s \<Rightarrow> u8 \<times> 's) \<Rightarrow> 's \<Rightarrow> 's option" where
  "await status s = (let (v, s) = status s in if v = 0 then await status s else Some s)"

section \<open>The port\<close>

record serial = chrono +
  print_buff :: "u8 list"    \<comment> \<open>\<open>__str_buff\<close> of \<open>fmt.c\<close>\<close>

definition COM1_PORT :: u16 where "COM1_PORT = 0x3f8"

definition serial_transmit_empty :: "device \<Rightarrow> 'a io_scheme \<Rightarrow> u8 \<times> 'a io_scheme" where
  "serial_transmit_empty dev s = (let (v, s) = inb dev (COM1_PORT + 5) s in (v AND 0x20, s))"

definition serial_received :: "device \<Rightarrow> 'a io_scheme \<Rightarrow> u8 \<times> 'a io_scheme" where
  "serial_received dev s = (let (v, s) = inb dev (COM1_PORT + 5) s in (v AND 1, s))"

definition init_serial :: "device \<Rightarrow> 'a io_scheme \<Rightarrow> int \<times> 'a io_scheme" where
  "init_serial dev s =
     (let s = outb (COM1_PORT + 1) 0x00 s;
          s = outb (COM1_PORT + 3) 0x80 s;
          s = outb (COM1_PORT + 0) 0x03 s;
          s = outb (COM1_PORT + 1) 0x00 s;
          s = outb (COM1_PORT + 3) 0x03 s;
          s = outb (COM1_PORT + 2) 0xC7 s;
          s = outb (COM1_PORT + 4) 0x0B s;
          s = outb (COM1_PORT + 4) 0x1E s;
          s = outb (COM1_PORT + 0) 0xAE s;
          (v, s) = inb dev (COM1_PORT + 0) s
      in if v \<noteq> 0xAE then (1, s)
         else let s = outb (COM1_PORT + 4) 0x0F s
              in (0, s))"

definition kputc :: "device \<Rightarrow> int \<Rightarrow> 'a io_scheme \<Rightarrow> (int \<times> 'a io_scheme) option" where
  "kputc dev c s =
     Option.bind (await (serial_transmit_empty dev) s) (\<lambda>s. Some (c, outb COM1_PORT (word_of_int c) s))"

function kputs :: "device \<Rightarrow> u8 list \<Rightarrow> nat \<Rightarrow> 'a io_scheme \<Rightarrow> (int \<times> 'a io_scheme) run" where
  "kputs dev str p s =
     obind (Some (rd str p)) (\<lambda>c.
       if c \<noteq> 0
       then obind (map_option Inr (kputc dev (sint c) s)) (\<lambda>(_, s). kputs dev str (Suc p) s)
       else Some (Inr (0, s)))"
  by pat_completeness auto
termination
  by (relation "measure (\<lambda>(dev, str, p, s). length str - p)") (auto simp: rd_def split: if_splits)

declare kputs.simps [simp del]

definition kgetc :: "device \<Rightarrow> 'a io_scheme \<Rightarrow> (int \<times> 'a io_scheme) option" where
  "kgetc dev s =
     Option.bind (await (serial_received dev) s) (\<lambda>s.
       let (v, s) = inb dev COM1_PORT s in Some (uint v, s))"

section \<open>Formatted output\<close>

text \<open>
  \<open>__proto_print\<close> calls the function it is given on the characters in order; it does not look at
  what the function changes, so the calls can be made after it has returned.
\<close>

primrec send :: "(int \<Rightarrow> 's \<Rightarrow> (int \<times> 's) option) \<Rightarrow> int list \<Rightarrow> 's \<Rightarrow> 's option" where
  "send put [] s = Some s"
| "send put (c # cs) s = Option.bind (put c s) (\<lambda>(_, s). send put cs s)"

definition kprint :: "device \<Rightarrow> u8 list \<Rightarrow> va list \<Rightarrow> 'a serial_scheme \<Rightarrow> (int \<times> 'a serial_scheme) run" where
  "kprint dev format ap s =
     obind (Some (proto_print format ap \<lparr>str_buff = print_buff s, out = []\<rparr>)) (\<lambda>(ret, f).
       map_option (\<lambda>s. Inr (ret, s\<lparr>print_buff := str_buff f\<rparr>)) (send (kputc dev) (out f) s))"

text \<open>A string literal, with its terminating 0.\<close>

definition lit :: "string \<Rightarrow> u8 list" where
  "lit str = map of_char str @ [0]"

definition serial_printf :: "device \<Rightarrow> u8 list \<Rightarrow> va list \<Rightarrow> 'a serial_scheme \<Rightarrow> 'a serial_scheme run" where
  "serial_printf dev format ap s =
     obind (kprint dev (lit ''[%9d.%03d] '') [VWord (ms_count s div 1000), VWord (ms_count s mod 1000)] s)
       (\<lambda>(_, s). obind (kprint dev format ap s) (\<lambda>(_, s). Some (Inr s)))"

section \<open>Waiting\<close>

text \<open>The state after \<open>n\<close> reads of the status.\<close>

abbreviation polled :: "('s \<Rightarrow> u8 \<times> 's) \<Rightarrow> nat \<Rightarrow> 's \<Rightarrow> 's" where
  "polled status n s \<equiv> ((\<lambda>s. snd (status s)) ^^ n) s"

lemma await_returns:
  "(\<And>k. k < n \<Longrightarrow> fst (status (polled status k s)) = 0) \<Longrightarrow> fst (status (polled status n s)) \<noteq> 0 \<Longrightarrow>
     await status s = Some (polled status (Suc n) s)"
proof (induction n arbitrary: s)
  case 0
  then show ?case by (subst await.simps) (simp add: split_def)
next
  case (Suc n)
  have "fst (status s) = 0" using Suc.prems(1) [of 0] by simp
  moreover have "await status (snd (status s)) = Some (polled status (Suc n) (snd (status s)))"
    using Suc.prems(1) [of "Suc _"] Suc.prems(2)
    by (intro Suc.IH) (simp_all del: funpow.simps add: funpow_Suc_right)
  ultimately show ?case
    by (subst await.simps) (simp del: funpow.simps add: split_def funpow_Suc_right)
qed

lemma await_some_ready:
  assumes "await status s = Some s'"
  shows "\<exists>n. fst (status (polled status n s)) \<noteq> 0"
proof (rule await.raw_induct [where P = "\<lambda>status s s'. \<exists>n. fst (status (polled status n s)) \<noteq> 0", OF _ assms])
  fix f :: "('s \<Rightarrow> u8 \<times> 's) \<Rightarrow> 's \<Rightarrow> 's option" and status :: "'s \<Rightarrow> u8 \<times> 's" and s s' :: 's
  assume IH: "\<And>status s s'. f status s = Some s' \<Longrightarrow> \<exists>n. fst (status (polled status n s)) \<noteq> 0"
    and run: "(let (v, s) = status s in if v = 0 then f status s else Some s) = Some s'"
  show "\<exists>n. fst (status (polled status n s)) \<noteq> 0"
  proof (cases "fst (status s) = 0")
    case True
    then have "f status (snd (status s)) = Some s'" using run by (simp add: split_def)
    then obtain n where "fst (status (polled status n (snd (status s)))) \<noteq> 0" using IH by blast
    then show ?thesis by (intro exI [of _ "Suc n"]) (simp del: funpow.simps add: funpow_Suc_right)
  qed (auto intro: exI [of _ 0])
qed

text \<open>The first \<open>n\<close> for which the status is not 0, if there is one.\<close>

lemma await_result:
  "await status s = Some s' \<longleftrightarrow>
     (\<exists>n. (\<forall>k<n. fst (status (polled status k s)) = 0) \<and> fst (status (polled status n s)) \<noteq> 0 \<and>
       s' = polled status (Suc n) s)" (is "?l \<longleftrightarrow> (\<exists>n. ?at n s')")
proof
  have first: "\<exists>n. (\<forall>k<n. fst (status (polled status k s)) = 0) \<and> fst (status (polled status n s)) \<noteq> 0"
    if "fst (status (polled status m s)) \<noteq> 0" for m
    using that exists_least_iff [of "\<lambda>n. fst (status (polled status n s)) \<noteq> 0"] by blast
  assume l: ?l
  then obtain n where n: "\<forall>k<n. fst (status (polled status k s)) = 0"
      "fst (status (polled status n s)) \<noteq> 0"
    using await_some_ready first by metis
  then have "await status s = Some (polled status (Suc n) s)" by (intro await_returns) auto
  with l n show "\<exists>n. ?at n s'" by auto
next
  assume "\<exists>n. ?at n s'"
  then show ?l using await_returns by metis
qed

lemma await_diverges: "await status s = None \<longleftrightarrow> (\<forall>n. fst (status (polled status n s)) = 0)"
proof
  assume none: "await status s = None"
  show "\<forall>n. fst (status (polled status n s)) = 0"
  proof (rule ccontr)
    assume "\<not> (\<forall>n. fst (status (polled status n s)) = 0)"
    then obtain n where "fst (status (polled status n s)) \<noteq> 0"
        "\<forall>k<n. fst (status (polled status k s)) = 0"
      using exists_least_iff [of "\<lambda>n. fst (status (polled status n s)) \<noteq> 0"] by blast
    then have "await status s = Some (polled status (Suc n) s)" by (intro await_returns) auto
    with none show False by simp
  qed
next
  assume "\<forall>n. fst (status (polled status n s)) = 0"
  then show "await status s = None" using await_some_ready [of status s] by (cases "await status s") auto
qed

section \<open>Reading a port again and again\<close>

fun after_reads :: "device \<Rightarrow> u16 \<Rightarrow> nat \<Rightarrow> io_event list \<Rightarrow> io_event list" where
  "after_reads dev port 0 es = es"
| "after_reads dev port (Suc n) es =
     (let es = after_reads dev port n es in es @ [In8 port (dev es port)])"

text \<open>What the port answers to read number \<open>n\<close>, and a port that keeps showing one of the bits.\<close>

definition answer :: "device \<Rightarrow> u16 \<Rightarrow> nat \<Rightarrow> io_event list \<Rightarrow> u8" where
  "answer dev port n es = dev (after_reads dev port n es) port"

definition keeps_showing :: "device \<Rightarrow> u16 \<Rightarrow> u8 \<Rightarrow> bool" where
  "keeps_showing dev port m \<longleftrightarrow> (\<forall>es. \<exists>n. answer dev port n es AND m \<noteq> 0)"

lemma status_reads:
  "serial_transmit_empty dev s =
     (dev (events s) 0x3FD AND 0x20, s\<lparr>events := events s @ [In8 0x3FD (dev (events s) 0x3FD)]\<rparr>)"
  "serial_received dev s =
     (dev (events s) 0x3FD AND 1, s\<lparr>events := events s @ [In8 0x3FD (dev (events s) 0x3FD)]\<rparr>)"
  by (simp_all add: serial_transmit_empty_def serial_received_def COM1_PORT_def io_simps emit_def)

lemma polled_reads:
  "polled (serial_transmit_empty dev) n s = s\<lparr>events := after_reads dev 0x3FD n (events s)\<rparr>"
  "polled (serial_received dev) n s = s\<lparr>events := after_reads dev 0x3FD n (events s)\<rparr>"
  by (induction n) (simp_all add: status_reads Let_def)

lemma status_answer:
  "fst (serial_transmit_empty dev (polled (serial_transmit_empty dev) n s)) =
     answer dev 0x3FD n (events s) AND 0x20"
  "fst (serial_received dev (polled (serial_received dev) n s)) = answer dev 0x3FD n (events s) AND 1"
  by (simp_all only: polled_reads) (simp_all add: status_reads answer_def)

text \<open>The bytes given to the transmitter.\<close>

fun out_byte :: "io_event \<Rightarrow> u8 list" where
  "out_byte (Out8 port v) = (if port = 0x3F8 then [v] else [])"
| "out_byte _ = []"

definition sent :: "io_event list \<Rightarrow> u8 list" where
  "sent es = concat (map out_byte es)"

lemma sent_append [simp]: "sent (xs @ ys) = sent xs @ sent ys"
  by (simp add: sent_def)

lemma sent_reads [simp]: "sent (after_reads dev port n es) = sent es"
  by (induction n) (simp_all add: sent_def Let_def)

section \<open>The transmitter as a channel\<close>

locale channel =
  fixes put :: "'d \<Rightarrow> int \<Rightarrow> 's \<Rightarrow> (int \<times> 's) option"
    and good :: "'d \<Rightarrow> bool"
    and trace :: "'s \<Rightarrow> u8 list"
    and kept :: "'s \<Rightarrow> 'k"
  assumes put_good: "good d \<Longrightarrow>
    \<exists>s'. put d c s = Some (c, s') \<and> trace s' = trace s @ [word_of_int c] \<and> kept s' = kept s"
begin

lemma send_good:
  assumes "good d"
  shows "\<exists>s'. send (put d) cs s = Some s' \<and> trace s' = trace s @ map word_of_int cs \<and> kept s' = kept s"
proof (induction cs arbitrary: s)
  case Nil
  then show ?case by simp
next
  case (Cons c cs)
  from put_good [OF assms, of c s] obtain s1 where
    "put d c s = Some (c, s1)" "trace s1 = trace s @ [word_of_int c]" "kept s1 = kept s" by blast
  with Cons [of s1] show ?case by auto
qed

end

lemma ex_state: "(\<exists>t. (\<exists>n. P n \<and> Q n \<and> t = f n) \<and> R t) \<longleftrightarrow> (\<exists>n. P n \<and> Q n \<and> R (f n))"
  by blast

lemma kputc_run:
  "kputc dev c s = Some (r, s') \<longleftrightarrow> r = c \<and>
     (\<exists>n. (\<forall>k<n. answer dev 0x3FD k (events s) AND 0x20 = 0) \<and>
          answer dev 0x3FD n (events s) AND 0x20 \<noteq> 0 \<and>
          s' = s\<lparr>events := after_reads dev 0x3FD (Suc n) (events s) @ [Out8 0x3F8 (word_of_int c)]\<rparr>)"
proof -
  have "await (serial_transmit_empty dev) s = Some t \<longleftrightarrow>
     (\<exists>n. (\<forall>k<n. answer dev 0x3FD k (events s) AND 0x20 = 0) \<and>
          answer dev 0x3FD n (events s) AND 0x20 \<noteq> 0 \<and>
          t = s\<lparr>events := after_reads dev 0x3FD (Suc n) (events s)\<rparr>)" for t
    unfolding await_result status_answer unfolding polled_reads ..
  moreover have "kputc dev c s = Some (r, s') \<longleftrightarrow> r = c \<and>
      (\<exists>t. await (serial_transmit_empty dev) s = Some t \<and>
        s' = t\<lparr>events := events t @ [Out8 0x3F8 (word_of_int c)]\<rparr>)"
    by (auto simp: kputc_def bind_eq_Some_conv COM1_PORT_def outb_def emit_def)
  ultimately show ?thesis by (simp del: after_reads.simps add: ex_state)
qed

lemma kputc_diverges:
  "kputc dev c s = None \<longleftrightarrow> (\<forall>n. answer dev 0x3FD n (events s) AND 0x20 = 0)"
  by (simp add: kputc_def bind_eq_None_conv await_diverges status_answer)

lemma kputc_good:
  assumes "keeps_showing dev 0x3FD 0x20"
  shows "\<exists>s'. kputc dev c s = Some (c, s') \<and> sent (events s') = sent (events s) @ [word_of_int c] \<and>
    s'\<lparr>events := []\<rparr> = s\<lparr>events := []\<rparr>"
proof -
  have "kputc dev c s \<noteq> None" using assms by (simp add: kputc_diverges keeps_showing_def)
  then obtain r s' where run: "kputc dev c s = Some (r, s')" by auto
  then obtain n where "r = c"
    and s': "s' = s\<lparr>events := after_reads dev 0x3FD (Suc n) (events s) @ [Out8 0x3F8 (word_of_int c)]\<rparr>"
    unfolding kputc_run by blast
  have "sent [Out8 0x3F8 (word_of_int c)] = [word_of_int c]" by (simp add: sent_def)
  then have "sent (events s') = sent (events s) @ [word_of_int c]"
    by (simp add: s' del: after_reads.simps)
  then show ?thesis using run \<open>r = c\<close> by (auto simp: s')
qed

interpretation com1: channel kputc "\<lambda>dev. keeps_showing dev 0x3FD 0x20" "\<lambda>s. sent (events s)"
    "\<lambda>s. s\<lparr>events := []\<rparr>"
  by unfold_locales (rule kputc_good)

lemma kgetc_diverges: "kgetc dev s = None \<longleftrightarrow> (\<forall>n. answer dev 0x3FD n (events s) AND 1 = 0)"
  by (simp add: kgetc_def bind_eq_None_conv await_diverges status_answer split_def Let_def)

lemma kgetc_run:
  "kgetc dev s = Some (r, s') \<longleftrightarrow>
     (\<exists>n. (\<forall>k<n. answer dev 0x3FD k (events s) AND 1 = 0) \<and>
          answer dev 0x3FD n (events s) AND 1 \<noteq> 0 \<and>
          (let es = after_reads dev 0x3FD (Suc n) (events s); v = dev es 0x3F8
           in r = uint v \<and> s' = s\<lparr>events := es @ [In8 0x3F8 v]\<rparr>))"
proof -
  have "await (serial_received dev) s = Some t \<longleftrightarrow>
     (\<exists>n. (\<forall>k<n. answer dev 0x3FD k (events s) AND 1 = 0) \<and>
          answer dev 0x3FD n (events s) AND 1 \<noteq> 0 \<and>
          t = s\<lparr>events := after_reads dev 0x3FD (Suc n) (events s)\<rparr>)" for t
    unfolding await_result status_answer unfolding polled_reads ..
  moreover have "kgetc dev s = Some (r, s') \<longleftrightarrow>
      (\<exists>t. await (serial_received dev) s = Some t \<and> r = uint (dev (events t) 0x3F8) \<and>
        s' = t\<lparr>events := events t @ [In8 0x3F8 (dev (events t) 0x3F8)]\<rparr>)"
    by (auto simp: kgetc_def bind_eq_Some_conv COM1_PORT_def io_simps emit_def)
  ultimately show ?thesis by (simp del: after_reads.simps add: ex_state Let_def)
qed

section \<open>Printing through the channel\<close>

lemma kputs_sends:
  assumes "keeps_showing dev 0x3FD 0x20" and "cstr str p xs"
  shows "\<exists>s'. kputs dev str p s = Some (Inr (0, s')) \<and>
    sent (events s') = sent (events s) @ xs \<and> s'\<lparr>events := []\<rparr> = s\<lparr>events := []\<rparr>"
  using assms(2)
proof (induction xs arbitrary: p s)
  case Nil
  then show ?case by (subst kputs.simps) (simp add: cstr_Nil)
next
  case (Cons x xs)
  from cstr_Cons [OF Cons.prems] have x: "rd str p = Inr x" "x \<noteq> 0" "cstr str (Suc p) xs" by auto
  from com1.put_good [OF assms(1), of "sint x" s] obtain s1 where s1:
    "kputc dev (sint x) s = Some (sint x, s1)" "sent (events s1) = sent (events s) @ [x]"
    "s1\<lparr>events := []\<rparr> = s\<lparr>events := []\<rparr>" by auto
  from Cons.IH [OF x(3), of s1] obtain s2 where "kputs dev str (Suc p) s1 = Some (Inr (0, s2))"
    "sent (events s2) = sent (events s1) @ xs" "s2\<lparr>events := []\<rparr> = s1\<lparr>events := []\<rparr>" by blast
  with s1 x show ?case by (subst kputs.simps) simp
qed

lemma kept_fields:
  assumes "s'\<lparr>events := []\<rparr> = s\<lparr>events := []\<rparr>"
  shows "ms_count s' = ms_count s" and "print_buff s' = print_buff s"
    and "chrono.more s' = chrono.more s"
proof -
  have "ms_count (s'\<lparr>events := []\<rparr>) = ms_count (s\<lparr>events := []\<rparr>)"
    "print_buff (s'\<lparr>events := []\<rparr>) = print_buff (s\<lparr>events := []\<rparr>)"
    "chrono.more (s'\<lparr>events := []\<rparr>) = chrono.more (s\<lparr>events := []\<rparr>)"
    by (simp_all only: assms)
  then show "ms_count s' = ms_count s" and "print_buff s' = print_buff s"
    and "chrono.more s' = chrono.more s" by simp_all
qed

lemma kprint_itemsE:
  assumes "keeps_showing dev 0x3FD 0x20" and "items_output items ap 0 = Some (printed, ret)"
    and "\<And>x. x \<in> set items \<Longrightarrow> item_ok x" and "length (print_buff s) = 32"
  obtains s' where "kprint dev (format_text items @ [0]) ap s = Some (Inr (ret, s'))"
    and "sent (events s') = sent (events s) @ map word_of_int printed"
    and "ms_count s' = ms_count s" and "length (print_buff s') = 32"
proof -
  obtain b where b: "proto_print (format_text items @ [0]) ap \<lparr>str_buff = print_buff s, out = []\<rparr> =
      Inr (ret, \<lparr>str_buff = b, out = printed\<rparr>)" "length b = 32"
    using loop_items [OF assms(2,3), of _ "[]" "[]" "\<lparr>str_buff = print_buff s, out = []\<rparr>"] assms(4)
    by (auto simp: proto_print_def)
  obtain s1 where s1: "send (kputc dev) printed s = Some s1"
      "sent (events s1) = sent (events s) @ map word_of_int printed"
      "s1\<lparr>events := []\<rparr> = s\<lparr>events := []\<rparr>"
    using com1.send_good [OF assms(1)] by blast
  show thesis
    by (rule that [of "s1\<lparr>print_buff := b\<rparr>"])
      (use b s1 kept_fields [OF s1(3)] in \<open>simp_all add: kprint_def\<close>)
qed

text \<open>The time stamp of \<open>serial_printf\<close>: seconds and milliseconds.\<close>

definition time_stamp :: "nat \<Rightarrow> int list" where
  "time_stamp ms =
     [91] @ field_text 9 0 32 [] (number_text True 10 (- 1) (ms div 1000)) @
     [46] @ field_text 3 0 48 [] (number_text True 10 (- 1) (ms mod 1000)) @ [93, 32]"

definition stamp_items :: "item list" where
  "stamp_items =
     [Lit 91,
      Dir \<lparr>ds_flags = [], ds_width = Some 9, ds_precision = None, ds_length = 0, ds_conv = 100\<rparr>,
      Lit 46,
      Dir \<lparr>ds_flags = [48], ds_width = Some 3, ds_precision = None, ds_length = 0, ds_conv = 100\<rparr>,
      Lit 93, Lit 32]"

lemma stamp_items_ok: "x \<in> set stamp_items \<Longrightarrow> item_ok x"
  by (auto simp: stamp_items_def dir_ok_def INT_MAX_def)

lemma stamp_format: "lit ''[%9d.%03d] '' = format_text stamp_items @ [0]"
  by (simp add: lit_def stamp_items_def format_text_def dir_text_def digit_bytes_def digits.simps
      digit_char_def byte_def length_text_def)

lemma decimal_arg:
  assumes "unat w < 2 ^ 31"
  shows "signed_arg 0 w = int (unat w)"
proof -
  have "w = of_nat (unat w)" by simp
  then have "(ucast w :: u32) = of_nat (unat w)"
    using ucast_u32_of_nat [of "unat w"] assms by simp
  then have "(ucast w :: u32) = word_of_int (int (unat w))" by simp
  moreover have "int (unat w) < int (2 ^ 31)" using assms by (simp only: of_nat_less_iff)
  then have "int (unat w) < 2147483648" by simp
  then have "INT_MIN \<le> int (unat w)" and "int (unat w) \<le> INT_MAX"
    using of_nat_0_le_iff [of "unat w", where 'a = int]
    unfolding INT_MIN_def INT_MAX_def by linarith+
  ultimately show ?thesis using sint_u32_small [of "int (unat w)"] by (simp add: signed_arg_def)
qed

lemma stamp_output:
  assumes "unat ms < 2 ^ 31 * 1000"
  shows "items_output stamp_items [VWord (ms div 1000), VWord (ms mod 1000)] 0 =
    Some (time_stamp (unat ms), int (length (time_stamp (unat ms))))"
proof -
  have q: "signed_arg 0 (ms div 1000) = int (unat ms div 1000)"
    using assms by (subst decimal_arg) (simp_all add: unat_div_distrib)
  have r: "signed_arg 0 (ms mod 1000) = int (unat ms mod 1000)"
    by (subst decimal_arg) (simp_all add: unat_mod_distrib)
  have lenq: "length (digits 10 (unat ms div 1000)) \<le> 10"
    by (rule digits_length_le) (use assms in simp_all)
  have lenr: "length (digits 10 (unat ms mod 1000)) \<le> 3"
    by (rule digits_length_le) simp_all
  show ?thesis
    using lenq lenr
    by (simp add: stamp_items_def time_stamp_def dir_meaning_def dir_output_def field_output_def q r
        number_text_def field_text_length LLONG_MIN_def INT_MIN_def INT_MAX_def sign_text_def Let_def)
qed

lemma serial_printf_runs:
  assumes "keeps_showing dev 0x3FD 0x20"
    and "items_output items ap 0 = Some (printed, ret)" and "\<And>x. x \<in> set items \<Longrightarrow> item_ok x"
    and "length (print_buff s) = 32" and "unat (ms_count s) < 2 ^ 31 * 1000"
  shows "\<exists>s'. serial_printf dev (format_text items @ [0]) ap s = Some (Inr s') \<and>
    sent (events s') = sent (events s) @ map word_of_int (time_stamp (unat (ms_count s)) @ printed) \<and>
    ms_count s' = ms_count s \<and> length (print_buff s') = 32"
proof -
  have stamp: "items_output stamp_items [VWord (ms_count s div 1000), VWord (ms_count s mod 1000)] 0 =
      Some (time_stamp (unat (ms_count s)), int (length (time_stamp (unat (ms_count s)))))"
    by (rule stamp_output [OF assms(5)])
  obtain s1 where s1: "kprint dev (format_text stamp_items @ [0])
      [VWord (ms_count s div 1000), VWord (ms_count s mod 1000)] s =
        Some (Inr (int (length (time_stamp (unat (ms_count s)))), s1))"
      "sent (events s1) = sent (events s) @ map word_of_int (time_stamp (unat (ms_count s)))"
      "ms_count s1 = ms_count s" "length (print_buff s1) = 32"
    by (rule kprint_itemsE [OF assms(1) stamp _ assms(4)], erule stamp_items_ok, rule that)
  obtain s2 where "kprint dev (format_text items @ [0]) ap s1 = Some (Inr (ret, s2))"
      "sent (events s2) = sent (events s1) @ map word_of_int printed"
      "ms_count s2 = ms_count s1" "length (print_buff s2) = 32"
    by (rule kprint_itemsE [OF assms(1,2) _ s1(4)], erule assms(3), rule that)
  then have "serial_printf dev (format_text items @ [0]) ap s = Some (Inr s2) \<and>
      sent (events s2) = sent (events s) @ map word_of_int (time_stamp (unat (ms_count s)) @ printed) \<and>
      ms_count s2 = ms_count s \<and> length (print_buff s2) = 32"
    unfolding serial_printf_def stamp_format s1(1) obind_simps prod.case
    by (simp only: s1(2,3) obind_simps prod.case map_append append.assoc simp_thms)
  then show ?thesis by blast
qed

end
