(* ===== verification/Interrupts.thy ===== *)
theory Interrupts
  imports ConsoleCorrect Serial
begin

text \<open>
  The interrupt handlers, \<open>interrupts.c\<close>. A fault handler reports on the console and on the serial
  port and then loops for ever: its result is the state it stays in.
\<close>

text \<open>The part the three fault handlers share.\<close>

definition report_fault ::
    "device \<Rightarrow> string \<Rightarrow> screen \<times> serial \<Rightarrow> (screen \<times> serial) run" where
  "report_fault dev msg = (\<lambda>(scr, tty).
     obind (Some (ERR [lit msg, lit [CHR 0x0A], lit ''Aborting...''] scr)) (\<lambda>scr.
     obind (kputs dev (lit (''Aborted.'' @ [CHR 0x0A])) 0 tty) (\<lambda>(_, tty).
       Some (Inr (scr, tty)))))"

definition PageFault_Handler :: "device \<Rightarrow> screen \<times> serial \<Rightarrow> (screen \<times> serial) run" where
  "PageFault_Handler dev = report_fault dev ''Page fault detected.''"

definition DoubleFault_Handler :: "device \<Rightarrow> screen \<times> serial \<Rightarrow> (screen \<times> serial) run" where
  "DoubleFault_Handler dev = report_fault dev ''Double fault detected.''"

definition GeneralProtectionFault_Handler ::
    "device \<Rightarrow> screen \<times> serial \<Rightarrow> (screen \<times> serial) run" where
  "GeneralProtectionFault_Handler dev = report_fault dev ''General protection fault detected.''"

definition Keyboard_Handler :: "device \<Rightarrow> 'a serial_scheme \<Rightarrow> 'a serial_scheme run" where
  "Keyboard_Handler dev s =
     obind (kputs dev (lit ('' KB'' @ [CHR 0x0A])) 0 s) (\<lambda>(_, s).
       let (scancode, s) = inb dev 0x60 s
       in Some (Inr (PIC_sendEOI 0 s)))"

definition Timer_Handler :: "'a chrono_scheme \<Rightarrow> 'a chrono_scheme" where
  "Timer_Handler s = PIC_sendEOI 0 (s\<lparr>ms_count := ms_count s + 1\<rparr>)"

end
