(* ===== verification/Kernel.thy ===== *)
theory Kernel
  imports Handover PageMapCorrect Descriptors Interrupts
begin

text \<open>
  The kernel's start, \<open>kernel.c\<close> and \<open>kernel.h\<close>: the segments, the identity mapping, the interrupt
  table, and the order in which the parts are brought up. The addresses the linker gives are a record,
  and the descriptor loads of \<open>asm_utils.asm\<close> set fields that stand for the processor's registers.
\<close>

section \<open>Symbols\<close>

text \<open>The linker's symbols.\<close>

record symbols =
  sym_DEFAULT_GDT :: u64
  sym_font :: u64
  sym_kernel_start :: u64
  sym_kernel_end :: u64
  sym_print_str :: u64
  sym_PageFault :: u64
  sym_DoubleFault :: u64
  sym_GeneralProtectionFault :: u64
  sym_Timer :: u64
  sym_Keyboard :: u64

section \<open>State\<close>

record kernel = pmm +
  con :: console
  tty :: serial
  GDTR :: GDTDescriptor
  IDTR :: IDTDescriptor
  cpu_gdt :: GDTDescriptor
  cpu_idt :: IDTDescriptor
  cpu_cr3 :: u64
  cpu_cs :: u16
  cpu_ds :: u16    \<comment> \<open>\<open>ds\<close>, \<open>es\<close>, \<open>fs\<close>, \<open>gs\<close> and \<open>ss\<close>\<close>

definition set_gdt :: "GDTDescriptor \<Rightarrow> kernel \<Rightarrow> kernel" where
  "set_gdt d s = s\<lparr>cpu_gdt := d, cpu_ds := 0x10, cpu_cs := 0x08\<rparr>"

definition set_idt :: "IDTDescriptor \<Rightarrow> kernel \<Rightarrow> kernel" where
  "set_idt d s = s\<lparr>cpu_idt := d\<rparr>"

definition set_pml4 :: "u64 \<Rightarrow> kernel \<Rightarrow> kernel" where
  "set_pml4 a s = s\<lparr>cpu_cr3 := a AND 0x000ffffffffff000\<rparr>"

text \<open>Steps of the console and of the serial port as steps of the kernel.\<close>

definition screen_op :: "(screen \<Rightarrow> screen res) \<Rightarrow> kernel \<Rightarrow> kernel res" where
  "screen_op f s = rbind (f (con s, phys s)) (\<lambda>(c, m). Inr (s\<lparr>phys := m, con := c\<rparr>))"

definition tty_op :: "(serial \<Rightarrow> serial run) \<Rightarrow> kernel \<Rightarrow> kernel run" where
  "tty_op f s = obind (f (tty s)) (\<lambda>t. Some (Inr (s\<lparr>tty := t\<rparr>)))"

section \<open>Segments\<close>

definition init_gdt :: "symbols \<Rightarrow> kernel \<Rightarrow> kernel" where
  "init_gdt sy s =
     (let s = s\<lparr>GDTR := \<lparr>gdt_size = 4096 - 1, gdt_offset = sym_DEFAULT_GDT sy\<rparr>\<rparr>;
          s = s\<lparr>phys := fst (ppa_memset (sym_DEFAULT_GDT sy + 64 * 6) 0 (4096 - 64 * 6) (phys s))\<rparr>
      in set_gdt (GDTR s) s)"

section \<open>Mapping\<close>

text \<open>
  The two loops of \<open>init_pmm\<close>, the limit evaluated in every round. When the next address wraps, all
  addresses the loop goes on with are below the limit as well, and it never ends.
\<close>

function map_loop :: "('a pmm_scheme \<Rightarrow> u64) \<Rightarrow> u64 \<Rightarrow> 'a pmm_scheme \<Rightarrow> 'a pmm_scheme res" where
  "map_loop limit addr s =
     (if addr < limit s
      then let s = pmm_map_memory addr addr s
           in if unat addr + 4096 < 2 ^ 64 then map_loop limit (addr + 4096) s else Inl Diverges
      else Inr s)"
  by pat_completeness auto
termination
proof (relation "measure (\<lambda>(limit, addr, s). 2 ^ 64 - unat addr)", goal_cases)
  case (2 limit addr s s')
  then have "unat (addr + 4096) = unat addr + 4096" by (simp add: unat_plus_nowrap)
  with 2 show ?case by simp
qed simp

declare map_loop.simps [simp del]

definition init_pmm :: "u64 \<Rightarrow> u64 \<Rightarrow> kernel \<Rightarrow> kernel res" where
  "init_pmm base sz s =
     (let (PML4, s) = ppa_request s;
          s = s\<lparr>phys := fst (ppa_memset PML4 0 4096 (phys s))\<rparr>;
          s = snd (pmm_init_pml4 PML4 s)
      in rbind (map_loop ppa_get_mem_total 0 s) (\<lambda>s.
         rbind (map_loop (\<lambda>_. base + sz) base s) (\<lambda>s.
           Inr (set_pml4 PML4 s))))"

section \<open>The interrupt table\<close>

definition idt_gate :: "u64 \<Rightarrow> u64 \<Rightarrow> kernel \<Rightarrow> kernel" where
  "idt_gate n handler s =
     s\<lparr>phys := store_idt_entry (idt_offset (IDTR s) + n * 16)
                 (IDT_CREATE_ENTRY handler 0x08 0 IDT_INTERRUPT_GATE) (phys s)\<rparr>"

definition init_idt :: "device \<Rightarrow> symbols \<Rightarrow> kernel \<Rightarrow> kernel res" where
  "init_idt dev sy s =
     (let (page, s) = ppa_request s;
          s = s\<lparr>IDTR := \<lparr>idt_size = 0x0fff, idt_offset = page\<rparr>\<rparr>;
          s = idt_gate 0xE (sym_PageFault sy) s;
          s = idt_gate 0x8 (sym_DoubleFault sy) s;
          s = idt_gate 0xD (sym_GeneralProtectionFault sy) s;
          s = idt_gate 0x20 (sym_Timer sy) s;
          s = idt_gate 0x21 (sym_Keyboard sy) s;
          s = set_idt (IDTR s) s;
          t = PIC_remap dev 0x20 0x28 (tty s)
      in rbind (init_PIT 1000 t) (\<lambda>t.
           let t = outb PIC1_DATA 0xfc t;
               t = outb PIC2_DATA 0xff t
           in Inr (s\<lparr>tty := enable_interrupts t\<rparr>)))"

section \<open>Start\<close>

text \<open>A line of text: a literal and a line feed.\<close>

definition line :: "string \<Rightarrow> u8 list" where
  "line str = lit (str @ [CHR 0x0A])"

text \<open>
  From \<open>enable_interrupts\<close> on the timer and the keyboard interrupt the kernel between its steps: whoever
  runs it gives the interrupts that arrive before each step.
\<close>

datatype irq = Timer | Keyboard

definition handle_irq :: "device \<Rightarrow> irq \<Rightarrow> 'a serial_scheme \<Rightarrow> 'a serial_scheme run" where
  "handle_irq dev q t = (case q of Timer \<Rightarrow> Some (Inr (Timer_Handler t)) | Keyboard \<Rightarrow> Keyboard_Handler dev t)"

primrec handle_irqs :: "device \<Rightarrow> irq list \<Rightarrow> 'a serial_scheme \<Rightarrow> 'a serial_scheme run" where
  "handle_irqs dev [] t = Some (Inr t)"
| "handle_irqs dev (q # qs) t = obind (handle_irq dev q t) (handle_irqs dev qs)"

text \<open>\<open>irqs\<close>: what arrives after \<open>init_idt\<close>.\<close>

definition init_kernel :: "device \<Rightarrow> irq list \<Rightarrow> symbols \<Rightarrow> BootInfo \<Rightarrow> kernel \<Rightarrow> kernel run" where
  "init_kernel dev irqs sy boot_info s =
     (let s = init_gdt sy s
      in obind (tty_op (serial_printf dev (line ''GDT loaded.'') []) s) (\<lambda>s.
         let b = load_framebuffer (phys s) (fb boot_info);
             s = s\<lparr>con := conlib_init (sym_font sy) (fbbase b) (fb_width b) (fb_height b) (ppsl b * 4)\<rparr>;
             kernel_size = sym_kernel_end sy - sym_kernel_start sy;
             kernel_pages = kernel_size div 4096 + (if kernel_size mod 4096 \<noteq> 0 then 1 else 0);
             base = fbbase b;
             sz = fbsize b + 4096
         in obind (Some (ppa_init (mmap boot_info) (mmap_size boot_info) (mmap_desc_size boot_info) s)) (\<lambda>s.
            let s = ppa_lckn (sym_kernel_start sy) kernel_pages s;
                s = ppa_lckn base (sz div 4096) s
            in obind (Some (init_pmm base sz s)) (\<lambda>s.
               obind (Some (init_idt dev sy s)) (\<lambda>s.
               obind (tty_op (handle_irqs dev irqs) s) (\<lambda>s.
                 tty_op (serial_printf dev (line ''IDT loaded.'') []) s))))))"

text \<open>
  An access by virtual address, through the tables that \<open>PML4\<close> points to, which are those in \<open>cr3\<close> since
  \<open>init_pmm\<close>; all other accesses of the kernel are to addresses mapped to themselves. Where nothing is mapped
  the processor would fault and this function gives an address of page 0: it stands only for accesses to
  mapped pages, as those of \<open>start_kernel\<close> are, the page at \<open>vstr\<close> being mapped just before.
\<close>

definition virt :: "'a pmm_scheme \<Rightarrow> u64 \<Rightarrow> u64" where
  "virt s v = pmm_find_paddr v s OR (v AND 0xfff)"

primrec virt_memcpy :: "nat \<Rightarrow> u64 \<Rightarrow> u64 \<Rightarrow> 'a pmm_scheme \<Rightarrow> 'a pmm_scheme" where
  "virt_memcpy 0 d src s = s"
| "virt_memcpy (Suc len) d src s =
     virt_memcpy len (d + 1) (src + 1) (s\<lparr>phys := (phys s)(virt s d := phys s (virt s src))\<rparr>)"

definition mem_report :: "device \<Rightarrow> kernel \<Rightarrow> kernel run" where
  "mem_report dev s =
     tty_op (serial_printf dev
        (line ''[MEM] %d KB USED   %d KB RESERVED   %d KB FREE   %d KB TOTAL'')
        [VWord (ppa_get_mem_used s div 1024), VWord (ppa_get_mem_rsvd s div 1024),
         VWord (ppa_get_mem_free s div 1024), VWord (ppa_get_mem_total s div 1024)]) s"

text \<open>The colour chart: colours, text, and whether the line ends.\<close>

definition colour_chart :: "(u32 \<times> u32 \<times> string \<times> bool) list" where
  "colour_chart =
     [(BLACK, WHITE, ''  WHITE   '', False), (BLACK, YELLOW, ''  YELLOW  '', False),
      (BLACK, ORANGE, ''  ORANGE  '', False), (WHITE, RED, ''   RED    '', False),
      (WHITE, MAGENTA, '' MAGENTA  '', False), (WHITE, PURPLE, ''  PURPLE  '', False),
      (WHITE, BLUE, ''   BLUE   '', False), (BLACK, CYAN, ''   CYAN   '', True),
      (WHITE, GREEN, ''  GREEN   '', False), (WHITE, DARKGREEN, ''DARKGREEN '', False),
      (WHITE, BROWN, ''   BROWN  '', False), (WHITE, TAN, ''   TAN    '', False),
      (BLACK, LIGHTGREY, ''LIGHTGREY '', False), (WHITE, MEDIUMGREY, ''MEDIUMGREY'', False),
      (WHITE, DARKGREY, '' DARKGREY '', False), (WHITE, BLACK, ''  BLACK  '' @ [CHR 0x0A], True)]"

definition chart_entry :: "u32 \<times> u32 \<times> string \<times> bool \<Rightarrow> screen \<Rightarrow> screen res" where
  "chart_entry = (\<lambda>(fg, bg, str, ln) (c, m).
     let s = (set_color fg bg c, m)
     in rbind (if ln then putln (lit str) s else puts (lit str) 0 s) (\<lambda>(_, s). Inr s))"

text \<open>
  \<open>_start\<close> up to its waiting loop; \<open>irqs k\<close> arrives before its step \<open>k\<close>. The handlers touch the serial port
  only, so what arrives during the mapping and the drawing is counted with the step after it.
\<close>

definition start_kernel ::
    "device \<Rightarrow> (nat \<Rightarrow> irq list) \<Rightarrow> symbols \<Rightarrow> BootInfo \<Rightarrow> kernel \<Rightarrow> kernel run" where
  "start_kernel dev irqs sy boot_info s =
     (let s = s\<lparr>tty := snd (init_serial dev (tty s))\<rparr>
      in obind (tty_op (serial_printf dev (line ''Serial logging enabled.'') []) s) (\<lambda>s.
         obind (init_kernel dev (irqs 0) sy boot_info s) (\<lambda>s.
         obind (tty_op (handle_irqs dev (irqs 1)) s) (\<lambda>s.
         obind (mem_report dev s) (\<lambda>s.
         obind (tty_op (handle_irqs dev (irqs 2)) s) (\<lambda>s.
         obind (tty_op (serial_printf dev (line ''Testing memory mapping...'') []) s) (\<lambda>s.
         let vstr = 0x600000000;
             s = pmm_map_memory vstr 0x80000 s;
             s = virt_memcpy 40 vstr (sym_print_str sy) s;
             str = map (\<lambda>i. phys s (virt s (vstr + of_nat i))) [0..<4096]
         in obind (tty_op (handle_irqs dev (irqs 3)) s) (\<lambda>s.
            obind (tty_op (serial_printf dev (line ''%s'') [VPtr vstr str]) s) (\<lambda>s.
            obind (tty_op (handle_irqs dev (irqs 4)) s) (\<lambda>s.
            obind (tty_op (serial_printf dev (line ''Memory mapping OK.'') []) s) (\<lambda>s.
            obind (tty_op (handle_irqs dev (irqs 5)) s) (\<lambda>s.
            obind (mem_report dev s) (\<lambda>s.
            obind (Some (screen_op (mfold chart_entry colour_chart) s)) (\<lambda>s.
            obind (Some (screen_op (puts_at (-4) 0 (lit ''DONE'')) s)) (\<lambda>s.
              tty_op (handle_irqs dev (irqs 6)) s)))))))))))))))"

section \<open>Running\<close>

text \<open>
  What happens after that: the processor halts and is woken by the timer or the keyboard; after 3000
  milliseconds the prompt is printed, and from then on every wake-up is followed by a look at the serial
  port.
\<close>

datatype phase = Waiting | Echoing

definition echo :: "device \<Rightarrow> 'a serial_scheme \<Rightarrow> 'a serial_scheme run" where
  "echo dev t =
     (let (ready, t) = serial_received dev t
      in if ready \<noteq> 0
         then (case kgetc dev t of None \<Rightarrow> None
               | Some (ch, t) \<Rightarrow> map_option (\<lambda>(_, t). Inr t) (kputc dev ch t))
         else Some (Inr t))"

datatype action = Irq irq | Prompt | Echo

text \<open>One step, with what is done in it.\<close>

inductive kernel_step :: "device \<Rightarrow> action \<Rightarrow> phase \<times> serial \<Rightarrow> phase \<times> serial \<Rightarrow> bool" for dev where
  interrupt: "handle_irq dev q t = Some (Inr t') \<Longrightarrow> kernel_step dev (Irq q) (ph, t) (ph, t')"
| prompt: "\<not> ms_count t < 3000 \<Longrightarrow>
    serial_printf dev (line ''Now try typing something.'') [] t = Some (Inr t') \<Longrightarrow>
    kernel_step dev Prompt (Waiting, t) (Echoing, t')"
| echo: "echo dev t = Some (Inr t') \<Longrightarrow> kernel_step dev Echo (Echoing, t) (Echoing, t')"

inductive_cases kernel_stepE: "kernel_step dev a (ph, t) r"

end
