(* ===== verification/KernelMapping.thy ===== *)
theory KernelMapping
  imports Kernel
begin

text \<open>
  The identity mapping that \<open>init_pmm\<close> builds: the set of pages mapped so far, the tables their paths
  need, and the loops that add page after page.
\<close>

section \<open>Paths as numbers\<close>

definition path_of :: "nat \<Rightarrow> u64 \<Rightarrow> u64" where
  "path_of k v = take_bit (9 * k) (drop_bit (48 - 9 * k) v)"

lemma same_path_of:
  assumes "k \<le> 4"
  shows "same_path k v w \<longleftrightarrow> path_of k v = path_of k w"
proof -
  have eq: "level_index j v = level_index j w \<longleftrightarrow>
      (\<forall>n. 39 - 9 * j \<le> n \<and> n < 48 - 9 * j \<longrightarrow> bit v n = bit w n)" if "j < 4" for j
  proof -
    have "level_index j u = take_bit 9 (drop_bit (39 - 9 * j) u)" for u
      unfolding level_index_def vindex_def pte_mask_simps by (simp only: take_bit_eq_mask)
    moreover have "39 - 9 * j + 9 = 48 - 9 * j" using that by arith
    ultimately show ?thesis by (simp only: field_eq_iff)
  qed
  have "48 - 9 * k + 9 * k = 48" using assms by simp
  then have p: "path_of k v = path_of k w \<longleftrightarrow> (\<forall>n. 48 - 9 * k \<le> n \<and> n < 48 \<longrightarrow> bit v n = bit w n)"
    by (simp only: path_of_def field_eq_iff)
  show ?thesis
  proof
    assume l: "same_path k v w"
    have "bit v n = bit w n" if n: "48 - 9 * k \<le> n" "n < 48" for n
    proof -
      define j where "j = (47 - n) div 9"
      have low: "9 * j \<le> 47 - n" and up: "47 - n < 9 * j + 9" by (simp_all add: j_def)
      have jk: "j < k" using low n assms by arith
      with assms have "j < 4" by simp
      moreover have "level_index j v = level_index j w" using l jk by (simp add: same_path_def)
      ultimately have "\<forall>n. 39 - 9 * j \<le> n \<and> n < 48 - 9 * j \<longrightarrow> bit v n = bit w n" using eq [of j] by simp
      moreover have "39 - 9 * j \<le> n" "n < 48 - 9 * j" using low up n by arith+
      ultimately show ?thesis by blast
    qed
    then show "path_of k v = path_of k w" unfolding p by blast
  next
    assume "path_of k v = path_of k w"
    then have bits: "\<And>n. 48 - 9 * k \<le> n \<Longrightarrow> n < 48 \<Longrightarrow> bit v n = bit w n" unfolding p by blast
    have "level_index j v = level_index j w" if "j < k" for j
    proof -
      have j4: "j < 4" using that assms by simp
      have "bit v n = bit w n" if "39 - 9 * j \<le> n" "n < 48 - 9 * j" for n
        by (rule bits) (use that \<open>j < k\<close> in arith)+
      then show ?thesis using eq [OF j4] by simp
    qed
    then show "same_path k v w" by (simp add: same_path_def)
  qed
qed

text \<open>Below \<open>2 ^ 48\<close> a path is a quotient of the address.\<close>

lemma path_of_small:
  assumes "unat v < 2 ^ 48" and "k \<le> 4"
  shows "unat (path_of k v) = unat v div 2 ^ (48 - 9 * k)"
proof -
  have "unat v div 2 ^ (48 - 9 * k) < 2 ^ (9 * k)"
  proof -
    have "(2 :: nat) ^ 48 = 2 ^ (48 - 9 * k) * 2 ^ (9 * k)"
      using assms(2) by (simp flip: power_add)
    then show ?thesis using assms(1) by (simp add: less_mult_imp_div_less mult.commute)
  qed
  moreover have "unat (path_of k v) = take_bit (9 * k) (drop_bit (48 - 9 * k) (unat v))"
    by (simp add: path_of_def unsigned_take_bit_eq unat_drop_bit_eq)
  ultimately show ?thesis by (simp add: drop_bit_eq_div take_bit_nat_eq_self)
qed

section \<open>Pages mapped to themselves\<close>

text \<open>The tables below the root for a set of pages.\<close>

definition tables_needed :: "u64 set \<Rightarrow> nat" where
  "tables_needed V = (\<Sum>k\<in>{1, 2, 3}. card (path_of k ` V))"

text \<open>The part of an address the tables look at, without the offset in the page.\<close>

definition page48 :: "u64 \<Rightarrow> u64" where
  "page48 w = push_bit 12 (take_bit 36 (drop_bit 12 w))"

definition low_page :: "u64 \<Rightarrow> bool" where
  "low_page v \<longleftrightarrow> page_aligned v \<and> unat v < 2 ^ 48"

lemma low_page_path:
  assumes "low_page v"
  shows "same_path 4 v w \<longleftrightarrow> page48 w = v"
proof -
  have v: "page48 v = v"
  proof (rule bit_word_eqI)
    fix n
    have "\<not> bit v n" if "48 \<le> n" using assms bit_small [of v 48 n] that by (simp add: low_page_def)
    moreover have "\<not> bit v n" if "n < 12" using assms that by (simp add: low_page_def page_aligned_bits)
    ultimately show "bit (page48 v) n = bit v n"
      by (cases "n < 12"; cases "n < 48")
        (auto simp: page48_def bit_push_bit_iff bit_take_bit_iff bit_drop_bit_eq)
  qed
  have inj: "push_bit 12 (take_bit 36 a) = push_bit 12 (take_bit 36 b) \<longleftrightarrow> take_bit 36 a = take_bit 36 b"
    for a b :: u64
  proof
    assume eq: "push_bit 12 (take_bit 36 a) = push_bit 12 (take_bit 36 b)"
    have "bit (take_bit 36 a) n = bit (take_bit 36 b) n" for n
      using arg_cong [OF eq, of "\<lambda>x. bit x (n + 12)"] by (auto simp: bit_push_bit_iff bit_take_bit_iff)
    then show "take_bit 36 a = take_bit 36 b" by (intro bit_word_eqI) blast
  qed simp
  have "same_path 4 v w \<longleftrightarrow> page48 v = page48 w"
    unfolding same_path_page page48_def inj ..
  then show ?thesis unfolding v by auto
qed

lemma frame_field_low: "low_page v \<Longrightarrow> frame_field v = v"
proof (rule bit_word_eqI)
  fix n
  assume l: "low_page v"
  have "\<not> bit v n" if "52 \<le> n" using l bit_small [of v 48 n] that by (simp add: low_page_def)
  moreover have "\<not> bit v n" if "n < 12" using l that by (simp add: low_page_def page_aligned_bits)
  ultimately show "bit (frame_field v) n = bit v n"
    by (cases "n < 12"; cases "n < 52")
      (auto simp: frame_field_def bit_push_bit_iff bit_take_bit_iff bit_drop_bit_eq)
qed

definition identity_map :: "'a pmm_scheme \<Rightarrow> u64 set \<Rightarrow> bool" where
  "identity_map s V \<longleftrightarrow> pmm_ready s \<and> finite V \<and> (\<forall>v\<in>V. low_page v) \<and>
     (\<forall>k w. 1 \<le> k \<and> k \<le> 3 \<longrightarrow> (pt_walk (table_entry (phys s)) (PML4 s) k w \<noteq> None \<longleftrightarrow>
        path_of k w \<in> path_of k ` V)) \<and>
     (\<forall>w. pt_walk (table_entry (phys s)) (PML4 s) 4 w = (if page48 w \<in> V then Some (page48 w) else None))"

lemma identity_mapD:
  assumes "identity_map s V"
  shows "pmm_ready s" and "finite V" and "v \<in> V \<Longrightarrow> low_page v"
    and "1 \<le> k \<Longrightarrow> k \<le> 3 \<Longrightarrow> pt_walk (table_entry (phys s)) (PML4 s) k w = None \<longleftrightarrow> path_of k w \<notin> path_of k ` V"
    and "pt_walk (table_entry (phys s)) (PML4 s) 4 w = (if page48 w \<in> V then Some (page48 w) else None)"
  using assms unfolding identity_map_def by blast+

lemma card_path_insert:
  "finite V \<Longrightarrow> card (path_of k ` insert v V) = card (path_of k ` V) + (if path_of k v \<notin> path_of k ` V then 1 else 0)"
  by (simp add: card_insert_if)

lemma tables_missing_needed:
  assumes "identity_map s V"
  shows "tables_missing s (PML4 s) v + tables_needed V = tables_needed (insert v V)"
proof -
  note id = identity_mapD [OF assms]
  have sum3: "(\<Sum>k\<in>{1, 2, 3 :: nat}. f k) = f 1 + f 2 + f 3" for f :: "nat \<Rightarrow> nat" by simp
  have missing: "tables_missing s (PML4 s) v =
      (if path_of 1 v \<notin> path_of 1 ` V then 1 else 0) + (if path_of 2 v \<notin> path_of 2 ` V then 1 else 0) +
      (if path_of 3 v \<notin> path_of 3 ` V then 1 else 0)"
  proof -
    have "pt_walk (table_entry (phys s)) (PML4 s) 1 v = None \<longleftrightarrow> path_of 1 v \<notin> path_of 1 ` V"
      "pt_walk (table_entry (phys s)) (PML4 s) 2 v = None \<longleftrightarrow> path_of 2 v \<notin> path_of 2 ` V"
      "pt_walk (table_entry (phys s)) (PML4 s) 3 v = None \<longleftrightarrow> path_of 3 v \<notin> path_of 3 ` V"
      by (rule id(4); simp)+
    then show ?thesis unfolding tables_missing_def filter.simps by simp
  qed
  have needed: "tables_needed W = card (path_of 1 ` W) + card (path_of 2 ` W) + card (path_of 3 ` W)" for W
    unfolding tables_needed_def by (rule sum3)
  show ?thesis
    unfolding needed
    using missing card_path_insert [OF id(2), of 1 v] card_path_insert [OF id(2), of 2 v]
      card_path_insert [OF id(2), of 3 v] by linarith
qed

lemma identity_map_add:
  assumes id: "identity_map s V" and low: "low_page v"
    and enough: "tables_needed (insert v V) \<le> card (frames_ahead s) + tables_needed V"
  shows "identity_map (pmm_map_memory v v s) (insert v V)"
    and "PML4 (pmm_map_memory v v s) = PML4 s"
    and "card (frames_ahead s) + tables_needed V \<le>
      card (frames_ahead (pmm_map_memory v v s)) + tables_needed (insert v V)"
    and "client_page s q \<Longrightarrow> client_page (pmm_map_memory v v s) q"
    and "keeps_data (PML4 s) s (pmm_map_memory v v s)"
proof -
  have ready: "pmm_ready s" by (rule identity_mapD(1) [OF id])
  have "tables_missing s (PML4 s) v \<le> card (frames_ahead s)"
    using tables_missing_needed [OF id, of v] enough by simp
  note run = pmm_map_memory_run [OF ready this refl, where p = v]
  show "PML4 (pmm_map_memory v v s) = PML4 s" by (rule run(2))
  show "client_page s q \<Longrightarrow> client_page (pmm_map_memory v v s) q" by (rule run(4))
  show "keeps_data (PML4 s) s (pmm_map_memory v v s)" by (rule run(7))
  show "card (frames_ahead s) + tables_needed V \<le>
      card (frames_ahead (pmm_map_memory v v s)) + tables_needed (insert v V)"
    using run(5) tables_missing_needed [OF id, of v] by linarith
  show "identity_map (pmm_map_memory v v s) (insert v V)"
    unfolding identity_map_def run(2)
  proof (intro conjI allI ballI impI)
    show "pmm_ready (pmm_map_memory v v s)" by (rule run(1))
    show "finite (insert v V)" using identity_mapD(2) [OF id] by simp
    show "low_page u" if "u \<in> insert v V" for u using that low identity_mapD(3) [OF id, of u] by blast
  next
    fix k :: nat and w
    assume k: "1 \<le> k \<and> k \<le> 3"
    then have same: "same_path k v w \<longleftrightarrow> path_of k w = path_of k v"
      using same_path_of [of k v w] by auto
    show "pt_walk (table_entry (phys (pmm_map_memory v v s))) (PML4 s) k w \<noteq> None \<longleftrightarrow>
        path_of k w \<in> path_of k ` insert v V"
      unfolding image_insert insert_iff same [symmetric]
      using run(6) [OF conjunct1 [OF k] conjunct2 [OF k], of w]
        identity_mapD(4) [OF id conjunct1 [OF k] conjunct2 [OF k], of w] by argo
  next
    fix w
    show "pt_walk (table_entry (phys (pmm_map_memory v v s))) (PML4 s) 4 w =
        (if page48 w \<in> insert v V then Some (page48 w) else None)"
    proof (cases "page48 w = v")
      case True
      then show ?thesis
        using run(3) [of w] by (simp only: low_page_path [OF low] frame_field_low [OF low] insertI1 if_True simp_thms)
    next
      case False
      have "pt_walk (table_entry (phys (pmm_map_memory v v s))) (PML4 s) 4 w =
          pt_walk (table_entry (phys s)) (PML4 s) 4 w"
        using run(3) [of w] False by (simp only: low_page_path [OF low] if_False)
      also have "\<dots> = (if page48 w \<in> V then Some (page48 w) else None)" by (rule identity_mapD(5) [OF id])
      finally show ?thesis using False by (simp only: insert_iff simp_thms)
    qed
  qed
qed

section \<open>The loops\<close>

definition pages_from :: "u64 \<Rightarrow> u64 \<Rightarrow> u64 set" where
  "pages_from a l = {v. a \<le> v \<and> v < l \<and> page_aligned v}"

lemma page_aligned_mod: "page_aligned p \<longleftrightarrow> unat p mod 4096 = 0"
proof -
  have "unat (take_bit 12 p) = take_bit 12 (unat p)" by (simp add: unsigned_take_bit_eq)
  also have "\<dots> = unat p mod 4096" unfolding take_bit_eq_mod by simp
  finally have "unat (take_bit 12 p) = unat p mod 4096" .
  then show ?thesis by (simp add: page_aligned_def flip: unat_eq_0)
qed

lemma pages_from_empty: "\<not> a < l \<Longrightarrow> pages_from a l = {}"
  by (auto simp: pages_from_def)

lemma pages_from_step:
  assumes "page_aligned a" and "a < l" and "unat a + 4096 < 2 ^ 64"
  shows "pages_from a l = insert a (pages_from (a + 4096) l)"
proof -
  have next_page: "unat (a + 4096) = unat a + 4096" using assms(3) by (simp add: unat_plus_nowrap)
  have "v = a \<or> a + 4096 \<le> v" if "a \<le> v" "page_aligned v" for v
  proof -
    have "unat v mod 4096 = 0" and "unat a mod 4096 = 0" and le: "unat a \<le> unat v"
      using that assms(1) unfolding page_aligned_mod word_le_nat_alt by blast+
    then obtain k l where "unat v = 4096 * k" "unat a = 4096 * l" 
      by (auto simp: mod_eq_0_iff_dvd elim!: dvdE)
    then have "unat v = unat a \<or> unat a + 4096 \<le> unat v" using le by auto
    then show ?thesis by (simp add: word_unat_eq_iff word_le_nat_alt next_page)
  qed
  moreover have "a \<le> v" if "a + 4096 \<le> v" for v using that next_page by (simp add: word_le_nat_alt)
  ultimately show ?thesis using assms(1,2) by (auto simp: pages_from_def)
qed

lemma finite_u64 [simp]: "finite (V :: u64 set)"
  by (rule finite)

lemma tables_needed_mono: "V \<subseteq> W \<Longrightarrow> tables_needed V \<le> tables_needed W"
  unfolding tables_needed_def by (intro sum_mono card_mono finite_u64 image_mono)

lemma map_loop_identity:
  assumes keep: "\<And>v s. limit (pmm_map_memory v v s) = limit s"
    and "identity_map s V" and "page_aligned a" and "unat (limit s) \<le> 2 ^ 48"
    and "tables_needed (V \<union> pages_from a (limit s)) \<le> card (frames_ahead s) + tables_needed V"
  shows "\<exists>s'. map_loop limit a s = Inr s' \<and> identity_map s' (V \<union> pages_from a (limit s)) \<and>
    PML4 s' = PML4 s \<and> limit s' = limit s \<and>
    card (frames_ahead s) + tables_needed V \<le>
      card (frames_ahead s') + tables_needed (V \<union> pages_from a (limit s)) \<and>
    (\<forall>q. client_page s q \<longrightarrow> client_page s' q) \<and> keeps_data (PML4 s) s s'"
  using assms(2-5)
proof (induction "2 ^ 64 - unat a" arbitrary: a s V rule: less_induct)
  case less
  show ?case
  proof (cases "a < limit s")
    case False
    with less.prems(1) show ?thesis by (subst map_loop.simps) (simp add: pages_from_empty)
  next
    case True
    let ?s = "pmm_map_memory a a s" and ?V = "insert a V"
    have below: "unat a < 2 ^ 48" using True less.prems(3) by (simp add: word_less_nat_alt)
    then have fits: "unat a + 4096 < 2 ^ 64" by simp
    have pages: "V \<union> pages_from a (limit s) = ?V \<union> pages_from (a + 4096) (limit ?s)"
      unfolding pages_from_step [OF less.prems(2) True fits] keep by simp
    have low: "low_page a" using less.prems(2) below by (simp add: low_page_def)
    have "tables_needed ?V \<le> tables_needed (V \<union> pages_from a (limit s))"
      unfolding pages by (rule tables_needed_mono) blast
    with less.prems(4) have "tables_needed ?V \<le> card (frames_ahead s) + tables_needed V" by linarith
    note add = identity_map_add [OF less.prems(1) low this]
    have next_page: "unat (a + 4096) = unat a + 4096" using fits by (simp add: unat_plus_nowrap)
    have "\<exists>s'. map_loop limit (a + 4096) ?s = Inr s' \<and> identity_map s' (?V \<union> pages_from (a + 4096) (limit ?s)) \<and>
      PML4 s' = PML4 ?s \<and> limit s' = limit ?s \<and>
      card (frames_ahead ?s) + tables_needed ?V \<le>
        card (frames_ahead s') + tables_needed (?V \<union> pages_from (a + 4096) (limit ?s)) \<and>
      (\<forall>q. client_page ?s q \<longrightarrow> client_page s' q) \<and> keeps_data (PML4 ?s) ?s s'"
    proof (rule less.hyps)
      show "2 ^ 64 - unat (a + 4096) < 2 ^ 64 - unat a" using next_page fits by simp
      show "page_aligned (a + 4096)"
        using less.prems(2) by (simp add: page_aligned_mod next_page)
      show "unat (limit ?s) \<le> 2 ^ 48" using less.prems(3) by (simp add: keep)
      show "tables_needed (?V \<union> pages_from (a + 4096) (limit ?s)) \<le> card (frames_ahead ?s) + tables_needed ?V"
        using less.prems(4) add(3) unfolding pages by linarith
    qed (rule add(1))
    then obtain s' where s': "map_loop limit (a + 4096) ?s = Inr s'"
        "identity_map s' (?V \<union> pages_from (a + 4096) (limit ?s))" "PML4 s' = PML4 ?s" "limit s' = limit ?s"
        "card (frames_ahead ?s) + tables_needed ?V \<le>
          card (frames_ahead s') + tables_needed (?V \<union> pages_from (a + 4096) (limit ?s))"
        "\<And>q. client_page ?s q \<Longrightarrow> client_page s' q" "keeps_data (PML4 ?s) ?s s'" by blast
    have "keeps_data (PML4 s) s s'"
      using keeps_data_trans [OF add(5)] s'(7) by (simp only: add(2))
    moreover have "map_loop limit a s = Inr s'"
      using True fits s'(1) by (subst map_loop.simps) (simp add: Let_def)
    moreover have "PML4 s' = PML4 s" using s'(3) add(2) by simp
    moreover have "limit s' = limit s" using s'(4) keep by simp
    moreover have "card (frames_ahead s) + tables_needed V \<le>
        card (frames_ahead s') + tables_needed (V \<union> pages_from a (limit s))"
      using s'(5) add(3) unfolding pages by linarith
    moreover have "client_page s' q" if "client_page s q" for q by (rule s'(6) [OF add(4) [OF that]])
    moreover have "identity_map s' (V \<union> pages_from a (limit s))" unfolding pages by (rule s'(2))
    ultimately show ?thesis by blast
  qed
qed

section \<open>How many tables\<close>

text \<open>A table of the last level maps 2 MiB, of the others 1 GiB and 512 GiB.\<close>

definition tables_for :: "nat \<Rightarrow> nat" where
  "tables_for n = (n div 2 ^ 21 + 2) + (n div 2 ^ 30 + 2) + (n div 2 ^ 39 + 2)"

lemma card_paths:
  assumes "unat l \<le> 2 ^ 48" and "k \<le> 4"
  shows "card (path_of k ` pages_from a l) \<le> (unat l - unat a) div 2 ^ (48 - 9 * k) + 2"
proof -
  let ?D = "2 ^ (48 - 9 * k) :: nat"
  have "unat ` path_of k ` pages_from a l \<subseteq> {unat a div ?D .. unat a div ?D + (unat l - unat a) div ?D + 1}"
  proof (clarify)
    fix v
    assume "v \<in> pages_from a l"
    then have v: "unat a \<le> unat v" "unat v < unat l"
      by (simp_all add: pages_from_def word_le_nat_alt word_less_nat_alt)
    then have "unat (path_of k v) = unat v div ?D" using assms by (intro path_of_small) simp_all
    moreover have "unat v div ?D \<le> (unat a + (unat l - unat a)) div ?D" by (rule div_le_mono) (use v in simp)
    moreover have "(unat a + (unat l - unat a)) div ?D \<le> unat a div ?D + (unat l - unat a) div ?D + 1"
    proof -
      have "unat a mod ?D < ?D" "(unat l - unat a) mod ?D < ?D" by simp_all
      then have "unat a mod ?D + (unat l - unat a) mod ?D < 2 * ?D" by linarith
      then have "(unat a mod ?D + (unat l - unat a) mod ?D) div ?D < 2" by (rule less_mult_imp_div_less)
      then show ?thesis using div_add1_eq [of "unat a" "unat l - unat a" ?D] by linarith
    qed
    ultimately show "unat (path_of k v) \<in> {unat a div ?D .. unat a div ?D + (unat l - unat a) div ?D + 1}"
      using v(1) by (auto intro: div_le_mono)
  qed
  from card_mono [OF _ this] have "card (unat ` path_of k ` pages_from a l) \<le> (unat l - unat a) div ?D + 2"
    by simp
  moreover have "card (unat ` path_of k ` pages_from a l) = card (path_of k ` pages_from a l)"
    by (rule card_image) (simp add: inj_on_def word_unat_eq_iff)
  ultimately show ?thesis by simp
qed

lemma tables_needed_pages:
  assumes "unat l \<le> 2 ^ 48"
  shows "tables_needed (pages_from a l) \<le> tables_for (unat l - unat a)"
  using card_paths [OF assms, of 1 a] card_paths [OF assms, of 2 a] card_paths [OF assms, of 3 a]
  by (simp add: tables_needed_def tables_for_def)

lemma tables_needed_union: "tables_needed (V \<union> W) \<le> tables_needed V + tables_needed W"
  unfolding tables_needed_def image_Un by (simp only: sum.distrib [symmetric] card_Un_le sum_mono)

section \<open>The initial mapping\<close>

lemma empty_identity_map:
  assumes "allocator_ready s" and "client_page s (PML4 s)"
    and "\<And>x. page_of x = PML4 s \<Longrightarrow> phys s x = 0"
  shows "identity_map s {}"
proof -
  note none = empty_root(1,2) [OF assms]
  have "pt_walk (table_entry (phys s)) (PML4 s) k w = None" if "1 \<le> k" for k w
    using none(2) [of "k - 1" w] that by simp
  then show ?thesis using none(1) unfolding identity_map_def by simp
qed

lemma root_register:
  assumes "bitmap_wf s" and "client_page s p"
  shows "p AND 0x000ffffffffff000 = p"
proof -
  have e: "push_bit 12 (take_bit 40 (drop_bit 12 p)) = p" by (rule client_page_address [OF assms])
  have "bit (p AND push_bit 12 (mask 40)) n = bit p n" for n
    using arg_cong [OF e, of "\<lambda>x. bit x n"]
    by (auto simp: bit_and_iff bit_push_bit_iff bit_mask_iff bit_take_bit_iff)
  then show ?thesis unfolding pte_mask_simps by (intro bit_word_eqI) blast
qed

lemma mem_total_map: "mem_total (pmm_map_memory v p s) = mem_total s"
proof -
  have req: "mem_total (snd (ppa_request s)) = mem_total s" for s :: "'b ppa_scheme"
    by (simp add: ppa_request_def frame_simps split: option.split)
  have next_t: "mem_total (snd (next_table t i s)) = mem_total s" for t i and s :: "'b ppa_scheme"
    using req [of s] by (auto simp: next_table_def Let_def split: prod.split)
  obtain a s1 where 1: "next_table (PML4 s) (vindex 39 v) s = (a, s1)" by fastforce
  obtain b s2 where 2: "next_table a (vindex 30 v) s1 = (b, s2)" by fastforce
  obtain c s3 where 3: "next_table b (vindex 21 v) s2 = (c, s3)" by fastforce
  have "mem_total s3 = mem_total s"
    using next_t [of "PML4 s" "vindex 39 v" s] next_t [of a "vindex 30 v" s1] next_t [of b "vindex 21 v" s2]
    by (simp add: 1 2 3)
  then show ?thesis by (simp add: pmm_map_memory_def 1 2 3 Let_def)
qed

text \<open>The allocator's predicates look at its own fields only.\<close>

lemma allocator_same:
  assumes "phys s' = phys s" and "ppa_bitmap s' = ppa_bitmap s" and "last_hit s' = last_hit s"
  shows "allocator_ready s' = allocator_ready s" and "frames_ahead s' = frames_ahead s"
    and "client_page s' = client_page s"
proof -
  have limit: "frames_limit s' = frames_limit s" by (simp add: frames_limit_def assms(2))
  have bit: "frame_bit s' = frame_bit s" by (simp add: fun_eq_iff frame_bit_def assms(1,2))
  have used: "frame_used s' = frame_used s" by (simp add: fun_eq_iff frame_used_def limit bit)
  have "bitmap_wf s' = bitmap_wf s" "tail_clear s' = tail_clear s"
    by (simp_all add: bitmap_wf_def tail_clear_def limit bit assms(2))
  then show "allocator_ready s' = allocator_ready s"
    by (simp add: allocator_ready_def used assms(2,3))
  show "frames_ahead s' = frames_ahead s" by (simp add: frames_ahead_def limit used assms(3))
  show "client_page s' = client_page s" by (simp add: fun_eq_iff client_page_def used assms(2))
qed

text \<open>The root of the tables: a fresh page, cleared.\<close>

lemma fresh_root:
  assumes "allocator_ready s" and "0 < card (frames_ahead s)" and "ppa_request s = (root, s1)"
    and "s2 = s1\<lparr>phys := fst (ppa_memset root 0 4096 (phys s1)), PML4 := root\<rparr>"
  shows "identity_map s2 {}" and "mem_total s2 = mem_total s" and "client_page s2 root"
    and "card (frames_ahead s) \<le> card (frames_ahead s2) + 1"
    and "client_page s q \<Longrightarrow> client_page s2 q"
    and "client_page s q \<Longrightarrow> data_page s2 (PML4 s2) q \<and> (\<forall>x. page_of x = q \<longrightarrow> phys s2 x = phys s x)"
proof -
  define m where "m = fst (ppa_memset root 0 4096 (phys s1))"
  note cleared = ppa.cleared_page [OF assms(1-3) m_def]
  have ready: "allocator_ready s1" and own: "\<And>p. client_page s1 p \<longleftrightarrow> p = root \<or> client_page s p"
    and av: "card (frames_ahead s) \<le> card (frames_ahead s1) + 1"
    using ppa.request_ready [OF assms(1,2)] ppa.request_owned [OF assms(1,2)]
      ppa.request_available [OF assms(1,2)] by (simp_all add: assms(3))
  have "m x = phys s1 x" if "x \<in> bitmap_bytes (ppa_bitmap s1)" for x
  proof -
    have "page_of x \<noteq> root" using that own client_page_bitmap [of s1 root x] by blast
    then have "\<not> unat (x - root) < 4096" by (simp add: page_of_iff cleared(1))
    then show ?thesis by (simp add: m_def ppa_memset_apply)
  qed
  note alloc = allocator_phys [OF ready this]
  have s2: "s2 = s1\<lparr>phys := m\<rparr>\<lparr>PML4 := root\<rparr>" by (simp add: assms(4) m_def)
  have f: "phys s2 = phys (s1\<lparr>phys := m\<rparr>)" "ppa_bitmap s2 = ppa_bitmap (s1\<lparr>phys := m\<rparr>)"
    "last_hit s2 = last_hit (s1\<lparr>phys := m\<rparr>)" "PML4 s2 = root" "phys s2 = m"
    by (simp_all add: s2)
  note same = allocator_same [OF f(1-3)]
  show root: "client_page s2 root" by (simp add: same(3) alloc(4) own)
  show "client_page s q \<Longrightarrow> client_page s2 q" by (simp add: same(3) alloc(4) own)
  show "card (frames_ahead s) \<le> card (frames_ahead s2) + 1" using av by (simp add: same(2) alloc(3))
  have "mem_total s1 = mem_total s"
    using assms(3) by (auto simp: ppa_request_def frame_simps split: option.splits)
  then show "mem_total s2 = mem_total s" by (simp add: s2)
  show map: "identity_map s2 {}"
  proof (rule empty_identity_map)
    show "allocator_ready s2" by (simp add: same(1) alloc(2))
    show "client_page s2 (PML4 s2)" using root by (simp add: f(4))
    show "phys s2 x = 0" if "page_of x = PML4 s2" for x
      using that cleared(1,3) by (simp add: f(4,5) page_of_iff)
  qed
  show "data_page s2 (PML4 s2) q \<and> (\<forall>x. page_of x = q \<longrightarrow> phys s2 x = phys s x)" if q: "client_page s q"
  proof -
    have "pt_walk (table_entry (phys s2)) root j w \<noteq> Some q" if "j \<le> 3" for j w
      using identity_mapD(4) [OF map, of j w] that q cleared(2) by (cases j) (auto simp: f(4))
    moreover have "client_page s2 q" by (simp add: same(3) alloc(4) own q)
    ultimately show ?thesis using q cleared(4) by (auto simp: data_page_def f(4,5))
  qed
qed

lemma init_pmm_run:
  assumes "allocator_ready s" and "unat (mem_total s) \<le> 2 ^ 48" and "page_aligned base"
    and "unat base + unat sz \<le> 2 ^ 48"
    and "1 + tables_for (unat (mem_total s)) + tables_for (unat sz) \<le> card (frames_ahead s)"
  shows "\<exists>s' V. init_pmm base sz s = Inr s' \<and> identity_map s' V \<and>
    V = pages_from 0 (mem_total s) \<union> pages_from base (base + sz) \<and> cpu_cr3 s' = PML4 s' \<and>
    client_page s' (PML4 s') \<and>
    (\<forall>q. client_page s q \<longrightarrow> data_page s' (PML4 s') q \<and> (\<forall>x. page_of x = q \<longrightarrow> phys s' x = phys s x)) \<and>
    tables_needed V + 1 + card (frames_ahead s') \<ge> card (frames_ahead s)"
proof -
  obtain root s1 where req: "ppa_request s = (root, s1)" by fastforce
  define s2 where "s2 = s1\<lparr>phys := fst (ppa_memset root 0 4096 (phys s1)), PML4 := root\<rparr>"
  have pos: "0 < card (frames_ahead s)" using assms(5) by linarith
  note fresh = fresh_root [OF assms(1) pos req s2_def]
  let ?A = "pages_from 0 (mem_total s)" and ?B = "pages_from base (base + sz)"
  have sum: "unat (base + sz) = unat base + unat sz"
    using assms(4) by (intro unat_plus_nowrap) simp
  have A: "tables_needed ?A \<le> tables_for (unat (mem_total s))"
    using tables_needed_pages [OF assms(2), of 0] by simp
  have B: "tables_needed ?B \<le> tables_for (unat sz)"
    using tables_needed_pages [of "base + sz" base] assms(4) sum by simp
  have zero: "tables_needed {} = 0" by (simp add: tables_needed_def)
  have aligned: "page_aligned 0" by (simp add: page_aligned_def)
  have "\<exists>s3. map_loop ppa_get_mem_total 0 s2 = Inr s3 \<and> identity_map s3 ({} \<union> pages_from 0 (ppa_get_mem_total s2)) \<and>
    PML4 s3 = PML4 s2 \<and> ppa_get_mem_total s3 = ppa_get_mem_total s2 \<and>
    card (frames_ahead s2) + tables_needed {} \<le>
      card (frames_ahead s3) + tables_needed ({} \<union> pages_from 0 (ppa_get_mem_total s2)) \<and>
    (\<forall>q. client_page s2 q \<longrightarrow> client_page s3 q) \<and> keeps_data (PML4 s2) s2 s3"
    by (rule map_loop_identity)
      (use fresh(1,2,4) assms(2,5) A aligned in \<open>simp_all add: ppa_get_mem_total_def mem_total_map zero\<close>)
  then obtain s3 where s3: "map_loop ppa_get_mem_total 0 s2 = Inr s3" "identity_map s3 ?A"
      "PML4 s3 = PML4 s2" "card (frames_ahead s2) \<le> card (frames_ahead s3) + tables_needed ?A"
      "\<And>q. client_page s2 q \<Longrightarrow> client_page s3 q" "keeps_data (PML4 s2) s2 s3"
    by (auto simp: ppa_get_mem_total_def fresh(2) zero)
  have "tables_needed (?A \<union> ?B) \<le> card (frames_ahead s3) + tables_needed ?A"
    using tables_needed_union [of ?A ?B] A B assms(5) fresh(4) s3(4) by linarith
  then have "\<exists>s4. map_loop (\<lambda>_. base + sz) base s3 = Inr s4 \<and> identity_map s4 (?A \<union> ?B) \<and>
    PML4 s4 = PML4 s3 \<and> base + sz = base + sz \<and>
    card (frames_ahead s3) + tables_needed ?A \<le> card (frames_ahead s4) + tables_needed (?A \<union> ?B) \<and>
    (\<forall>q. client_page s3 q \<longrightarrow> client_page s4 q) \<and> keeps_data (PML4 s3) s3 s4"
    by (intro map_loop_identity [where limit = "\<lambda>_. base + sz"])
      (use s3(2) assms(3,4) sum in simp_all)
  then obtain s4 where s4: "map_loop (\<lambda>_. base + sz) base s3 = Inr s4" "identity_map s4 (?A \<union> ?B)"
      "PML4 s4 = PML4 s3" "\<And>q. client_page s3 q \<Longrightarrow> client_page s4 q" "keeps_data (PML4 s3) s3 s4"
      "card (frames_ahead s3) + tables_needed ?A \<le> card (frames_ahead s4) + tables_needed (?A \<union> ?B)" by blast
  have root4: "PML4 s4 = root" using s3(3) s4(3) by (simp add: s2_def)
  have own4: "client_page s4 root" by (rule s4(4) [OF s3(5) [OF fresh(3)]])
  have wf: "bitmap_wf s4"
    using identity_mapD(1) [OF s4(2)] by (simp add: pmm_ready_def allocator_ready_def)
  have cr3: "root AND 0x000ffffffffff000 = root" by (rule root_register [OF wf own4])
  define s5 where "s5 = set_pml4 root s4"
  have run: "init_pmm base sz s = Inr s5"
    using s3(1) s4(1) by (simp add: init_pmm_def req pmm_init_pml4_def s2_def s5_def Let_def)
  have f: "phys s5 = phys s4" "ppa_bitmap s5 = ppa_bitmap s4" "last_hit s5 = last_hit s4"
    "PML4 s5 = PML4 s4" "cpu_cr3 s5 = root" using cr3 by (simp_all add: s5_def set_pml4_def)
  note same = allocator_same [OF f(1-3)]
  have "pmm_ready s5 = pmm_ready s4"
    by (simp add: pmm_ready_def pmm_tables_def same f)
  then have "identity_map s5 (?A \<union> ?B)" using s4(2) unfolding identity_map_def f by simp
  moreover have "data_page s5 (PML4 s5) q \<and> (\<forall>x. page_of x = q \<longrightarrow> phys s5 x = phys s x)"
    if "client_page s q" for q
  proof -
    have q2: "data_page s2 (PML4 s2) q" "\<forall>x. page_of x = q \<longrightarrow> phys s2 x = phys s x"
      using fresh(6) [OF that] by blast+
    have "keeps_data (PML4 s2) s2 s4"
      using keeps_data_trans [OF s3(6)] s4(5) by (simp only: s3(3))
    with q2 have "data_page s4 (PML4 s2) q" "\<forall>x. page_of x = q \<longrightarrow> phys s4 x = phys s x"
      by (simp_all add: keeps_data_def)
    then show ?thesis by (simp add: data_page_def same(3) f s3(3) s4(3))
  qed
  moreover have "card (frames_ahead s) \<le> tables_needed (?A \<union> ?B) + 1 + card (frames_ahead s5)"
    using fresh(4) s3(4) s4(6) by (simp add: same(2))
  ultimately show ?thesis using run f root4 own4 same(3)
    by (intro exI [of _ s5] exI [of _ "?A \<union> ?B"] conjI allI impI) (simp_all add: ac_simps)
qed

end
