(* ===== verification/KernelRunning.thy ===== *)
theory KernelRunning
  imports Kernel
begin

text \<open>
  The kernel at work: what the handlers and the serial port leave alone, the interrupts between two steps of
  the start, and the runs of the waiting and echoing loop, with the interrupts counted.
\<close>

section \<open>Serial traffic\<close>

fun is_eoi :: "io_event \<Rightarrow> bool" where
  "is_eoi (Out8 port v) = (port = 0x20 \<and> v = 0x20)"
| "is_eoi _ = False"

definition eois :: "'a io_scheme \<Rightarrow> nat" where
  "eois s = length (filter is_eoi (events s))"

text \<open>Steps that send no end of interrupt and do not touch the clock.\<close>

definition quiet :: "'a chrono_scheme \<Rightarrow> 'a chrono_scheme \<Rightarrow> bool" where
  "quiet s s' \<longleftrightarrow> eois s' = eois s \<and> ms_count s' = ms_count s"

lemma quiet_refl [simp]: "quiet s s"
  by (simp add: quiet_def)

lemma quiet_trans: "quiet s s' \<Longrightarrow> quiet s' s'' \<Longrightarrow> quiet s s''"
  by (simp add: quiet_def)

lemma filter_reads: "filter is_eoi (after_reads dev port n es) = filter is_eoi es"
  by (induction n) (simp_all add: Let_def)

lemma kputc_quiet: "kputc dev c s = Some (r, s') \<Longrightarrow> quiet s s'"
  unfolding kputc_run by (auto simp: quiet_def eois_def filter_reads simp del: after_reads.simps)

lemma kgetc_quiet: "kgetc dev s = Some (r, s') \<Longrightarrow> quiet s s'"
  unfolding kgetc_run Let_def by (auto simp: quiet_def eois_def filter_reads simp del: after_reads.simps)

lemma kputs_quiet: "kputs dev str p s = Some (Inr (r, s')) \<Longrightarrow> quiet s s'"
proof (induction dev str p s rule: kputs.induct)
  case (1 dev str p s)
  obtain c where c: "rd str p = Inr c" using 1(2) by (subst (asm) kputs.simps) (cases "rd str p", auto)
  show ?case
  proof (cases "c = 0")
    case True
    then show ?thesis using 1(2) c by (subst (asm) kputs.simps) simp
  next
    case False
    then obtain r1 s1 where k: "kputc dev (sint c) s = Some (r1, s1)"
      using 1(2) c by (subst (asm) kputs.simps) (cases "kputc dev (sint c) s", auto)
    then have "kputs dev str (Suc p) s1 = Some (Inr (r, s'))"
      using 1(2) c False by (subst (asm) kputs.simps) simp
    then have "quiet s1 s'" using 1(1) [of c "(r1, s1)" r1 s1] c False k by simp
    with kputc_quiet [OF k] show ?thesis by (rule quiet_trans)
  qed
qed

lemma send_quiet: "send (kputc dev) cs s = Some s' \<Longrightarrow> quiet s s'"
proof (induction cs arbitrary: s)
  case (Cons c cs)
  then obtain r s1 where "kputc dev c s = Some (r, s1)" "send (kputc dev) cs s1 = Some s'"
    by (auto simp: bind_eq_Some_conv)
  with Cons.IH kputc_quiet quiet_trans show ?case by blast
qed simp

lemma kprint_quiet: "kprint dev format ap s = Some (Inr (r, s')) \<Longrightarrow> quiet s s'"
proof -
  assume run: "kprint dev format ap s = Some (Inr (r, s'))"
  then obtain f where f: "proto_print format ap \<lparr>str_buff = print_buff s, out = []\<rparr> = Inr (r, f)"
    by (cases "proto_print format ap \<lparr>str_buff = print_buff s, out = []\<rparr>") (auto simp: kprint_def)
  with run obtain s1 where "send (kputc dev) (out f) s = Some s1" "s' = s1\<lparr>print_buff := str_buff f\<rparr>"
    by (auto simp: kprint_def)
  with send_quiet show ?thesis by (fastforce simp: quiet_def eois_def)
qed

lemma obind_Inr: "obind m f = Some (Inr y) \<longleftrightarrow> (\<exists>x. m = Some (Inr x) \<and> f x = Some (Inr y))"
  by (auto simp: obind_def split: option.splits sum.splits)

lemma serial_printf_quiet:
  assumes "serial_printf dev format ap s = Some (Inr s')"
  shows "quiet s s'"
proof -
  obtain r1 s1 r2 where
    "kprint dev (lit ''[%9d.%03d] '') [VWord (ms_count s div 1000), VWord (ms_count s mod 1000)] s =
      Some (Inr (r1, s1))" "kprint dev format ap s1 = Some (Inr (r2, s'))"
    using assms by (auto simp: serial_printf_def obind_Inr)
  then show ?thesis by (intro quiet_trans [OF kprint_quiet kprint_quiet])
qed

section \<open>Handlers\<close>

lemma PIC_sendEOI_0: "events (PIC_sendEOI 0 s) = events s @ [Out8 0x20 0x20]"
  "ms_count (PIC_sendEOI 0 t) = ms_count t"
  by (simp_all add: PIC_sendEOI_def io_simps pic_defs)

lemma Timer_Handler_result:
  "eois (Timer_Handler s) = eois s + 1" "ms_count (Timer_Handler s) = ms_count s + 1"
  by (simp_all add: Timer_Handler_def eois_def PIC_sendEOI_0)

lemma Keyboard_Handler_result:
  assumes "Keyboard_Handler dev s = Some (Inr s')"
  shows "eois s' = eois s + 1" and "ms_count s' = ms_count s"
proof -
  obtain r s1 where k: "kputs dev (lit ('' KB'' @ [CHR 0x0A])) 0 s = Some (Inr (r, s1))"
    and s': "s' = PIC_sendEOI 0 (snd (inb dev 0x60 s1))"
    using assms by (auto simp: Keyboard_Handler_def obind_Inr Let_def split_def)
  have "quiet s s1" by (rule kputs_quiet [OF k])
  then show "eois s' = eois s + 1" and "ms_count s' = ms_count s"
    by (simp_all add: s' quiet_def eois_def PIC_sendEOI_0 io_simps)
qed

lemma echo_quiet:
  assumes "echo dev s = Some (Inr s')"
  shows "quiet s s'"
proof -
  define s1 where "s1 = snd (serial_received dev s)"
  have q: "quiet s s1" by (simp add: s1_def status_reads quiet_def eois_def)
  show ?thesis
  proof (cases "fst (serial_received dev s) = 0")
    case True
    then show ?thesis using assms q by (simp add: echo_def s1_def split_def Let_def)
  next
    case False
    then obtain ch s2 r where "kgetc dev s1 = Some (ch, s2)" "kputc dev ch s2 = Some (r, s')"
      using assms by (auto simp: echo_def s1_def split_def Let_def split: option.splits)
    then show ?thesis by (intro quiet_trans [OF q quiet_trans [OF kgetc_quiet kputc_quiet]])
  qed
qed

lemma handle_irq_result:
  assumes "handle_irq dev q t = Some (Inr t')"
  shows "eois t' = eois t + 1" and "ms_count t' = ms_count t + (if q = Timer then 1 else 0)"
  using assms Timer_Handler_result [of t] Keyboard_Handler_result [of dev t t']
  by (auto simp: handle_irq_def split: irq.splits)

section \<open>Interrupts between the steps of the start\<close>

definition ticks :: "irq list \<Rightarrow> nat" where
  "ticks qs = count_list qs Timer"

text \<open>What the handlers print.\<close>

definition irq_text :: "irq list \<Rightarrow> u8 list" where
  "irq_text qs = concat (map (\<lambda>q. case q of Timer \<Rightarrow> [] | Keyboard \<Rightarrow> map of_char ('' KB'' @ [CHR 0x0A])) qs)"

lemma handle_irq_runs:
  assumes "keeps_showing dev 0x3FD 0x20"
  shows "\<exists>t'. handle_irq dev q t = Some (Inr t') \<and> sent (events t') = sent (events t) @ irq_text [q] \<and>
    ms_count t' = ms_count t + of_nat (ticks [q]) \<and> print_buff t' = print_buff t"
proof (cases q)
  case Timer
  then show ?thesis
    by (simp add: handle_irq_def Timer_Handler_def irq_text_def ticks_def PIC_sendEOI_def io_simps pic_defs sent_def
        outb_def emit_def)
next
  case Keyboard
  have "cstr (lit ('' KB'' @ [CHR 0x0A])) 0 (map of_char ('' KB'' @ [CHR 0x0A]))"
    unfolding cstr_def lit_def by (intro conjI exI [of _ "[]"]) simp_all
  from kputs_sends [OF assms this, of t] obtain t1 where
    t1: "kputs dev (lit ('' KB'' @ [CHR 0x0A])) 0 t = Some (Inr (0, t1))"
      "sent (events t1) = sent (events t) @ map of_char ('' KB'' @ [CHR 0x0A])"
      "t1\<lparr>events := []\<rparr> = t\<lparr>events := []\<rparr>" by blast
  have "ms_count t1 = ms_count t" "print_buff t1 = print_buff t"
    using arg_cong [OF t1(3), of ms_count] arg_cong [OF t1(3), of print_buff] by simp_all
  then show ?thesis
    using t1(1,2) Keyboard
    by (simp add: handle_irq_def Keyboard_Handler_def irq_text_def ticks_def PIC_sendEOI_def io_simps pic_defs
        sent_def outb_def emit_def Let_def split_def)
qed

lemma irq_list:
  "ticks (q # qs) = ticks [q] + ticks qs" "irq_text (q # qs) = irq_text [q] @ irq_text qs"
  "ticks [] = 0" "irq_text [] = []"
  by (simp_all add: ticks_def irq_text_def)

lemma handle_irqs_runs:
  assumes "keeps_showing dev 0x3FD 0x20"
  shows "\<exists>t'. handle_irqs dev qs t = Some (Inr t') \<and> sent (events t') = sent (events t) @ irq_text qs \<and>
    ms_count t' = ms_count t + of_nat (ticks qs) \<and> print_buff t' = print_buff t"
proof (induction qs arbitrary: t)
  case (Cons q qs)
  obtain t1 where t1: "handle_irq dev q t = Some (Inr t1)" "sent (events t1) = sent (events t) @ irq_text [q]"
      "ms_count t1 = ms_count t + of_nat (ticks [q])" "print_buff t1 = print_buff t"
    using handle_irq_runs [OF assms] by blast
  show ?case using Cons.IH [of t1] t1 irq_list(1,2) [of q qs] by (simp add: add.assoc)
qed (simp add: irq_list)

section \<open>Runs\<close>

text \<open>Any number of steps, with all that was done, in order.\<close>

inductive kernel_run :: "device \<Rightarrow> phase \<times> serial \<Rightarrow> action list \<Rightarrow> phase \<times> serial \<Rightarrow> bool" for dev r0 where
  start: "kernel_run dev r0 [] r0"
| step: "kernel_run dev r0 as r \<Longrightarrow> kernel_step dev a r r' \<Longrightarrow> kernel_run dev r0 (as @ [a]) r'"

text \<open>The phase tells whether the prompt has been printed; it is printed once, late enough, and echoes follow it.\<close>

definition prompted :: "u64 \<Rightarrow> action list \<Rightarrow> bool" where
  "prompted start acts \<longleftrightarrow> (\<exists>before after. acts = before @ Prompt # after \<and> Prompt \<notin> set before \<union> set after \<and>
     Echo \<notin> set before \<and> 3000 \<le> start + of_nat (count_list before (Irq Timer)))"

definition interrupts :: "action list \<Rightarrow> nat" where
  "interrupts acts = count_list acts (Irq Timer) + count_list acts (Irq Keyboard)"

lemma kernel_step_counts:
  assumes "kernel_step dev a (ph, t) (ph', t')"
  shows "ms_count t' = ms_count t + of_nat (count_list [a] (Irq Timer)) \<and> eois t' = eois t + interrupts [a]"
  using assms
proof (cases rule: kernel_step.cases)
  case (interrupt q)
  then show ?thesis using handle_irq_result [OF interrupt(3)] by (cases q) (auto simp: interrupts_def)
next
  case prompt
  then show ?thesis using serial_printf_quiet [OF prompt(5)] by (simp add: quiet_def interrupts_def)
next
  case echo
  then show ?thesis using echo_quiet [OF echo(4)] by (simp add: quiet_def interrupts_def)
qed

lemma kernel_step_phase:
  assumes "kernel_step dev a (ph, t) (ph', t')"
  shows "a = Prompt \<and> ph = Waiting \<and> ph' = Echoing \<and> 3000 \<le> ms_count t \<or>
    a \<noteq> Prompt \<and> ph' = ph \<and> (a = Echo \<longrightarrow> ph = Echoing)"
  using assms by (cases rule: kernel_step.cases) (auto simp: not_less)

lemma prompted_step: "prompted n acts \<Longrightarrow> a \<noteq> Prompt \<Longrightarrow> prompted n (acts @ [a])"
  unfolding prompted_def by (elim exE) (rule exI, rule exI, auto)

lemma prompted_now:
  "Prompt \<notin> set acts \<Longrightarrow> Echo \<notin> set acts \<Longrightarrow> 3000 \<le> n + of_nat (count_list acts (Irq Timer)) \<Longrightarrow>
    prompted n (acts @ [Prompt])"
  unfolding prompted_def by (rule exI [of _ acts], rule exI [of _ "[]"]) simp

lemma kernel_run_counts:
  assumes "kernel_run dev (Waiting, t0) acts r"
  shows "ms_count (snd r) = ms_count t0 + of_nat (count_list acts (Irq Timer))"
    and "eois (snd r) = eois t0 + interrupts acts"
    and "if fst r = Echoing then prompted (ms_count t0) acts else Prompt \<notin> set acts \<and> Echo \<notin> set acts"
  using assms
proof (induction rule: kernel_run.induct)
  case start
  { case 1 show ?case by simp }
  { case 2 show ?case by (simp add: interrupts_def) }
  { case 3 show ?case by simp }
next
  case (step as r a r')
  obtain ph t ph' t' where r: "r = (ph, t)" "r' = (ph', t')" by fastforce
  note counts = kernel_step_counts [OF step.hyps(2) [unfolded r]]
  { case 1 show ?case using step.IH(1) counts by (simp add: r add.assoc) }
  { case 2 show ?case using step.IH(2) counts by (simp add: r interrupts_def) }
  { case 3
    show ?case
    proof (cases "a = Prompt")
      case True
      then have "ph = Waiting" "ph' = Echoing" "3000 \<le> ms_count t"
        using kernel_step_phase [OF step.hyps(2) [unfolded r]] by auto
      then show ?thesis using step.IH(1,3) True prompted_now [of as] by (simp add: r)
    next
      case False
      then show ?thesis using kernel_step_phase [OF step.hyps(2) [unfolded r]] step.IH(3) prompted_step [of _ as a]
        by (cases ph) (auto simp: r)
    qed }
qed

end
