(* ===== verification/FrameInit.thy ===== *)
theory FrameInit
  imports FrameRequest
begin

text \<open>
  \<open>ppa_init\<close>: the bitmap it lays out in the largest conventional segment, and which
  frames are taken afterwards, as a function of the memory map.
\<close>

section \<open>Clearing the bitmap\<close>

lemma zero_words_result:
  assumes "words \<le> 2147483647" and "i \<le> words"
  shows "\<exists>m'. zero_words data i words m = Inr m' \<and>
    (\<forall>k. i \<le> k \<longrightarrow> k < words \<longrightarrow> load32 m' (data + 4 * of_nat k) = 0) \<and>
    (\<forall>k<i. load32 m' (data + 4 * of_nat k) = load32 m (data + 4 * of_nat k)) \<and>
    (\<forall>x. \<not> unat (x - data) < 4 * words \<longrightarrow> m' x = m x)"
  using assms(2)
proof (induction "words - i" arbitrary: i m)
  case 0
  then show ?case by (simp add: zero_words.simps)
next
  case (Suc d)
  then have i: "i < words" and d: "d = words - Suc i" by auto
  let ?m = "store32 m (data + 4 * of_nat i) 0"
  have ok: "c_int (int i + 1) = Inr (int i + 1)"
    using i assms(1) by (simp add: INT_MAX_def INT_MIN_def)
  have step: "zero_words data i words m = zero_words data (Suc i) words ?m"
    using i ok by (simp add: zero_words.simps [of data i])
  have other: "load32 ?m (data + 4 * of_nat k) = load32 m (data + 4 * of_nat k)"
    if "k < words" "k \<noteq> i" for k
  proof -
    have "apart (data + of_nat (4 * k)) 4 (data + of_nat (4 * i)) 4"
      by (rule apart_array) (use that i assms(1) in simp_all)
    then show ?thesis by (simp add: load32_store32_apart)
  qed
  from Suc.hyps(1) [OF d, of ?m] i obtain m' where m':
      "zero_words data (Suc i) words ?m = Inr m'"
      "\<forall>k. Suc i \<le> k \<longrightarrow> k < words \<longrightarrow> load32 m' (data + 4 * of_nat k) = 0"
      "\<forall>k<Suc i. load32 m' (data + 4 * of_nat k) = load32 ?m (data + 4 * of_nat k)"
      "\<forall>x. \<not> unat (x - data) < 4 * words \<longrightarrow> m' x = ?m x" by auto
  have "load32 m' (data + 4 * of_nat k) = 0" if "i \<le> k" "k < words" for k
    using m'(2,3) that by (cases "k = i") (simp_all add: mem_simps)
  moreover have "load32 m' (data + 4 * of_nat k) = load32 m (data + 4 * of_nat k)" if "k < i" for k
    using m'(3) other [of k] that i by simp
  moreover have "m' x = m x" if "\<not> unat (x - data) < 4 * words" for x
  proof -
    have "\<not> unat (x - (data + 4 * of_nat i)) < 4"
    proof
      assume h: "unat (x - (data + 4 * of_nat i)) < 4"
      define r where "r = x - (data + 4 * of_nat i)"
      have b: "unat (of_nat (4 * i) :: u64) = 4 * i"
        by (rule unat_of_nat_small) (use i assms(1) in simp)
      have "x - data = of_nat (4 * i) + r" by (simp add: r_def)
      moreover have "unat (of_nat (4 * i) :: u64) + unat r < 2 ^ LENGTH(64)"
        unfolding b using h i assms(1) by (simp add: r_def)
      ultimately have "unat (x - data) = 4 * i + unat r"
        using unat_plus_nowrap b by (metis (no_types))
      with h i that show False by (simp add: r_def)
    qed
    then have "?m x = m x" by (simp add: store32_def store_bytes_def)
    then show ?thesis using m'(4) that by simp
  qed
  ultimately show ?case using step m'(1) by auto
qed

text \<open>A state whose bitmap lies at \<open>b\<close>, with the rest of memory as in \<open>m\<close>.\<close>

definition boot_frame :: "mem \<Rightarrow> Bitmap \<Rightarrow> 'a ppa_scheme \<Rightarrow> bool" where
  "boot_frame m b s \<longleftrightarrow> bitmap_wf s \<and> tail_clear s \<and> ppa_bitmap s = b \<and>
     (\<forall>x. x \<notin> bitmap_bytes b \<longrightarrow> phys s x = m x)"

lemma boot_frame_limit: "boot_frame m b s \<Longrightarrow> frames_limit s = unat (bm_max_index b) + 1"
  by (simp add: boot_frame_def frames_limit_def)

lemma boot_frame_set: "boot_frame m b s \<Longrightarrow> boot_frame m b (snd (ppa_bitmap_set i v s))"
  by (auto simp: boot_frame_def frame_simps bm.wf_put tail_clear_set phys_bitmap_set)

lemma boot_frame_update [simp]:
  "boot_frame m b (s\<lparr>mem_used := u\<rparr>) = boot_frame m b s"
  "boot_frame m b (s\<lparr>mem_rsvd := r\<rparr>) = boot_frame m b s"
  "boot_frame m b (s\<lparr>mem_free := f\<rparr>) = boot_frame m b s"
  "boot_frame m b (s\<lparr>last_hit := h\<rparr>) = boot_frame m b s"
  "boot_frame m b (s\<lparr>ppa_initialized := i\<rparr>) = boot_frame m b s"
  by (simp_all add: boot_frame_def)

lemma boot_frame_ops:
  "boot_frame m b s \<Longrightarrow> boot_frame m b (ppa_lck a s)"
  "boot_frame m b s \<Longrightarrow> boot_frame m b (ppa_rsv a s)"
  "boot_frame m b s \<Longrightarrow> boot_frame m b (ppa_ursv a s)"
  by (simp_all add: frame_op_cases Let_def boot_frame_set)

lemma boot_frame_lckn: "boot_frame m b s \<Longrightarrow> boot_frame m b (ppa_lckn a n s)"
  unfolding ppa_lckn_def by (rule page_loop_inv) (rule boot_frame_ops)

lemma boot_frame_rsvn: "boot_frame m b s \<Longrightarrow> boot_frame m b (ppa_rsvn a n s)"
  unfolding ppa_rsvn_def by (rule page_loop_inv) (rule boot_frame_ops)

lemma ppa_init_bitmap_result:
  assumes "unat pages = T" and "0 < T" and "T < 2 ^ 35"
  obtains s' where "ppa_init_bitmap data_addr pages s = Inr s'"
    and "boot_frame (phys s) \<lparr>bm_size = of_nat (T div 32 + 1), bm_max_index = of_nat (T - 1),
      bm_data = data_addr\<rparr> s'"
    and "\<And>j. \<not> frame_used s' j" and "frames_limit s' = T"
    and "mem_used s' = mem_used s" and "mem_rsvd s' = mem_rsvd s"
    and "mem_free s' = mem_free s" and "mem_total s' = mem_total s"
    and "last_hit s' = last_hit s" and "ppa_initialized s' = ppa_initialized s"
    and "ppa.more s' = ppa.more s"
proof -
  let ?n = "T div 32 + 1"
  have T64: "T < 2 ^ 64" using assms(3) by simp
  have pg: "pages = of_nat T" using assms(1) by (metis word_unat_eq_iff unat_of_nat_small assms(1) unsigned_less)
  have sz: "pages div 32 + 1 = of_nat ?n"
    by (simp add: index_div_32 [symmetric] assms(1))
  have usz: "unat (of_nat ?n :: u64) = ?n"
    by (rule unat_of_nat_small) (use assms(3) in simp)
  have mx: "pages - 1 = of_nat (T - 1)" using assms(2) by (simp add: pg of_nat_diff)
  have umx: "unat (of_nat (T - 1) :: u64) = T - 1"
    by (rule unat_of_nat_small) (use T64 in simp)
  have "?n \<le> 2147483647" using assms(3) by simp
  from zero_words_result [OF this, of 0 data_addr "phys s"] obtain m' where
    m': "zero_words data_addr 0 ?n (phys s) = Inr m'"
      "\<forall>k<?n. load32 m' (data_addr + 4 * of_nat k) = 0"
      "\<forall>x. \<not> unat (x - data_addr) < 4 * ?n \<longrightarrow> m' x = phys s x" by auto
  define b where "b = \<lparr>bm_size = of_nat ?n, bm_max_index = of_nat (T - 1), bm_data = data_addr\<rparr>"
  define s' where "s' = s\<lparr>ppa_bitmap := b, phys := m'\<rparr>"
  have run: "ppa_init_bitmap data_addr pages s = Inr s'"
  proof -
    define w :: u64 where "w = of_nat ?n"
    have "pages div 32 + 1 = w" "unat w = ?n" unfolding w_def by (rule sz, rule usz)
    moreover have "b = \<lparr>bm_size = w, bm_max_index = of_nat (T - 1), bm_data = data_addr\<rparr>"
      by (simp only: b_def w_def)
    ultimately show ?thesis
      using m'(1) by (simp add: ppa_init_bitmap_def mx s'_def)
  qed
  have lim: "frames_limit s' = T"
    using assms(2) umx by (simp add: frames_limit_def s'_def b_def)
  have bits: "\<not> frame_bit s' j" if "j < 32 * ?n" for j
  proof -
    have "j div 32 < ?n" using that by auto
    then show ?thesis
      using m'(2) by (simp add: frame_bit_def s'_def b_def bitmap_word_addr_def)
  qed
  have "bitmap_wf s'" using lim usz assms(3) by (simp add: bitmap_wf_def s'_def b_def)
  moreover have "tail_clear s'" using bits usz by (simp add: tail_clear_def s'_def b_def)
  moreover have "phys s' x = phys s x" if "x \<notin> bitmap_bytes b" for x
    using m'(3) that usz by (simp add: bitmap_bytes_def s'_def b_def)
  ultimately have "boot_frame (phys s) b s'" by (simp add: boot_frame_def s'_def)
  moreover have "\<not> frame_used s' j" for j
    using bits [of j] lim by (auto simp: frame_used_def)
  ultimately show thesis using run lim that by (simp add: b_def s'_def)
qed

section \<open>Releasing a range\<close>

lemma ppa_ulckn_result:
  assumes "bitmap_wf s" and "unat n \<le> 524288"
  obtains s' where "ppa_ulckn a n s = Inr s'" and "bitmap_wf s'" and "frames_limit s' = frames_limit s"
    and "\<And>j. frame_used s' j \<longleftrightarrow> frame_used s j \<and> j \<notin> frames_from a (unat n)"
    and "last_hit s' = a div 4096"
proof -
  obtain t where t: "int_loop ppa_ulck a 0 (unat n) s = Inr t"
    using ulck.int_loop_ok [OF assms(2)] by blast
  note r = ulck.int_loop_result [OF t assms(1)]
  show thesis
    by (rule that [of "t\<lparr>last_hit := a div 4096\<rparr>"])
      (use r t in \<open>auto simp: ppa_ulckn_def dest: bm.used_limit\<close>)
qed

lemma ppa_ursvn_result:
  assumes "bitmap_wf s" and "unat n \<le> 524288"
  obtains s' where "ppa_ursvn a n s = Inr s'" and "bitmap_wf s'" and "frames_limit s' = frames_limit s"
    and "\<And>j. frame_used s' j \<longleftrightarrow> frame_used s j \<and> j \<notin> frames_from a (unat n)"
    and "last_hit s' = a div 4096"
proof -
  obtain t where t: "int_loop ppa_ursv a 0 (unat n) s = Inr t"
    using ursv.int_loop_ok [OF assms(2)] by blast
  note r = ursv.int_loop_result [OF t assms(1)]
  show thesis
    by (rule that [of "t\<lparr>last_hit := a div 4096\<rparr>"])
      (use r t in \<open>auto simp: ppa_ursvn_def dest: bm.used_limit\<close>)
qed

lemma ppa_release_overflow:
  assumes "524288 < unat n"
  shows "ppa_ulckn a n s = Inl SignedOverflow" and "ppa_ursvn a n s = Inl SignedOverflow"
  using assms by (simp_all add: ppa_ulckn_def ppa_ursvn_def ulck.int_loop_overflow ursv.int_loop_overflow)

section \<open>The memory map\<close>

definition map_descs :: "mem \<Rightarrow> u64 \<Rightarrow> u64 \<Rightarrow> u64 \<Rightarrow> EfiMemoryDescriptor list" where
  "map_descs m mmap mmap_size mmap_desc_size =
     map (load_desc m) (mmap_addrs mmap mmap_size mmap_desc_size)"

definition total_frames :: "EfiMemoryDescriptor list \<Rightarrow> nat" where
  "total_frames ds = (\<Sum>d\<leftarrow>ds. unat (numberofpages d))"

definition conventional_frames :: "EfiMemoryDescriptor list \<Rightarrow> nat set" where
  "conventional_frames ds =
     (\<Union>d\<in>{d \<in> set ds. is_conventional d}. frames_from (physicalstart d) (unat (numberofpages d)))"

text \<open>The segment the bitmap goes to: the first of the largest conventional ones.\<close>

fun better :: "EfiMemoryDescriptor \<Rightarrow> EfiMemoryDescriptor option \<Rightarrow> EfiMemoryDescriptor option" where
  "better d best =
     (if is_conventional d \<and> (case best of None \<Rightarrow> 0 | Some e \<Rightarrow> numberofpages e) < numberofpages d
      then Some d else best)"

definition largest_segment :: "EfiMemoryDescriptor list \<Rightarrow> EfiMemoryDescriptor option" where
  "largest_segment ds = fold better ds None"

lemma largest_segment_is:
  assumes "largest_segment ds = Some d"
  shows "d \<in> set ds \<and> is_conventional d \<and> 0 < numberofpages d \<and>
    (\<forall>e\<in>set ds. is_conventional e \<longrightarrow> numberofpages e \<le> numberofpages d)"
proof -
  define size_of where "size_of best = (case best of None \<Rightarrow> 0 | Some e \<Rightarrow> numberofpages e)"
    for best :: "EfiMemoryDescriptor option"
  have "case fold better ds best of
      None \<Rightarrow> True
    | Some d \<Rightarrow> (Some d = best \<or> d \<in> set ds \<and> is_conventional d \<and> 0 < numberofpages d) \<and>
        size_of best \<le> numberofpages d \<and>
        (\<forall>e\<in>set ds. is_conventional e \<longrightarrow> numberofpages e \<le> numberofpages d)" for best
  proof (induction ds arbitrary: best)
    case Nil
    then show ?case by (simp add: size_of_def split: option.split)
  next
    case (Cons e ds)
    have "size_of best \<le> size_of (better e best)"
      and "is_conventional e \<longrightarrow> numberofpages e \<le> size_of (better e best)"
      by (auto simp: size_of_def word_gt_0 split: option.split)
    moreover have "better e best = best \<or>
        better e best = Some e \<and> is_conventional e \<and> 0 < numberofpages e"
      by (auto split: option.split intro: le_less_trans [OF word_zero_le])
    ultimately show ?case
      using Cons.IH [of "better e best"]
      by (auto simp del: better.simps split: option.splits)
  qed
  from this [of None] assms show ?thesis by (simp add: largest_segment_def)
qed

lemma scan_fold:
  assumes "(\<Sum>a\<leftarrow>xs. unat (numberofpages (load_desc m a))) < 2 ^ 52"
    and "(tot, seg, sz) = (of_nat (4096 * t), (case best of None \<Rightarrow> 0 | Some d \<Rightarrow> physicalstart d),
      (case best of None \<Rightarrow> 0 | Some d \<Rightarrow> numberofpages d * 4096))"
    and "case best of None \<Rightarrow> True | Some d \<Rightarrow> unat (numberofpages d) < 2 ^ 52"
  shows "fold (scan_desc m) xs (tot, seg, sz) =
    (of_nat (4096 * (t + (\<Sum>a\<leftarrow>xs. unat (numberofpages (load_desc m a))))),
     (case fold better (map (load_desc m) xs) best of None \<Rightarrow> 0 | Some d \<Rightarrow> physicalstart d),
     (case fold better (map (load_desc m) xs) best of None \<Rightarrow> 0 | Some d \<Rightarrow> numberofpages d * 4096))"
  using assms
proof (induction xs arbitrary: tot seg sz t best)
  case Nil
  then show ?case by simp
next
  case (Cons a xs)
  let ?d = "load_desc m a"
  have small: "unat (numberofpages ?d) < 2 ^ 52" using Cons.prems(1) by simp
  have mul: "unat (numberofpages e * 4096) = 4096 * unat (numberofpages e)"
    if "unat (numberofpages e) < 2 ^ 52" for e
    by (subst unat_mult_nowrap) (use that in simp_all)
  have lt: "sz < numberofpages ?d * 4096 \<longleftrightarrow>
      (case best of None \<Rightarrow> 0 | Some e \<Rightarrow> numberofpages e) < numberofpages ?d"
    using Cons.prems(2,3) small
    by (cases best) (simp_all add: word_less_nat_alt mul)
  define best' where "best' = better ?d best"
  have step: "scan_desc m a (tot, seg, sz) =
      (of_nat (4096 * (t + unat (numberofpages ?d))),
       (case best' of None \<Rightarrow> 0 | Some d \<Rightarrow> physicalstart d),
       (case best' of None \<Rightarrow> 0 | Some d \<Rightarrow> numberofpages d * 4096))"
    using Cons.prems(2) lt
    by (simp add: scan_desc_def Let_def best'_def algebra_simps)
  have "case best' of None \<Rightarrow> True | Some d \<Rightarrow> unat (numberofpages d) < 2 ^ 52"
    using Cons.prems(3) small by (simp add: best'_def)
  from Cons.IH [OF _ refl this, of "t + unat (numberofpages ?d)"] Cons.prems(1)
  show ?case by (simp add: step best'_def add.assoc del: better.simps of_nat_mult of_nat_add)
qed

end
