(* ===== verification/BootFrames.thy ===== *)
theory BootFrames
  imports FrameInit
begin

text \<open>
  The outcome of \<open>ppa_init\<close> on a memory map that fits it: which frames are taken, and
  that the state it leaves is one the allocator can work on.
\<close>

section \<open>Maps that fit\<close>

definition bitmap_pages :: "nat \<Rightarrow> nat" where
  "bitmap_pages frames = (let words = frames div 32 + 1
     in words div 1024 + (if words mod 1024 \<noteq> 0 then 1 else 0))"

definition boot_bitmap :: "nat \<Rightarrow> EfiMemoryDescriptor \<Rightarrow> Bitmap" where
  "boot_bitmap frames seg =
     \<lparr>bm_size = of_nat (frames div 32 + 1), bm_max_index = of_nat (frames - 1),
      bm_data = physicalstart seg\<rparr>"

text \<open>
  The first megabyte is there, the machine is below 128 TiB, the conventional segments are page
  aligned, of at most 2 GiB and within the frames counted, the largest one does not start at
  address 0 and holds the bitmap, and the map itself lies outside the bitmap.
\<close>

definition fits_machine :: "EfiMemoryDescriptor list \<Rightarrow> bool" where
  "fits_machine ds \<longleftrightarrow> 256 \<le> total_frames ds \<and> total_frames ds < 2 ^ 35 \<and>
     (\<forall>d\<in>set ds. is_conventional d \<longrightarrow>
        unat (numberofpages d) \<le> 524288 \<and> page_aligned (physicalstart d) \<and>
        unat (physicalstart d) div 4096 + unat (numberofpages d) \<le> total_frames ds)"

definition fits_bitmap :: "EfiMemoryDescriptor list \<Rightarrow> u64 list \<Rightarrow> EfiMemoryDescriptor \<Rightarrow> bool" where
  "fits_bitmap ds addrs seg \<longleftrightarrow> physicalstart seg \<noteq> 0 \<and>
     bitmap_pages (total_frames ds) \<le> unat (numberofpages seg) \<and>
     (\<forall>a\<in>set addrs. \<forall>i<40. a + of_nat i \<notin> bitmap_bytes (boot_bitmap (total_frames ds) seg))"

lemma load_desc_cong:
  assumes "\<And>i. i < 40 \<Longrightarrow> m (a + of_nat i) = m' (a + of_nat i)"
  shows "load_desc m a = load_desc m' a"
proof -
  have "m (a + of_nat off + of_nat i) = m' (a + of_nat off + of_nat i)" if "off + i < 40" for off i
    using assms [OF that] by (simp add: add.assoc)
  from this [of 0] this [of 4] this [of 8] this [of 16] this [of 24] this [of 32]
  show ?thesis
    unfolding load_desc_def load32_def load64_def
    by (auto intro!: load_bytes_cong)
qed

section \<open>The release of the conventional segments\<close>

lemma boot_frame_ursvn:
  assumes "ppa_ursvn a n s = Inr s'" and "boot_frame m b s"
  shows "boot_frame m b s'"
proof -
  from assms(1) obtain t where t: "int_loop ppa_ursv a 0 (unat n) s = Inr t"
      and s': "s' = t\<lparr>last_hit := a div 4096\<rparr>"
    by (auto simp: ppa_ursvn_def rbind_eq_Inr)
  have "boot_frame m b t" by (rule int_loop_inv [where P = "boot_frame m b", OF t assms(2)]) (rule boot_frame_ops)
  then show ?thesis by (simp add: s')
qed

text \<open>
  Where the search for free frames starts afterwards: each release sets \<open>last_hit\<close> to the start of its
  segment, so the last conventional segment of the map decides.
\<close>

definition release_hint :: "EfiMemoryDescriptor list \<Rightarrow> u64 \<Rightarrow> u64" where
  "release_hint ds h = fold (\<lambda>d h. if is_conventional d then physicalstart d div 4096 else h) ds h"

lemma release_hint_in:
  "release_hint ds h \<in> insert h ((\<lambda>d. physicalstart d div 4096) ` {d \<in> set ds. is_conventional d})"
  unfolding release_hint_def
proof (induction ds arbitrary: h)
  case (Cons d ds)
  show ?case using Cons.IH [of "if is_conventional d then physicalstart d div 4096 else h"] by auto
qed simp

text \<open>The fields around the bitmap and its counters.\<close>

definition around :: "u64 \<Rightarrow> 'a \<Rightarrow> 'a ppa_scheme \<Rightarrow> bool" where
  "around t e s \<longleftrightarrow> mem_total s = t \<and> ppa.more s = e"

lemma around_ops:
  "around t e s \<Longrightarrow> around t e (ppa_lck a s)"
  "around t e s \<Longrightarrow> around t e (ppa_rsv a s)"
  "around t e s \<Longrightarrow> around t e (ppa_ursv a s)"
  by (simp_all add: around_def frame_op_cases Let_def frame_simps)

lemma around_ranges:
  "around t e s \<Longrightarrow> around t e (ppa_lckn a n s)"
  "around t e s \<Longrightarrow> around t e (ppa_rsvn a n s)"
  unfolding ppa_lckn_def ppa_rsvn_def by (rule page_loop_inv; simp add: around_ops)+

lemma around_release:
  assumes "mfold release_desc xs s = Inr s'" and "around t e s"
  shows "around t e s'"
proof (rule mfold_inv [where I = "around t e", OF assms])
  fix x and s s' :: "'a ppa_scheme"
  assume inv: "around t e s" and "release_desc x s = Inr s'"
  then consider "s' = s"
    | a n u where "int_loop ppa_ursv a 0 n s = Inr u" "s' = u\<lparr>last_hit := a div 4096\<rparr>"
    by (auto simp: release_desc_def ppa_ursvn_def rbind_eq_Inr Let_def split: if_splits)
  then show "around t e s'"
  proof cases
    case 2
    have "around t e u" by (rule int_loop_inv [where P = "around t e", OF 2(1) inv]) (rule around_ops)
    then show ?thesis by (simp add: 2(2) around_def)
  qed (use inv in simp)
qed

lemma release_fold:
  assumes "boot_frame m b s" and "counters_exact s"
    and "\<And>a i. a \<in> set xs \<Longrightarrow> i < 40 \<Longrightarrow> a + of_nat i \<notin> bitmap_bytes b"
    and "\<And>d. d \<in> load_desc m ` set xs \<Longrightarrow> is_conventional d \<Longrightarrow> unat (numberofpages d) \<le> 524288"
  shows "\<exists>s'. mfold release_desc xs s = Inr s' \<and> boot_frame m b s' \<and> counters_exact s' \<and>
    (\<forall>j. frame_used s' j \<longleftrightarrow> frame_used s j \<and> j \<notin> conventional_frames (map (load_desc m) xs)) \<and>
    last_hit s' = release_hint (map (load_desc m) xs) (last_hit s)"
  using assms
proof (induction xs arbitrary: s)
  case Nil
  then show ?case by (simp add: conventional_frames_def release_hint_def)
next
  case (Cons a xs)
  let ?d = "load_desc m a"
  have d: "load_desc (phys s) a = ?d"
    by (rule load_desc_cong) (use Cons.prems(1,3) in \<open>simp add: boot_frame_def\<close>)
  have cf: "conventional_frames (map (load_desc m) (a # xs)) =
      (if is_conventional ?d then frames_from (physicalstart ?d) (unat (numberofpages ?d)) else {}) \<union>
      conventional_frames (map (load_desc m) xs)"
    by (auto simp: conventional_frames_def)
  have rest: "\<And>a i. a \<in> set xs \<Longrightarrow> i < 40 \<Longrightarrow> a + of_nat i \<notin> bitmap_bytes b"
    "\<And>d. d \<in> load_desc m ` set xs \<Longrightarrow> is_conventional d \<Longrightarrow> unat (numberofpages d) \<le> 524288"
    using Cons.prems(3,4) by auto
  show ?case
  proof (cases "is_conventional ?d")
    case False
    obtain s' where s': "mfold release_desc xs s = Inr s'" "boot_frame m b s'" "counters_exact s'"
        "\<And>j. frame_used s' j \<longleftrightarrow> frame_used s j \<and> j \<notin> conventional_frames (map (load_desc m) xs)"
        "last_hit s' = release_hint (map (load_desc m) xs) (last_hit s)"
      using Cons.IH [OF Cons.prems(1,2) rest] by blast
    have "mfold release_desc (a # xs) s = Inr s'"
      using s'(1) False by (simp add: release_desc_def d)
    moreover have "last_hit s' = release_hint (map (load_desc m) (a # xs)) (last_hit s)"
      using s'(5) False by (simp add: release_hint_def)
    ultimately show ?thesis
      unfolding cf using s'(2-4) False by (intro exI [of _ s'] conjI) simp_all
  next
    case True
    have wf: "bitmap_wf s" using Cons.prems(1) by (simp add: boot_frame_def)
    obtain t where t: "ppa_ursvn (physicalstart ?d) (numberofpages ?d) s = Inr t"
        "\<And>j. frame_used t j \<longleftrightarrow>
          frame_used s j \<and> j \<notin> frames_from (physicalstart ?d) (unat (numberofpages ?d))"
        "last_hit t = physicalstart ?d div 4096"
      by (rule ppa_ursvn_result [OF wf, where a = "physicalstart ?d" and n = "numberofpages ?d"])
        (use Cons.prems(4) True in auto)
    have "boot_frame m b t" by (rule boot_frame_ursvn [OF t(1) Cons.prems(1)])
    moreover have "counters_exact t" using counters_exact_ursvn [OF wf Cons.prems(2) t(1)] by simp
    ultimately obtain s' where s': "mfold release_desc xs t = Inr s'" "boot_frame m b s'"
        "counters_exact s'"
        "\<And>j. frame_used s' j \<longleftrightarrow> frame_used t j \<and> j \<notin> conventional_frames (map (load_desc m) xs)"
        "last_hit s' = release_hint (map (load_desc m) xs) (last_hit t)"
      using Cons.IH [of t] rest by blast
    have "mfold release_desc (a # xs) s = Inr s'"
      using t(1) s'(1) True by (simp add: release_desc_def d)
    moreover have "last_hit s' = release_hint (map (load_desc m) (a # xs)) (last_hit s)"
      using s'(5) True by (simp add: t(3) release_hint_def)
    ultimately show ?thesis
      unfolding cf using s'(2-4) True by (intro exI [of _ s'] conjI) (simp_all add: t(2))
  qed
qed

section \<open>The whole of \<open>ppa_init\<close>\<close>

lemma boot_scan:
  assumes "0 < mmap_desc_size" and "total_frames (map_descs m mmap mmap_size mmap_desc_size) < 2 ^ 52"
    and "largest_segment (map_descs m mmap mmap_size mmap_desc_size) = Some seg"
  shows "mmap_fold (\<lambda>desc acc. Inr (scan_desc m desc acc)) mmap 0 (unat mmap_size)
      (unat mmap_desc_size) (0, 0, 0) =
    Inr (of_nat (4096 * total_frames (map_descs m mmap mmap_size mmap_desc_size)),
      physicalstart seg, numberofpages seg * 4096)"
proof -
  let ?xs = "mmap_addrs mmap mmap_size mmap_desc_size"
  have sum: "total_frames (map_descs m mmap mmap_size mmap_desc_size) =
      (\<Sum>a\<leftarrow>?xs. unat (numberofpages (load_desc m a)))"
    by (simp add: total_frames_def map_descs_def comp_def)
  have "fold (scan_desc m) ?xs (0, 0, 0) =
      (of_nat (4096 * (0 + (\<Sum>a\<leftarrow>?xs. unat (numberofpages (load_desc m a))))),
       physicalstart seg, numberofpages seg * 4096)"
    by (subst scan_fold [where best = None and t = 0])
      (use assms(2) [unfolded sum] assms(3) [unfolded largest_segment_def map_descs_def]
        in simp_all)
  then show ?thesis
    by (subst mmap_fold_addrs [OF assms(1)])
      (simp add: mfold_pure [where g = "scan_desc m"] sum del: of_nat_mult)
qed

lemma bitmap_pages_word:
  assumes "T < 2 ^ 35"
  shows "unat (of_nat (T div 32 + 1) div 1024 +
    (if of_nat (T div 32 + 1) mod 1024 \<noteq> (0 :: u64) then 1 else 0) :: u64) = bitmap_pages T"
proof -
  define w :: u64 where "w = of_nat (T div 32 + 1)"
  have w: "unat w = T div 32 + 1"
    unfolding w_def by (rule unat_of_nat_small) (use assms in simp)
  have m: "w mod 1024 = 0 \<longleftrightarrow> (T div 32 + 1) mod 1024 = 0"
    by (simp add: word_unat_eq_iff unat_mod_distrib w)
  have d: "unat (w div 1024) = (T div 32 + 1) div 1024" by (simp add: unat_div_distrib w)
  have "unat (w div 1024 + (if w mod 1024 \<noteq> 0 then 1 else 0)) =
      (T div 32 + 1) div 1024 + (if (T div 32 + 1) mod 1024 \<noteq> 0 then 1 else 0)"
  proof (cases "w mod 1024 = 0")
    case True
    then show ?thesis using m d by simp
  next
    case False
    have "unat (w div 1024) + unat (1 :: u64) < 2 ^ LENGTH(64)" using d assms by simp
    from unat_plus_nowrap [OF this] show ?thesis using False m d by simp
  qed
  then show ?thesis by (simp only: w_def bitmap_pages_def Let_def)
qed

lemma bitmap_pages_cover: "T div 32 + 1 \<le> 1024 * bitmap_pages T"
proof -
  define w where "w = T div 32 + 1"
  have "w = 1024 * (w div 1024) + w mod 1024" by simp
  moreover have "w mod 1024 < 1024" by simp
  ultimately have "w \<le> 1024 * (w div 1024 + (if w mod 1024 \<noteq> 0 then 1 else 0))"
    by (cases "w mod 1024 = 0") auto
  then show ?thesis by (simp only: bitmap_pages_def Let_def w_def)
qed

lemma boot_bitmap_frames:
  assumes "page_aligned (physicalstart seg)" and "T < 2 ^ 35"
    and "unat (physicalstart seg) div 4096 + bitmap_pages T \<le> T"
    and "x \<in> bitmap_bytes (boot_bitmap T seg)"
  shows "unat x div 4096 \<in> {unat (physicalstart seg) div 4096 ..<
    unat (physicalstart seg) div 4096 + bitmap_pages T}"
proof -
  define r where "r = x - physicalstart seg"
  have w: "unat (of_nat (T div 32 + 1) :: u64) = T div 32 + 1"
    by (rule unat_of_nat_small) (use assms(2) in simp)
  have r: "unat r < 4 * (T div 32 + 1)"
    using assms(4) unfolding bitmap_bytes_def boot_bitmap_def mem_Collect_eq Bitmap.simps w r_def .
  also have "\<dots> \<le> 4 * (1024 * bitmap_pages T)"
    by (rule mult_le_mono2) (rule bitmap_pages_cover)
  also have "\<dots> = 4096 * bitmap_pages T" by simp
  finally have rb: "unat r < 4096 * bitmap_pages T" .
  obtain f where f: "unat (physicalstart seg) = 4096 * f"
  proof -
    have "take_bit 12 (unat (physicalstart seg)) = 0"
      by (metis assms(1) page_aligned_def unsigned_0 unsigned_take_bit_eq)
    then have "4096 dvd unat (physicalstart seg)" by (simp add: take_bit_eq_mod mod_0_imp_dvd)
    then show thesis using that by (auto elim: dvdE)
  qed
  have "unat (physicalstart seg) + unat r < 2 ^ LENGTH(64)"
    using f rb assms(2,3) by simp
  from unat_plus_nowrap [OF this] have "unat x = 4096 * f + unat r"
    by (simp add: r_def f)
  moreover have "unat r div 4096 < bitmap_pages T" using rb by (simp add: less_mult_imp_div_less)
  ultimately show ?thesis by (simp add: f div_add)
qed

text \<open>The frames \<open>ppa_init\<close> leaves taken.\<close>

definition boot_taken :: "EfiMemoryDescriptor list \<Rightarrow> EfiMemoryDescriptor \<Rightarrow> nat \<Rightarrow> bool" where
  "boot_taken ds seg j \<longleftrightarrow> j < total_frames ds \<and>
     (j < 256 \<or> j \<notin> conventional_frames ds \<or>
      j \<in> {unat (physicalstart seg) div 4096 ..<
           unat (physicalstart seg) div 4096 + bitmap_pages (total_frames ds)})"

lemma ppa_init_boot:
  assumes init: "ppa_initialized s = 0" and hit: "last_hit s = 0" and stride: "0 < mmap_desc_size"
    and ds: "ds = map_descs (phys s) mmap mmap_size mmap_desc_size"
    and fits: "fits_machine ds" and seg: "largest_segment ds = Some seg"
    and room: "fits_bitmap ds (mmap_addrs mmap mmap_size mmap_desc_size) seg"
  obtains s' where "ppa_init mmap mmap_size mmap_desc_size s = Inr s'"
    and "ppa_initialized s' = 1" and "frames_limit s' = total_frames ds"
    and "ppa_bitmap s' = boot_bitmap (total_frames ds) seg"
    and "allocator_ready s'" and "exact_state s'"
    and "\<And>j. frame_used s' j \<longleftrightarrow> boot_taken ds seg j"
    and "\<And>x. x \<notin> bitmap_bytes (boot_bitmap (total_frames ds) seg) \<Longrightarrow> phys s' x = phys s x"
    and "last_hit s' = release_hint ds 0" and "around (of_nat (4096 * total_frames ds)) (ppa.more s) s'"
proof -
  let ?T = "total_frames ds"
  let ?b = "boot_bitmap ?T seg"
  let ?xs = "mmap_addrs mmap mmap_size mmap_desc_size"
  define total :: u64 where "total = of_nat (4096 * ?T)"
  have T: "256 \<le> ?T" "?T < 2 ^ 35" using fits by (simp_all add: fits_machine_def)
  have ut: "unat total = 4096 * ?T"
    unfolding total_def by (rule unat_of_nat_small) (use T in simp)
  have up: "unat (total div 4096) = ?T" by (simp add: unat_div_distrib ut)
  have scan: "mmap_fold (\<lambda>desc acc. Inr (scan_desc (phys s) desc acc)) mmap 0 (unat mmap_size)
      (unat mmap_desc_size) (0, 0, 0) = Inr (total, physicalstart seg, numberofpages seg * 4096)"
    unfolding total_def ds
    by (rule boot_scan [OF stride]) (use T seg in \<open>simp_all add: ds\<close>)
  have segin: "seg \<in> set ds" "is_conventional seg"
    using largest_segment_is [OF seg] by simp_all
  have segfit: "page_aligned (physicalstart seg)"
      "unat (physicalstart seg) div 4096 + unat (numberofpages seg) \<le> ?T"
      "unat (physicalstart seg) div 4096 + bitmap_pages ?T \<le> ?T"
    using fits room segin by (fastforce simp: fits_machine_def fits_bitmap_def)+
  define s0 where "s0 = s\<lparr>mem_used := 0, mem_rsvd := 0, mem_total := total, mem_free := total\<rparr>"
  obtain s1 where s1: "ppa_init_bitmap (physicalstart seg) (total div 4096) s0 = Inr s1"
      "boot_frame (phys s0) ?b s1" "\<And>j. \<not> frame_used s1 j" "frames_limit s1 = ?T"
      "mem_used s1 = mem_used s0" "mem_rsvd s1 = mem_rsvd s0" "mem_free s1 = mem_free s0"
      "last_hit s1 = last_hit s0" "mem_total s1 = mem_total s0" "ppa.more s1 = ppa.more s0"
    by (rule ppa_init_bitmap_result [OF up, of "physicalstart seg" s0])
      (use T in \<open>auto simp: boot_bitmap_def\<close>)
  have e1: "exact_state s1"
    using s1(2-7) by (simp add: exact_state_def boot_frame_def counters_exact_def s0_def total_def)
  define s2 where "s2 = ppa_rsvn 0 (total div 4096) s1"
  have f0: "frames_from 0 n = {0..<n}" if "4096 * n \<le> 2 ^ 64" for n
    using frames_from_nowrap [of 0 n] that by simp
  have fT: "frames_from 0 (unat (total div 4096)) = {0..<?T}"
    unfolding up by (rule f0) (use T in simp)
  have b2: "boot_frame (phys s0) ?b s2" unfolding s2_def by (rule boot_frame_rsvn [OF s1(2)])
  have e2: "exact_state s2"
    unfolding s2_def by (rule exact_state_ranges(2) [OF e1]) (simp add: fT s1(4) atLeast0LessThan)
  have u2: "frame_used s2 j \<longleftrightarrow> j < ?T" for j
    using e1 s1(3,4) by (simp add: s2_def ppa_rsvn_def rsv.used_page_loop exact_state_def fT)
  have keep: "last_hit (ppa_rsvn a n t) = last_hit t" "last_hit (ppa_lckn a n t) = last_hit t"
      "ppa_bitmap (ppa_rsvn a n t) = ppa_bitmap t" for a n and t :: "'a ppa_scheme"
    unfolding ppa_rsvn_def ppa_lckn_def
    by (rule page_loop_inv; simp add: frame_op_cases Let_def frame_simps)+
  have h2: "last_hit s2 = 0" by (simp add: s2_def keep s1(8) s0_def hit)
  have descs: "load_desc (phys s0) ` set ?xs = set ds" by (simp add: ds map_descs_def s0_def)
  have m0: "map (load_desc (phys s0)) ?xs = ds" by (simp add: ds map_descs_def s0_def)
  obtain s3 where s3: "mfold release_desc ?xs s2 = Inr s3" "boot_frame (phys s0) ?b s3"
      "counters_exact s3" "\<And>j. frame_used s3 j \<longleftrightarrow> frame_used s2 j \<and> j \<notin> conventional_frames ds"
      "last_hit s3 = release_hint ds (last_hit s2)"
    using release_fold [OF b2, of ?xs] e2 room fits
    unfolding descs m0 exact_state_def fits_bitmap_def fits_machine_def by blast
  have lim3: "frames_limit s3 = ?T"
    using boot_frame_limit [OF s3(2)] boot_frame_limit [OF s1(2)] s1(4) by simp
  have e3: "exact_state s3" using s3(2,3) by (simp add: exact_state_def boot_frame_def)
  define s4 where "s4 = ppa_rsvn 0 0x100 s3"
  have f256: "frames_from 0 (unat (0x100 :: u64)) = {0..<256}" by (simp add: f0)
  have e4: "exact_state s4"
    unfolding s4_def by (rule exact_state_ranges(2) [OF e3]) (use T in \<open>auto simp: f0 lim3\<close>)
  have b4: "boot_frame (phys s0) ?b s4" unfolding s4_def by (rule boot_frame_rsvn [OF s3(2)])
  have lim4: "frames_limit s4 = ?T" by (simp add: s4_def ppa_rsvn_def rsv.limit_page_loop lim3)
  define bp :: u64 where "bp = bm_size ?b div 1024 + (if bm_size ?b mod 1024 \<noteq> 0 then 1 else 0)"
  have ubp: "unat bp = bitmap_pages ?T"
    unfolding bp_def boot_bitmap_def Bitmap.simps by (rule bitmap_pages_word) (use T in simp)
  define s5 where "s5 = ppa_lckn (physicalstart seg) bp s4"
  have fseg: "frames_from (physicalstart seg) (unat bp) = {unat (physicalstart seg) div 4096 ..<
      unat (physicalstart seg) div 4096 + bitmap_pages ?T}"
    unfolding ubp
  proof (rule frames_from_nowrap)
    have "unat (physicalstart seg) < 4096 * (unat (physicalstart seg) div 4096) + 4096" by simp
    with segfit(3) T(2) show "unat (physicalstart seg) + 4096 * bitmap_pages ?T \<le> 2 ^ 64" by simp
  qed
  have e5: "exact_state s5"
    unfolding s5_def by (rule exact_state_ranges(1) [OF e4]) (use segfit(3) in \<open>auto simp: fseg lim4\<close>)
  have b5: "boot_frame (phys s0) ?b s5" unfolding s5_def by (rule boot_frame_lckn [OF b4])
  have lim5: "frames_limit s5 = ?T" by (simp add: s5_def ppa_lckn_def lck.limit_page_loop lim4)
  have u5: "frame_used s5 j \<longleftrightarrow> boot_taken ds seg j" for j
    using e4 e3 by (auto simp: s5_def s4_def ppa_lckn_def ppa_rsvn_def lck.used_page_loop
        rsv.used_page_loop rsv.limit_page_loop rsv.wf_page_loop fseg f0 lim3 exact_state_def
        s3(4) u2 boot_taken_def)
  have bm: "ppa_bitmap s1 = ?b" "ppa_bitmap s4 = ?b" "ppa_bitmap s5 = ?b"
    using s1(2) b4 b5 by (simp_all add: boot_frame_def)
  have data: "bm_data ?b = physicalstart seg" by (simp add: boot_bitmap_def)
  have release: "mmap_fold release_desc mmap 0 (unat mmap_size) (unat mmap_desc_size) s2 = Inr s3"
    by (subst mmap_fold_addrs [OF stride]) (rule s3(1))
  have nz: "physicalstart seg \<noteq> 0" using room by (simp add: fits_bitmap_def)
  have run: "ppa_init mmap mmap_size mmap_desc_size s = Inr (s5\<lparr>ppa_initialized := 1\<rparr>)"
    by (simp only: ppa_init_def init scan rbind_simps prod.case Let_def s0_def [symmetric] nz if_False
        s1(1) s2_def [symmetric] release s4_def [symmetric] bm data bp_def [symmetric] s5_def [symmetric]
        not_True_eq_False not_False_eq_True) simp
  have h5: "last_hit s5 = last_hit s3" by (simp add: s5_def s4_def keep)
  have "unat (last_hit s3) \<le> ?T"
  proof -
    have "unat (physicalstart d div 4096) \<le> ?T" if "d \<in> set ds" "is_conventional d" for d
      using that fits by (auto simp: fits_machine_def unat_div_distrib dest!: bspec)
    then show ?thesis using s3(5) h2 release_hint_in [of ds 0] by auto
  qed
  moreover have sz: "unat (bm_size ?b) = ?T div 32 + 1"
    using e5 lim5 bm(3) by (simp add: exact_state_def bitmap_wf_def)
  ultimately have "unat (last_hit s5) div 32 < unat (bm_size ?b)"
    by (simp add: h5 less_Suc_eq_le div_le_mono)
  moreover have "frame_used s5 (unat x div 4096)" if "x \<in> bitmap_bytes ?b" for x
    using boot_bitmap_frames [OF segfit(1) T(2) segfit(3) that] segfit(3)
    by (auto simp: u5 boot_taken_def)
  ultimately have "allocator_ready s5"
    using e5 by (simp add: allocator_ready_def bm(3) exact_state_def)
  then have ready: "allocator_ready (s5\<lparr>ppa_initialized := 1\<rparr>)"
    by (simp add: allocator_ready_def)
  have exact: "exact_state (s5\<lparr>ppa_initialized := 1\<rparr>)"
    using e5 by (simp add: exact_state_def counters_exact_def)
  have "phys s5 x = phys s x" if "x \<notin> bitmap_bytes ?b" for x
    using b5 that by (simp add: boot_frame_def s0_def)
  moreover have "around total (ppa.more s) s1" using s1(9,10) by (simp add: around_def s0_def)
  then have "around total (ppa.more s) s5"
    unfolding s5_def s4_def by (intro around_ranges around_release [OF s3(1)]) (simp add: s2_def around_ranges)
  then have "around total (ppa.more s) (s5\<lparr>ppa_initialized := 1\<rparr>)" by (simp add: around_def)
  ultimately show thesis using run ready exact
    by (intro that [of "s5\<lparr>ppa_initialized := 1\<rparr>"])
      (simp_all add: lim5 bm(3) u5 h5 s3(5) h2 total_def del: of_nat_mult)
qed

end
