(* ===== verification/KernelStart.thy ===== *)
theory KernelStart
  imports KernelMapping KernelRunning BootFrames
begin

text \<open>
  What the steps of \<open>init_kernel\<close> leave to each other: frames locked on top of those \<open>ppa_init\<close> left taken,
  the fields the mapping loops do not touch, the interrupt table in a page of its own, and a mapping
  that outlives later requests; and the outcome of the whole.
\<close>

section \<open>Locked frames\<close>

lemma lckn_fields:
  "ppa_bitmap (ppa_lckn a n s) = ppa_bitmap s" "last_hit (ppa_lckn a n s) = last_hit s"
  "frames_limit (ppa_lckn a n s) = frames_limit s"
  "mem_total (ppa_lckn a n s) = mem_total s" "ppa.more (ppa_lckn a n s) = ppa.more s"
  unfolding ppa_lckn_def by (rule page_loop_inv; simp add: frame_simps)+

lemma lckn_allocator:
  assumes "allocator_ready s"
  shows "allocator_ready (ppa_lckn a n s)"
    and "frame_used (ppa_lckn a n s) j \<longleftrightarrow> frame_used s j \<or> j < frames_limit s \<and> j \<in> frames_from a (unat n)"
    and "frames_ahead (ppa_lckn a n s) = frames_ahead s - frames_from a (unat n)"
    and "x \<notin> bitmap_bytes (ppa_bitmap s) \<Longrightarrow> phys (ppa_lckn a n s) x = phys s x"
proof -
  have wf: "bitmap_wf s" using assms by (simp add: allocator_ready_def)
  show used: "frame_used (ppa_lckn a n s) j \<longleftrightarrow>
      frame_used s j \<or> j < frames_limit s \<and> j \<in> frames_from a (unat n)" for j
    using lck.used_page_loop [OF wf, of "unat n" a j] by (auto simp: ppa_lckn_def)
  show "frames_ahead (ppa_lckn a n s) = frames_ahead s - frames_from a (unat n)"
    by (auto simp: frames_ahead_def used lckn_fields)
  have "bitmap_wf (ppa_lckn a n s) \<and> tail_clear (ppa_lckn a n s)"
    unfolding ppa_lckn_def
    by (rule page_loop_inv)
      (use assms in \<open>auto simp: allocator_ready_def lck.wf_step tail_clear_ops\<close>)
  then show "allocator_ready (ppa_lckn a n s)"
    using assms by (auto simp: allocator_ready_def used lckn_fields)
  show "phys (ppa_lckn a n s) x = phys s x" if x: "x \<notin> bitmap_bytes (ppa_bitmap s)"
  proof -
    have "bitmap_wf t \<and> ppa_bitmap t = ppa_bitmap s \<and> phys t x = phys s x"
      if "t = ppa_lckn a n s" for t
      unfolding that ppa_lckn_def
      by (rule page_loop_inv)
        (use wf x in \<open>auto simp: lck.wf_step ppa_lck_phys frame_simps\<close>)
    then show ?thesis by blast
  qed
qed

section \<open>A mapping outlives later requests\<close>

text \<open>The pages handed out are still handed out, and hold what they held.\<close>

definition keeps_clients :: "'a ppa_scheme \<Rightarrow> 'a ppa_scheme \<Rightarrow> bool" where
  "keeps_clients s s' \<longleftrightarrow> (\<forall>q. client_page s q \<longrightarrow>
     client_page s' q \<and> (\<forall>x. page_of x = q \<longrightarrow> phys s' x = phys s x))"

lemma keeps_clients_trans: "keeps_clients s s1 \<Longrightarrow> keeps_clients s1 s2 \<Longrightarrow> keeps_clients s s2"
  unfolding keeps_clients_def by metis

lemma walk_later:
  assumes ready: "pmm_ready s" and keep: "keeps_clients s s'" and "k \<le> 4"
  shows "pt_walk (table_entry (phys s')) (PML4 s) k w = pt_walk (table_entry (phys s)) (PML4 s) k w"
  using assms(3)
proof (induction k)
  case (Suc k)
  have tree: "tables_tree (client_page s) (table_entry (phys s)) (PML4 s)"
    using ready by (simp add: pmm_ready_def pmm_tables_def)
  show ?case
  proof (cases "pt_walk (table_entry (phys s)) (PML4 s) k w")
    case (Some t)
    have own: "client_page s t" using tables_tree_own [OF tree _ Some] Suc.prems by simp
    have "table_entry (phys s') t (level_index k w) = table_entry (phys s) t (level_index k w)"
      by (rule table_entry_cong [OF client_page_aligned [OF own] level_index_small])
        (use keep own in \<open>auto simp: keeps_clients_def\<close>)
    then show ?thesis using Suc Some by (simp add: pt_walk_Suc)
  qed (use Suc in \<open>simp add: pt_walk_Suc\<close>)
qed simp

lemma data_page_later:
  assumes "pmm_ready s" and "PML4 s' = PML4 s" and "keeps_clients s s'" and "data_page s (PML4 s) q"
  shows "data_page s' (PML4 s') q"
  using assms(3,4) walk_later [OF assms(1,3)] by (simp add: data_page_def keeps_clients_def assms(2))

lemma identity_map_later:
  assumes id: "identity_map s V" and ready: "allocator_ready s'" and root: "PML4 s' = PML4 s"
    and keep: "keeps_clients s s'"
  shows "identity_map s' V"
proof -
  note walk = walk_later [OF identity_mapD(1) [OF id] keep]
  have tree: "tables_tree (client_page s) (table_entry (phys s)) (PML4 s)"
    using identity_mapD(1) [OF id] by (simp add: pmm_ready_def pmm_tables_def)
  have "tables_tree (client_page s') (table_entry (phys s')) (PML4 s)"
    unfolding tables_tree_def
  proof (intro conjI allI impI)
    fix k v t
    assume k: "k \<le> 3" and w: "pt_walk (table_entry (phys s')) (PML4 s) k v = Some t"
    then have "client_page s t" using tables_tree_own [OF tree k] walk [of k v] by simp
    then show "client_page s' t" using keep by (simp add: keeps_clients_def)
  next
    fix k j v w t
    assume "k \<le> 3" "j \<le> 3" "pt_walk (table_entry (phys s')) (PML4 s) k v = Some t"
      "pt_walk (table_entry (phys s')) (PML4 s) j w = Some t"
    then have "k = j \<and> same_path k v w"
      by (intro tables_tree_unique [OF tree]) (simp_all add: walk)
    then show "k = j" "same_path k v w" by blast+
  qed
  then have "pmm_ready s'" using ready by (simp add: pmm_ready_def pmm_tables_def root)
  then show ?thesis
    using id by (simp add: identity_map_def root walk)
qed

section \<open>Bitmap, total and the sum of the counters\<close>

text \<open>What every step on frames keeps once the bitmap is set up.\<close>

definition steady :: "'a ppa_scheme \<Rightarrow> 'a ppa_scheme \<Rightarrow> bool" where
  "steady s s' \<longleftrightarrow> ppa_bitmap s' = ppa_bitmap s \<and> mem_total s' = mem_total s \<and>
     (accounted s \<longrightarrow> accounted s')"

lemma steady_refl: "steady s s"
  by (simp add: steady_def)

lemma steady_trans: "steady s s1 \<Longrightarrow> steady s1 s2 \<Longrightarrow> steady s s2"
  by (simp add: steady_def)

lemma steady_same:
  "ppa_bitmap s' = ppa_bitmap s \<Longrightarrow> mem_total s' = mem_total s \<Longrightarrow> mem_used s' = mem_used s \<Longrightarrow>
    mem_rsvd s' = mem_rsvd s \<Longrightarrow> mem_free s' = mem_free s \<Longrightarrow> steady s s'"
  by (simp add: steady_def accounted_def)

lemma steady_request: "steady s (snd (ppa_request s))"
proof -
  have "ppa_bitmap (snd (ppa_request s)) = ppa_bitmap s" "mem_total (snd (ppa_request s)) = mem_total s"
    by (simp_all add: ppa_request_def frame_simps split: option.split)
  then show ?thesis using accounted_request by (auto simp: steady_def)
qed

lemma steady_next_table: "steady s (snd (next_table t i s))"
proof (cases "pmm_flag_get (table_entry (phys s) t i) PDE_P = 0")
  case True
  obtain sub s1 where req: "ppa_request s = (sub, s1)" by fastforce
  have "steady s1 (snd (next_table t i s))" using True by (intro steady_same) (simp_all add: next_table_def req Let_def)
  then show ?thesis using steady_trans [OF steady_request] by (metis req snd_conv)
next
  case False
  then show ?thesis by (simp add: next_table_def Let_def steady_refl)
qed

lemma steady_map: "steady s (pmm_map_memory v p s)"
proof -
  obtain a s1 where 1: "next_table (PML4 s) (vindex 39 v) s = (a, s1)" by fastforce
  obtain b s2 where 2: "next_table a (vindex 30 v) s1 = (b, s2)" by fastforce
  obtain c s3 where 3: "next_table b (vindex 21 v) s2 = (c, s3)" by fastforce
  have "steady s s3"
    using steady_next_table [of s "PML4 s" "vindex 39 v"] steady_next_table [of s1 a "vindex 30 v"]
      steady_next_table [of s2 b "vindex 21 v"] steady_trans by (metis 1 2 3 snd_conv)
  moreover have "steady s3 (pmm_map_memory v p s)"
    by (intro steady_same) (simp_all add: pmm_map_memory_def 1 2 3 Let_def)
  ultimately show ?thesis by (rule steady_trans)
qed

lemma steady_map_loop: "map_loop limit a s = Inr s' \<Longrightarrow> steady s s'"
proof (induction limit a s rule: map_loop.induct)
  case (1 limit a s)
  then show ?case
    by (subst (asm) (2) map_loop.simps)
      (auto simp: Let_def split: if_splits intro: steady_refl steady_trans [OF steady_map])
qed

lemma steady_init_pmm:
  assumes "init_pmm base sz s = Inr s'"
  shows "steady s s'"
proof -
  obtain root s1 where req: "ppa_request s = (root, s1)" by fastforce
  define s2 where "s2 = s1\<lparr>phys := fst (ppa_memset root 0 4096 (phys s1)), PML4 := root\<rparr>"
  obtain s3 s4 where s3: "map_loop ppa_get_mem_total 0 s2 = Inr s3"
    and s4: "map_loop (\<lambda>_. base + sz) base s3 = Inr s4" and s': "s' = set_pml4 root s4"
    using assms by (auto simp: init_pmm_def req pmm_init_pml4_def s2_def Let_def rbind_eq_Inr)
  have "steady s s1" using steady_request [of s] by (simp add: req)
  moreover have "steady s1 s2" "steady s4 s'" by (intro steady_same; simp add: s2_def s' set_pml4_def)+
  ultimately show ?thesis using steady_map_loop [OF s3] steady_map_loop [OF s4] steady_trans by metis
qed

lemma steady_lckn: "steady s (ppa_lckn a n s)"
  using accounted_ranges(1) [of s a n] by (auto simp: steady_def lckn_fields)

section \<open>What the mapping loops do not touch\<close>

lemma pmm_more_ppa: "ppa.more s = ppa.more s' \<Longrightarrow> pmm.more s = pmm.more s'"
  by (cases s, cases s') simp

lemma ppa_request_more: "ppa.more (snd (ppa_request s)) = ppa.more s"
  by (simp add: ppa_request_def frame_simps split: option.split)

lemma next_table_more: "ppa.more (snd (next_table t i s)) = ppa.more s"
  using ppa_request_more [of s] by (auto simp: next_table_def Let_def split: prod.split)

lemma pmm_map_memory_more: "ppa.more (pmm_map_memory v p s) = ppa.more s"
proof -
  obtain a s1 where 1: "next_table (PML4 s) (vindex 39 v) s = (a, s1)" by fastforce
  obtain b s2 where 2: "next_table a (vindex 30 v) s1 = (b, s2)" by fastforce
  obtain c s3 where 3: "next_table b (vindex 21 v) s2 = (c, s3)" by fastforce
  have "ppa.more s3 = ppa.more s"
    using next_table_more [of "PML4 s" "vindex 39 v" s] next_table_more [of a "vindex 30 v" s1]
      next_table_more [of b "vindex 21 v" s2] by (simp add: 1 2 3)
  then show ?thesis by (simp add: pmm_map_memory_def 1 2 3 Let_def)
qed

lemma map_loop_more: "map_loop limit a s = Inr s' \<Longrightarrow> ppa.more s' = ppa.more s"
proof (induction limit a s rule: map_loop.induct)
  case (1 limit a s)
  then show ?case
    by (subst (asm) (2) map_loop.simps) (auto simp: Let_def pmm_map_memory_more split: if_splits)
qed

definition untouched :: "kernel \<Rightarrow> kernel \<Rightarrow> bool" where
  "untouched s s' \<longleftrightarrow> con s' = con s \<and> tty s' = tty s \<and> GDTR s' = GDTR s \<and> cpu_gdt s' = cpu_gdt s \<and>
     cpu_cs s' = cpu_cs s \<and> cpu_ds s' = cpu_ds s"

lemma untouched_more: "pmm.more s' = pmm.more s \<Longrightarrow> untouched s s'"
  unfolding untouched_def by (cases s, cases s') simp

lemma init_pmm_untouched:
  assumes "init_pmm base sz s = Inr s'"
  shows "untouched s s'"
proof -
  obtain root s1 where req: "ppa_request s = (root, s1)" by fastforce
  define s2 where "s2 = s1\<lparr>phys := fst (ppa_memset root 0 4096 (phys s1)), PML4 := root\<rparr>"
  obtain s3 s4 where s3: "map_loop ppa_get_mem_total 0 s2 = Inr s3"
    and s4: "map_loop (\<lambda>_. base + sz) base s3 = Inr s4" and s': "s' = set_pml4 root s4"
    using assms by (auto simp: init_pmm_def req pmm_init_pml4_def s2_def Let_def rbind_eq_Inr)
  have "pmm.more s1 = pmm.more s" using ppa_request_more [of s] by (intro pmm_more_ppa) (simp add: req)
  moreover have "pmm.more s2 = pmm.more s1" by (simp add: s2_def)
  moreover have "pmm.more s4 = pmm.more s2"
    using map_loop_more [OF s3] map_loop_more [OF s4] by (intro pmm_more_ppa) simp
  ultimately have "untouched s s4" by (intro untouched_more) simp
  then show ?thesis by (simp add: s' set_pml4_def untouched_def)
qed

section \<open>The interrupt table\<close>

lemma request_page:
  assumes "allocator_ready s" and "0 < card (frames_ahead s)" and "ppa_request s = (p, s1)"
  shows "page_aligned p" and "\<not> client_page s p" and "client_page s1 p" and "page_of x = p \<Longrightarrow> phys s1 x = phys s x"
proof -
  show al: "page_aligned p" using ppa.request_aligned [OF assms(1,2)] by (simp add: assms(3))
  show "\<not> client_page s p" using ppa.request_fresh [OF assms(1,2)] by (simp add: assms(3))
  show own: "client_page s1 p" using ppa.request_owned [OF assms(1,2), of p] by (simp add: assms(3))
  have ahead: "frames_ahead s \<noteq> {}" using assms(2) by (simp add: frames_ahead_pos)
  obtain i where i: "s1 = ppa_lck (of_nat (4096 * i)) (s\<lparr>last_hit := of_nat i\<rparr>)"
    using ppa_request_served [OF assms(1) ahead] assms(3) by (metis snd_conv)
  have bm: "ppa_bitmap s1 = ppa_bitmap s" by (simp add: i frame_simps)
  have wf: "bitmap_wf s" using assms(1) by (simp add: allocator_ready_def)
  show "phys s1 x = phys s x" if "page_of x = p"
  proof -
    have "x \<notin> bitmap_bytes (ppa_bitmap s)"
      using client_page_bitmap [OF own that] by (simp add: bm)
    then show ?thesis using wf by (simp add: i ppa_lck_phys)
  qed
qed

text \<open>The table after the five gates, from the memory before them.\<close>

definition handler_of :: "symbols \<Rightarrow> nat \<Rightarrow> u64 option" where
  "handler_of sy = [0xE \<mapsto> sym_PageFault sy, 0x8 \<mapsto> sym_DoubleFault sy,
     0xD \<mapsto> sym_GeneralProtectionFault sy, 0x20 \<mapsto> sym_Timer sy, 0x21 \<mapsto> sym_Keyboard sy]"

lemma gate_store:
  assumes "i < 256" and "n < 256"
  shows "load_idt_entry (store_idt_entry (a + of_nat n * 16) e m) (a + of_nat (16 * i)) =
    (if i = n then e else load_idt_entry m (a + of_nat (16 * i)))"
proof -
  have addr: "a + of_nat n * 16 = a + of_nat (16 * n)" by (simp add: mult.commute)
  show ?thesis
    unfolding addr using load_idt_entry_other [of i n a e m] load_store_idt_entry assms by auto
qed


text \<open>A gate is written within its page.\<close>

lemma gate_inside:
  assumes "page_aligned page" and "n < 256" and "page_of x \<noteq> page"
  shows "store_idt_entry (page + of_nat n * 16) e m x = m x"
proof (rule store_idt_entry_outside, rule notI)
  assume near: "unat (x - (page + of_nat n * 16)) < 16"
  define r where "r = x - (page + of_nat n * 16)"
  have n: "unat (of_nat n * 16 :: u64) = 16 * n"
    using unat_of_nat_small [of "16 * n", where 'a = 64] assms(2) by (simp add: mult.commute)
  have "unat (of_nat n * 16 + r) = 16 * n + unat r"
    using n near assms(2) by (subst unat_plus_nowrap) (simp_all add: r_def)
  then have "unat (of_nat n * 16 + r) < 4096" using near assms(2) by (simp add: r_def)
  from page_of_plus [OF assms(1) this] have "page_of x = page" by (simp add: r_def algebra_simps)
  with assms(3) show False by simp
qed

lemma pic_pit_serial:
  "\<exists>t. init_PIT 1000 (PIC_remap dev a b s) = Inr t \<and> ms_count t = 0 \<and>
     sent (events t) = sent (events s) \<and> print_buff t = print_buff s"
  by (simp add: init_PIT_def PIC_remap_def Let_def io_simps sent_def pic_defs
      outb_def io_wait_def inb_def clear_interrupts_def emit_def)

lemma idt_entry_kept:
  assumes "page_aligned page" and i: "i < 256" and same: "\<And>x. page_of x = page \<Longrightarrow> m' x = m x"
  shows "load_idt_entry m' (page + of_nat (16 * i)) = load_idt_entry m (page + of_nat (16 * i))"
proof (rule load_idt_entry_cong, rule same)
  fix q :: nat
  assume "q < 16"
  then have small: "16 * i + q < 4096" using i by simp
  then have "unat (of_nat (16 * i + q) :: u64) < 4096" by (subst unat_of_nat_small) simp_all
  from page_of_plus [OF assms(1) this]
  show "page_of (page + of_nat (16 * i) + of_nat q) = page" by (simp add: add.assoc)
qed

lemma handler_small: "handler_of sy i = Some h \<Longrightarrow> i < 256"
  by (auto simp: handler_of_def split: if_splits)

lemma init_idt_run:
  assumes "allocator_ready s" and "0 < card (frames_ahead s)"
  obtains s' page es where "init_idt dev sy s = Inr s'" and "page_aligned page" and "\<not> client_page s page"
    and "cpu_idt s' = \<lparr>idt_size = 4095, idt_offset = page\<rparr>"
    and "\<forall>i<256. load_idt_entry (phys s') (page + of_nat (16 * i)) =
       (case handler_of sy i of
          Some h \<Rightarrow> IDT_CREATE_ENTRY h 0x08 0 IDT_INTERRUPT_GATE
        | None \<Rightarrow> load_idt_entry (phys s) (page + of_nat (16 * i)))"
    and "events (tty s') = es @ [Out8 0x21 0xFC, Out8 0xA1 0xFF, Sti]" and "ms_count (tty s') = 0"
    and "sent (events (tty s')) = sent (events (tty s))" and "print_buff (tty s') = print_buff (tty s)"
    and "allocator_ready s'" and "keeps_clients s s'" and "PML4 s' = PML4 s"
    and "cpu_cr3 s' = cpu_cr3 s" and "untouched s (s'\<lparr>tty := tty s\<rparr>)"
    and "steady s s'" and "card (frames_ahead s) \<le> card (frames_ahead s') + 1"
    and "client_page s' page"
proof -
  obtain page s1 where req: "ppa_request s = (page, s1)" by fastforce
  note page = request_page [OF assms req]
  define g where "g n h = store_idt_entry (page + of_nat n * 16) (IDT_CREATE_ENTRY h 0x08 0 IDT_INTERRUPT_GATE)"
    for n h
  define m where "m = g 0x21 (sym_Keyboard sy) (g 0x20 (sym_Timer sy) (g 0xD (sym_GeneralProtectionFault sy)
    (g 0x8 (sym_DoubleFault sy) (g 0xE (sym_PageFault sy) (phys s1)))))"
  have g_other: "g n h mm x = mm x" if "page_of x \<noteq> page" and "n < 256" for n h mm x
    unfolding g_def by (rule gate_inside [OF page(1) that(2,1)])
  have m_other: "m x = phys s1 x" if "page_of x \<noteq> page" for x
    unfolding m_def by (simp add: g_other [OF that])
  have more: "ppa.more s1 = ppa.more s" using ppa_request_more [of s] by (simp add: req)
  have kernel: "untouched s s1" "tty s1 = tty s" "cpu_cr3 s1 = cpu_cr3 s"
    using pmm_more_ppa [OF more] untouched_more [of s1 s] by (auto intro: untouched_more; cases s1; cases s; simp)+
  obtain t where t: "init_PIT 1000 (PIC_remap dev 0x20 0x28 (tty s1)) = Inr t" "ms_count t = 0"
      "sent (events t) = sent (events (tty s))" "print_buff t = print_buff (tty s)"
    using pic_pit_serial [of dev "0x20" "0x28" "tty s1"] unfolding kernel(2) by blast
  define t' where "t' = enable_interrupts (outb PIC2_DATA 0xff (outb PIC1_DATA 0xfc t))"
  define s' where "s' = s1\<lparr>IDTR := \<lparr>idt_size = 0x0fff, idt_offset = page\<rparr>, phys := m,
    cpu_idt := \<lparr>idt_size = 0x0fff, idt_offset = page\<rparr>, tty := t'\<rparr>"
  have run: "init_idt dev sy s = Inr s'"
    using t(1) by (simp add: init_idt_def req idt_gate_def set_idt_def s'_def m_def g_def t'_def Let_def)
  have "load_idt_entry m (page + of_nat (16 * i)) =
      (case handler_of sy i of
         Some h \<Rightarrow> IDT_CREATE_ENTRY h 0x08 0 IDT_INTERRUPT_GATE
       | None \<Rightarrow> load_idt_entry (phys s1) (page + of_nat (16 * i)))" if "i < 256" for i
    unfolding m_def g_def using that by (simp only: gate_store handler_of_def) auto
  moreover have "load_idt_entry (phys s1) (page + of_nat (16 * i)) =
      load_idt_entry (phys s) (page + of_nat (16 * i))" if i: "i < 256" for i
    by (rule idt_entry_kept [OF page(1) i page(4)])
  ultimately have gates: "\<forall>i<256. load_idt_entry (phys s') (page + of_nat (16 * i)) =
       (case handler_of sy i of
          Some h \<Rightarrow> IDT_CREATE_ENTRY h 0x08 0 IDT_INTERRUPT_GATE
        | None \<Rightarrow> load_idt_entry (phys s) (page + of_nat (16 * i)))"
    by (simp add: s'_def split: option.split)
  have t': "events t' = events t @ [Out8 0x21 0xFC, Out8 0xA1 0xFF, Sti]" "ms_count t' = 0"
      "sent (events t') = sent (events (tty s))" "print_buff t' = print_buff (tty s)"
    using t(2-4)
    by (simp_all add: t'_def io_simps pic_defs enable_interrupts_def sent_def outb_def emit_def)
  have ready1: "allocator_ready s1" using ppa.request_ready [OF assms] by (simp add: req)
  have "m x = phys s1 x" if "x \<in> bitmap_bytes (ppa_bitmap s1)" for x
    using that client_page_bitmap [OF page(3), of x] m_other by blast
  note alloc = allocator_phys [OF ready1 this]
  have fields: "phys s' = phys (s1\<lparr>phys := m\<rparr>)" "ppa_bitmap s' = ppa_bitmap (s1\<lparr>phys := m\<rparr>)"
      "last_hit s' = last_hit (s1\<lparr>phys := m\<rparr>)" by (simp_all add: s'_def)
  note same = allocator_same [OF fields]
  have ready': "allocator_ready s'" by (simp add: same(1) alloc(2))
  have "keeps_clients s s'"
    unfolding keeps_clients_def
  proof (intro allI impI conjI)
    fix q
    assume q: "client_page s q"
    then show "client_page s' q"
      using ppa.request_owned [OF assms, of q] by (simp add: same(3) alloc(4) req)
    show "phys s' x = phys s x" if "page_of x = q" for x
    proof -
      have "page_of x \<noteq> page" using page(2) q that by blast
      then show ?thesis using m_other [of x] ppa.request_memory [OF assms, of x] q that
        by (simp add: s'_def req)
    qed
  qed
  moreover have "PML4 s' = PML4 s" using PML4_more [OF more] by (simp add: s'_def)
  moreover have "steady s s'"
    by (rule steady_trans [of s s1]) (use steady_request [of s] in \<open>simp_all add: req steady_same s'_def\<close>)
  moreover have "card (frames_ahead s) \<le> card (frames_ahead s') + 1"
    using ppa.request_available [OF assms] by (simp add: req same(2) alloc(3))
  moreover have "untouched s (s'\<lparr>tty := tty s\<rparr>)" "cpu_cr3 s' = cpu_cr3 s"
    using kernel by (simp_all add: untouched_def s'_def)
  moreover have "client_page s' page" using page(3) by (simp add: same(3) alloc(4))
  ultimately show thesis
    using page(1,2) gates t' ready' run by (intro that [of s' page "events t"]) (simp_all add: s'_def)
qed

section \<open>Translation\<close>

lemma page48_low:
  assumes "unat w < 2 ^ 48"
  shows "page48 w = page_of w"
proof (rule bit_word_eqI)
  fix n
  have "\<not> bit w n" if "48 \<le> n" using bit_small [OF assms that] .
  then show "bit (page48 w) n = bit (page_of w) n"
    by (cases "n < 48") (auto simp: page48_def bit_page_of bit_push_bit_iff bit_take_bit_iff bit_drop_bit_eq)
qed

lemma identity_translation:
  assumes "identity_map s V" and "V = pages_from 0 n \<union> pages_from base (base + sz)" and "unat w < 2 ^ 48"
  shows "pmm_find_paddr w s =
    (if page_of w < n \<or> base \<le> page_of w \<and> page_of w < base + sz then page_of w else 0)"
proof -
  have "page_of w \<in> V \<longleftrightarrow> page_of w < n \<or> base \<le> page_of w \<and> page_of w < base + sz"
    by (simp add: assms(2) pages_from_def)
  then show ?thesis
    using identity_mapD(5) [OF assms(1), of w] by (simp add: pmm_find_paddr_walk page48_low [OF assms(3)])
qed

section \<open>A line on the serial port\<close>

definition stamped :: "nat \<Rightarrow> string \<Rightarrow> u8 list" where
  "stamped ms str = map word_of_int (time_stamp ms) @ map of_char (str @ [CHR 0x0A])"

lemma literal_items:
  assumes "int (length str) + k \<le> INT_MAX" and "0 \<le> k"
  shows "items_output (map Lit str) [] k = Some (map sint str, k + int (length str))"
  using assms
proof (induction str arbitrary: k)
  case (Cons c str)
  have "INT_MIN \<le> k + 1" using Cons.prems(2) by (simp add: INT_MIN_def)
  with Cons.prems Cons.IH [of "k + 1"] show ?case by (simp add: algebra_simps)
qed simp

lemma literal_text: "format_text (map Lit bs) = bs"
  by (induction bs) (simp_all add: format_text_def)

lemma serial_line:
  assumes "keeps_showing dev 0x3FD 0x20" and "\<forall>c\<in>set str. of_char c \<notin> {0, 37 :: u8}"
    and "length str < 2 ^ 30"
    and "length (print_buff t) = 32" and "unat (ms_count t) < 2 ^ 31 * 1000"
  obtains t' where "serial_printf dev (line str) [] t = Some (Inr t')"
    and "sent (events t') = sent (events t) @ stamped (unat (ms_count t)) str"
    and "ms_count t' = ms_count t" and "length (print_buff t') = 32"
proof -
  define bs :: "u8 list" where "bs = map of_char (str @ [CHR 0x0A])"
  have l: "line str = format_text (map Lit bs) @ [0]"
    unfolding literal_text by (simp add: line_def lit_def bs_def)
  have ok: "item_ok x" if "x \<in> set (map Lit bs)" for x using that assms(2) by (auto simp: bs_def)
  have "int (length bs) + 0 \<le> INT_MAX" using assms(3) by (simp add: bs_def INT_MAX_def)
  then have o: "items_output (map Lit bs) [] 0 = Some (map sint bs, int (length bs))"
    using literal_items [of bs 0] by simp
  have "map word_of_int (map sint bs) = bs" by (simp add: map_idI)
  with serial_printf_runs [OF assms(1) o ok assms(4,5)] show thesis
    by (auto simp: l stamped_def bs_def intro: that)
qed


section \<open>Frames at the start\<close>

definition kernel_pages :: "symbols \<Rightarrow> u64" where
  "kernel_pages sy =
     (let kernel_size = sym_kernel_end sy - sym_kernel_start sy
      in kernel_size div 4096 + (if kernel_size mod 4096 \<noteq> 0 then 1 else 0))"

text \<open>The frames taken when the tables are built, those of them that hold the bitmap, and the free
  frames the search reaches.\<close>

definition start_taken ::
    "symbols \<Rightarrow> FrameBuffer \<Rightarrow> EfiMemoryDescriptor list \<Rightarrow> EfiMemoryDescriptor \<Rightarrow> nat \<Rightarrow> bool" where
  "start_taken sy b ds seg j \<longleftrightarrow> boot_taken ds seg j \<or>
     j < total_frames ds \<and> (j \<in> frames_from (sym_kernel_start sy) (unat (kernel_pages sy)) \<or>
       j \<in> frames_from (fbbase b) (unat ((fbsize b + 4096) div 4096)))"

definition bitmap_frames :: "EfiMemoryDescriptor list \<Rightarrow> EfiMemoryDescriptor \<Rightarrow> nat set" where
  "bitmap_frames ds seg = {unat (physicalstart seg) div 4096 ..<
     unat (physicalstart seg) div 4096 + bitmap_pages (total_frames ds)}"

definition start_free ::
    "symbols \<Rightarrow> FrameBuffer \<Rightarrow> EfiMemoryDescriptor list \<Rightarrow> EfiMemoryDescriptor \<Rightarrow> nat set" where
  "start_free sy b ds seg = {j. 32 * (unat (release_hint ds 0) div 32) \<le> j \<and> j < total_frames ds \<and>
     \<not> start_taken sy b ds seg j}"

lemma start_frames:
  assumes "ppa_initialized s = 0" and "last_hit s = 0" and "0 < stride"
    and ds: "ds = map_descs (phys s) mm extent stride"
    and fits: "fits_machine ds" and seg: "largest_segment ds = Some seg"
    and room: "fits_bitmap ds (mmap_addrs mm extent stride) seg"
  obtains s1 s' where "ppa_init mm extent stride s = Inr s1"
    and "s' = ppa_lckn (fbbase b) ((fbsize b + 4096) div 4096)
      (ppa_lckn (sym_kernel_start sy) (kernel_pages sy) s1)"
    and "allocator_ready s'" and "frames_ahead s' = start_free sy b ds seg"
    and "mem_total s' = of_nat (4096 * total_frames ds)" and "ppa.more s' = ppa.more s"
    and "\<And>x. start_taken sy b ds seg (unat x div 4096) \<Longrightarrow> unat x div 4096 \<notin> bitmap_frames ds seg \<Longrightarrow>
      client_page s' (page_of x) \<and> phys s' x = phys s x"
    and "frames_limit s' = total_frames ds" and "accounted s'"
    and "\<And>x. x \<in> bitmap_bytes (ppa_bitmap s') \<Longrightarrow> unat x div 4096 \<in> bitmap_frames ds seg"
proof -
  let ?b = "boot_bitmap (total_frames ds) seg"
  obtain s1 where s1: "ppa_init mm extent stride s = Inr s1"
      "frames_limit s1 = total_frames ds" "ppa_bitmap s1 = ?b" "allocator_ready s1"
      "\<And>j. frame_used s1 j \<longleftrightarrow> boot_taken ds seg j"
      "\<And>x. x \<notin> bitmap_bytes ?b \<Longrightarrow> phys s1 x = phys s x"
      "last_hit s1 = release_hint ds 0" "around (of_nat (4096 * total_frames ds)) (ppa.more s) s1"
    by (rule ppa_init_boot [OF assms], rule that)
  define s2 where "s2 = ppa_lckn (sym_kernel_start sy) (kernel_pages sy) s1"
  define s3 where "s3 = ppa_lckn (fbbase b) ((fbsize b + 4096) div 4096) s2"
  note l2 = lckn_allocator [OF s1(4), where a = "sym_kernel_start sy" and n = "kernel_pages sy", folded s2_def]
  note l3 = lckn_allocator [OF l2(1), where a = "fbbase b" and n = "(fbsize b + 4096) div 4096", folded s3_def]
  have f: "ppa_bitmap s3 = ?b" "ppa_bitmap s2 = ?b" "frames_limit s2 = total_frames ds"
    "frames_limit s3 = total_frames ds" "last_hit s3 = release_hint ds 0"
    "mem_total s3 = of_nat (4096 * total_frames ds)" "ppa.more s3 = ppa.more s"
    using s1(8) by (simp_all add: s3_def s2_def lckn_fields s1 around_def)
  have used: "frame_used s3 j \<longleftrightarrow> start_taken sy b ds seg j" for j
    unfolding l3(2) l2(2) f s1(2,5) start_taken_def by blast
  have free: "frames_ahead s3 = start_free sy b ds seg"
    unfolding frames_ahead_def start_free_def used f ..
  have segin: "is_conventional seg" "seg \<in> set ds" using largest_segment_is [OF seg] by simp_all
  then have al: "page_aligned (physicalstart seg)"
      "unat (physicalstart seg) div 4096 + bitmap_pages (total_frames ds) \<le> total_frames ds"
    using fits room by (fastforce simp: fits_machine_def fits_bitmap_def)+
  have out: "x \<notin> bitmap_bytes ?b" if "unat x div 4096 \<notin> bitmap_frames ds seg" for x
    using boot_bitmap_frames [OF al(1) _ al(2), of x] fits that
    by (auto simp: bitmap_frames_def fits_machine_def)
  have "client_page s3 (page_of x) \<and> phys s3 x = phys s x"
    if x: "start_taken sy b ds seg (unat x div 4096)" "unat x div 4096 \<notin> bitmap_frames ds seg" for x
  proof
    have "page_of y \<noteq> page_of x" if "y \<in> bitmap_bytes ?b" for y
      using that out [of y] x(2) page_of_frame [of x] page_of_frame [of y] by auto
    then show "client_page s3 (page_of x)"
      using x(1) by (auto simp: client_page_def page_of_frame used f(1))
    show "phys s3 x = phys s x"
      using out [OF x(2)] by (simp add: l3(4) l2(4) f s1(3,6))
  qed
  moreover have "accounted s3"
    using accounted_init [OF s1(1)] assms(1) steady_lckn steady_trans unfolding s3_def s2_def
    by (metis steady_def)
  moreover have "unat x div 4096 \<in> bitmap_frames ds seg" if "x \<in> bitmap_bytes (ppa_bitmap s3)" for x
    using out that unfolding f(1) by blast
  ultimately show thesis by (intro that [OF s1(1) s3_def [unfolded s2_def] l3(1) free f(6,7)]) (simp_all add: f(4))
qed


section \<open>The start of the kernel\<close>

text \<open>
  What the machine must give: a stride, a memory map that fits it, a frame buffer in the lower \<open>2 ^ 48\<close>
  bytes, and free frames for the tables that map memory and frame buffer, their root and the interrupt
  table.
\<close>

definition bootable :: "symbols \<Rightarrow> BootInfo \<Rightarrow> mem \<Rightarrow> EfiMemoryDescriptor \<Rightarrow> bool" where
  "bootable sy bi m seg \<longleftrightarrow>
     (let ds = map_descs m (mmap bi) (mmap_size bi) (mmap_desc_size bi);
          b = load_framebuffer m (fb bi);
          sz = fbsize b + 4096
      in 0 < mmap_desc_size bi \<and> fits_machine ds \<and> largest_segment ds = Some seg \<and>
         fits_bitmap ds (mmap_addrs (mmap bi) (mmap_size bi) (mmap_desc_size bi)) seg \<and>
         page_aligned (fbbase b) \<and> unat (fbbase b) + unat sz \<le> 2 ^ 48 \<and>
         2 + tables_for (4096 * total_frames ds) + tables_for (unat sz) \<le> card (start_free sy b ds seg))"

lemma bootableD:
  assumes "bootable sy bi m seg"
    and "ds = map_descs m (mmap bi) (mmap_size bi) (mmap_desc_size bi)" and "b = load_framebuffer m (fb bi)"
  shows "0 < mmap_desc_size bi" and "fits_machine ds" and "largest_segment ds = Some seg"
    and "fits_bitmap ds (mmap_addrs (mmap bi) (mmap_size bi) (mmap_desc_size bi)) seg"
    and "page_aligned (fbbase b)" and "unat (fbbase b) + unat (fbsize b + 4096) \<le> 2 ^ 48"
    and "2 + tables_for (4096 * total_frames ds) + tables_for (unat (fbsize b + 4096)) \<le>
      card (start_free sy b ds seg)"
  using assms unfolding bootable_def Let_def by blast+

lemma init_gdt_fields:
  "GDTR (init_gdt sy s) = \<lparr>gdt_size = 4095, gdt_offset = sym_DEFAULT_GDT sy\<rparr>"
  "cpu_gdt (init_gdt sy s) = \<lparr>gdt_size = 4095, gdt_offset = sym_DEFAULT_GDT sy\<rparr>"
  "cpu_cs (init_gdt sy s) = 8" "cpu_ds (init_gdt sy s) = 0x10"
  "tty (init_gdt sy s) = tty s"
  "ppa_initialized (init_gdt sy s) = ppa_initialized s" "last_hit (init_gdt sy s) = last_hit s"
  by (simp_all add: init_gdt_def set_gdt_def Let_def)

lemma init_gdt_memory:
  "phys (init_gdt sy s) x =
     (if 384 \<le> unat (x - sym_DEFAULT_GDT sy) \<and> unat (x - sym_DEFAULT_GDT sy) < 4096 then 0 else phys s x)"
proof -
  define d where "d = x - sym_DEFAULT_GDT sy"
  have e: "x - (sym_DEFAULT_GDT sy + 384) = d - 384" by (simp add: d_def)
  have "unat (d - 384) < 3712 \<longleftrightarrow> 384 \<le> unat d \<and> unat d < 4096"
  proof (cases "384 \<le> d")
    case True
    then have "384 \<le> unat d" using word_le_nat_alt [of 384 d] by simp
    then show ?thesis using unat_minus_le [OF True] by auto
  next
    case False
    then have "unat d < 384" using word_less_nat_alt [of d 384] by (simp add: not_le)
    then have "unat (d - 384) = 2 ^ 64 + unat d - 384"
      by (simp add: unat_sub_if')
    then show ?thesis using \<open>unat d < 384\<close> by simp
  qed
  then show ?thesis
    by (simp add: init_gdt_def set_gdt_def Let_def ppa_memset_apply e flip: d_def)
qed

text \<open>The memory part: frames, tables, interrupt table.\<close>

lemma start_memory:
  fixes s :: kernel
  assumes init: "ppa_initialized s = 0" "last_hit s = 0" and boot: "bootable sy bi (phys s) seg"
    and ds: "ds = map_descs (phys s) (mmap bi) (mmap_size bi) (mmap_desc_size bi)"
    and b: "b = load_framebuffer (phys s) (fb bi)"
  obtains s1 s2 s3 V where
    "ppa_init (mmap bi) (mmap_size bi) (mmap_desc_size bi) s = Inr s1"
    and "init_pmm (fbbase b) (fbsize b + 4096) (ppa_lckn (fbbase b) ((fbsize b + 4096) div 4096)
       (ppa_lckn (sym_kernel_start sy) (kernel_pages sy) s1)) = Inr s2"
    and "init_idt dev sy s2 = Inr s3"
    and "identity_map s3 V" and "V = pages_from 0 (of_nat (4096 * total_frames ds)) \<union>
       pages_from (fbbase b) (fbbase b + (fbsize b + 4096))"
    and "cpu_cr3 s3 = PML4 s3" and "untouched s (s3\<lparr>tty := tty s\<rparr>)"
    and "idt_size (cpu_idt s3) = 4095"
    and "\<And>i h. handler_of sy i = Some h \<Longrightarrow>
      load_idt_entry (phys s3) (idt_offset (cpu_idt s3) + of_nat (16 * i)) =
        IDT_CREATE_ENTRY h 0x08 0 IDT_INTERRUPT_GATE"
    and "ms_count (tty s3) = 0" and "sent (events (tty s3)) = sent (events (tty s))"
    and "print_buff (tty s3) = print_buff (tty s)"
    and "\<And>x. start_taken sy b ds seg (unat x div 4096) \<Longrightarrow> unat x div 4096 \<notin> bitmap_frames ds seg \<Longrightarrow>
      data_page s3 (PML4 s3) (page_of x) \<and> phys s3 x = phys s x"
    and "frames_limit s3 = total_frames ds" and "mem_total s3 = of_nat (4096 * total_frames ds)" and "accounted s3"
    and "\<And>x. x \<in> bitmap_bytes (ppa_bitmap s3) \<Longrightarrow> unat x div 4096 \<in> bitmap_frames ds seg"
    and "card (start_free sy b ds seg) \<le> card (frames_ahead s3) + 2 + tables_for (4096 * total_frames ds) +
      tables_for (unat (fbsize b + 4096))"
    and "data_page s3 (PML4 s3) (idt_offset (cpu_idt s3))"
    and "\<And>x. start_taken sy b ds seg (unat x div 4096) \<Longrightarrow> unat x div 4096 \<notin> bitmap_frames ds seg \<Longrightarrow>
      page_of x \<noteq> idt_offset (cpu_idt s3)"
proof -
  let ?sz = "fbsize b + 4096"
  note boot = bootableD [OF boot ds b]
  obtain s1 t where s1: "ppa_init (mmap bi) (mmap_size bi) (mmap_desc_size bi) s = Inr s1"
      "t = ppa_lckn (fbbase b) (?sz div 4096) (ppa_lckn (sym_kernel_start sy) (kernel_pages sy) s1)"
      "allocator_ready t" "frames_ahead t = start_free sy b ds seg"
      "mem_total t = of_nat (4096 * total_frames ds)" "ppa.more t = ppa.more s"
      "\<And>x. start_taken sy b ds seg (unat x div 4096) \<Longrightarrow> unat x div 4096 \<notin> bitmap_frames ds seg \<Longrightarrow>
        client_page t (page_of x) \<and> phys t x = phys s x"
      "frames_limit t = total_frames ds" "accounted t"
      "\<And>x. x \<in> bitmap_bytes (ppa_bitmap t) \<Longrightarrow> unat x div 4096 \<in> bitmap_frames ds seg"
    by (rule start_frames [OF init boot(1) ds boot(2-4)], rule that)
  have small: "total_frames ds < 2 ^ 35" using boot(2) by (simp add: fits_machine_def)
  have mt: "unat (mem_total t) = 4096 * total_frames ds"
    unfolding s1(5) by (rule unat_of_nat_small) (use small in simp)
  have m48: "unat (mem_total t) \<le> 2 ^ 48" using small by (simp add: mt)
  have "1 + tables_for (unat (mem_total t)) + tables_for (unat ?sz) \<le> card (frames_ahead t)"
    using boot(7) by (simp add: mt s1(4))
  from init_pmm_run [OF s1(3) m48 boot(5,6) this] obtain s2 V where
    run2: "init_pmm (fbbase b) ?sz t = Inr s2" and id: "identity_map s2 V"
    and V: "V = pages_from 0 (mem_total t) \<union> pages_from (fbbase b) (fbbase b + ?sz)"
    and cr3: "cpu_cr3 s2 = PML4 s2"
    and kept: "\<forall>q. client_page t q \<longrightarrow> data_page s2 (PML4 s2) q \<and> (\<forall>x. page_of x = q \<longrightarrow> phys s2 x = phys t x)"
    and left: "card (frames_ahead t) \<le> tables_needed V + 1 + card (frames_ahead s2)" by blast
  have ready2: "allocator_ready s2" using identity_mapD(1) [OF id] by (simp add: pmm_ready_def)
  have "unat (fbbase b + ?sz) = unat (fbbase b) + unat ?sz"
    using boot(6) by (intro unat_plus_nowrap) simp
  then have need: "tables_needed V \<le> tables_for (unat (mem_total t)) + tables_for (unat ?sz)"
    using tables_needed_union [of "pages_from 0 (mem_total t)" "pages_from (fbbase b) (fbbase b + ?sz)"]
      tables_needed_pages [OF m48, of 0] tables_needed_pages [of "fbbase b + ?sz" "fbbase b"] boot(6)
    by (simp add: V)
  have one: "0 < card (frames_ahead s2)" using need left boot(7) by (simp add: mt s1(4))
  obtain s3 page es where run3: "init_idt dev sy s2 = Inr s3"
      and idt: "cpu_idt s3 = \<lparr>idt_size = 4095, idt_offset = page\<rparr>"
      and gates: "\<forall>i<256. load_idt_entry (phys s3) (page + of_nat (16 * i)) =
       (case handler_of sy i of
          Some h \<Rightarrow> IDT_CREATE_ENTRY h 0x08 0 IDT_INTERRUPT_GATE
        | None \<Rightarrow> load_idt_entry (phys s2) (page + of_nat (16 * i)))"
      and t3: "ms_count (tty s3) = 0" "sent (events (tty s3)) = sent (events (tty s2))"
        "print_buff (tty s3) = print_buff (tty s2)"
      and ready3: "allocator_ready s3" and keep3: "keeps_clients s2 s3"
      and root3: "PML4 s3 = PML4 s2" "cpu_cr3 s3 = cpu_cr3 s2"
      and un3: "untouched s2 (s3\<lparr>tty := tty s2\<rparr>)" and steady3: "steady s2 s3"
      and left3: "card (frames_ahead s2) \<le> card (frames_ahead s3) + 1"
      and fresh: "\<not> client_page s2 page" "client_page s3 page"
    by (rule init_idt_run [OF ready2 one, where dev = dev and sy = sy], rule that)
  have "untouched s t" by (rule untouched_more [OF pmm_more_ppa [OF s1(6)]])
  then have un: "untouched s (s3\<lparr>tty := tty s\<rparr>)" and tty2: "tty s2 = tty s"
    using init_pmm_untouched [OF run2] un3 by (simp_all add: untouched_def)
  note ready = identity_mapD(1) [OF id]
  have tree: "tables_tree (client_page s2) (table_entry (phys s2)) (PML4 s2)"
    using ready by (simp add: pmm_ready_def pmm_tables_def)
  have idt3: "data_page s3 (PML4 s3) page"
    unfolding data_page_def root3
  proof (intro conjI allI impI notI)
    show "client_page s3 page" by (rule fresh(2))
    fix j w
    assume j: "j \<le> (3 :: nat)" and "pt_walk (table_entry (phys s3)) (PML4 s2) j w = Some page"
    then have "pt_walk (table_entry (phys s2)) (PML4 s2) j w = Some page"
      using walk_later [OF ready keep3] by simp
    then show False using tables_tree_own [OF tree j] fresh(1) by blast
  qed
  have keep: "data_page s3 (PML4 s3) (page_of x) \<and> phys s3 x = phys s x" "page_of x \<noteq> page"
    if "start_taken sy b ds seg (unat x div 4096)" "unat x div 4096 \<notin> bitmap_frames ds seg" for x
  proof -
    have x: "client_page t (page_of x)" "phys t x = phys s x" using s1(7) [OF that] by blast+
    then have "data_page s2 (PML4 s2) (page_of x)" "phys s2 x = phys s x" using kept by simp_all
    moreover from this have "phys s3 x = phys s2 x" using keep3 unfolding keeps_clients_def data_page_def by blast
    ultimately show "data_page s3 (PML4 s3) (page_of x) \<and> phys s3 x = phys s x" "page_of x \<noteq> page"
      using data_page_later [OF ready root3(1) keep3] fresh(1) by (auto simp: data_page_def)
  qed
  have steady: "steady t s3" by (rule steady_trans [OF steady_init_pmm [OF run2] steady3])
  then have bm: "ppa_bitmap s3 = ppa_bitmap t" and total3: "mem_total s3 = mem_total t"
    and acc: "accounted s3" using s1(9) by (simp_all add: steady_def)
  show thesis
  proof (rule that [OF s1(1) run2 [unfolded s1(2)] run3 identity_map_later [OF id ready3 root3(1) keep3]
        V [unfolded s1(5)] _ un])
    show "load_idt_entry (phys s3) (idt_offset (cpu_idt s3) + of_nat (16 * i)) =
        IDT_CREATE_ENTRY h 0x08 0 IDT_INTERRUPT_GATE" if "handler_of sy i = Some h" for i h
      using gates handler_small [OF that] that by (simp add: idt)
    show "data_page s3 (PML4 s3) (page_of x) \<and> phys s3 x = phys s x"
      if "start_taken sy b ds seg (unat x div 4096)" "unat x div 4096 \<notin> bitmap_frames ds seg" for x
      by (rule keep(1) [OF that])
    show "page_of x \<noteq> idt_offset (cpu_idt s3)"
      if "start_taken sy b ds seg (unat x div 4096)" "unat x div 4096 \<notin> bitmap_frames ds seg" for x
      using keep(2) [OF that] by (simp add: idt)
    show "frames_limit s3 = total_frames ds" using s1(8) bm by (simp add: frames_limit_def)
    show "unat x div 4096 \<in> bitmap_frames ds seg" if "x \<in> bitmap_bytes (ppa_bitmap s3)" for x
      using s1(10) that by (simp add: bm)
    show "card (start_free sy b ds seg) \<le> card (frames_ahead s3) + 2 + tables_for (4096 * total_frames ds) +
      tables_for (unat (fbsize b + 4096))"
      using left left3 need by (simp add: mt s1(4))
  qed (simp_all add: cr3 root3 idt t3 tty2 total3 s1(5) acc idt3 [unfolded root3])
qed

end
