(* ===== verification/KernelTest.thy ===== *)
theory KernelTest
  imports KernelStart
begin

text \<open>
  The kernel's test of its tables: a page is mapped high up, a string is copied there by its virtual
  address and printed from there. Writes to pages that hold no table leave the tables as they are.
\<close>

section \<open>Writes beside the tables\<close>

definition spare :: "'a pmm_scheme \<Rightarrow> u64 \<Rightarrow> bool" where
  "spare s x \<longleftrightarrow> x \<notin> bitmap_bytes (ppa_bitmap s) \<and>
     (\<forall>j w. j \<le> 3 \<longrightarrow> pt_walk (table_entry (phys s)) (PML4 s) j w \<noteq> Some (page_of x))"

lemma data_page_spare: "data_page s (PML4 s) (page_of x) \<Longrightarrow> spare s x"
  by (auto simp: data_page_def spare_def dest: client_page_bitmap)

text \<open>What such writes keep: the tree, every walk, the allocator.\<close>

definition same_tables :: "'a pmm_scheme \<Rightarrow> 'a pmm_scheme \<Rightarrow> bool" where
  "same_tables s s' \<longleftrightarrow> pmm_ready s' \<and> PML4 s' = PML4 s \<and> client_page s' = client_page s \<and>
     frames_ahead s' = frames_ahead s \<and> ppa_bitmap s' = ppa_bitmap s \<and>
     (\<forall>k w. k \<le> 4 \<longrightarrow> pt_walk (table_entry (phys s')) (PML4 s) k w = pt_walk (table_entry (phys s)) (PML4 s) k w)"

lemma spare_writes:
  assumes ready: "pmm_ready s" and out: "\<And>x. \<not> spare s x \<Longrightarrow> m x = phys s x"
  shows "same_tables s (s\<lparr>phys := m\<rparr>)"
proof -
  let ?s = "s\<lparr>phys := m\<rparr>"
  have al: "allocator_ready s" and tree: "tables_tree (client_page s) (table_entry (phys s)) (PML4 s)"
    using ready by (simp_all add: pmm_ready_def pmm_tables_def)
  have "m x = phys s x" if "x \<in> bitmap_bytes (ppa_bitmap s)" for x
    by (rule out) (use that in \<open>simp add: spare_def\<close>)
  note same = allocator_phys [OF al this]
  have walk: "pt_walk (table_entry m) (PML4 s) k w = pt_walk (table_entry (phys s)) (PML4 s) k w"
    if "k \<le> 4" for k w
    using that
  proof (induction k)
    case (Suc k)
    show ?case
    proof (cases "pt_walk (table_entry (phys s)) (PML4 s) k w")
      case (Some t)
      have k: "k \<le> 3" using Suc.prems by simp
      have "table_entry m t (level_index k w) = table_entry (phys s) t (level_index k w)"
      proof (rule table_entry_cong [OF client_page_aligned level_index_small])
        show "client_page s t" using tables_tree_own [OF tree k Some] .
        show "m x = phys s x" if "page_of x = t" for x
          by (rule out) (use that k Some in \<open>auto simp: spare_def\<close>)
      qed
      then show ?thesis using Suc Some by (simp add: pt_walk_Suc)
    qed (use Suc in \<open>simp add: pt_walk_Suc\<close>)
  qed simp
  have "tables_tree (client_page ?s) (table_entry (phys ?s)) (PML4 ?s)"
    using tree walk unfolding tables_tree_def by (simp add: same(4))
  then have "pmm_ready ?s" using same(2) by (simp add: pmm_ready_def pmm_tables_def)
  then show ?thesis using walk same(3,4) by (simp add: same_tables_def)
qed

lemma same_tablesD:
  assumes "same_tables s s'"
  shows "pmm_ready s'" and "PML4 s' = PML4 s" and "client_page s' = client_page s"
    and "pmm_find_paddr w s' = pmm_find_paddr w s" and "spare s' = spare s"
    and "data_page s' (PML4 s') = data_page s (PML4 s)" and "virt s' = virt s"
proof -
  show 1: "pmm_ready s'" and 2: "PML4 s' = PML4 s" and 3: "client_page s' = client_page s"
    using assms by (simp_all add: same_tables_def)
  have walk: "pt_walk (table_entry (phys s')) (PML4 s) k w = pt_walk (table_entry (phys s)) (PML4 s) k w"
    if "k \<le> 4" for k w
    using assms that by (simp add: same_tables_def)
  show f: "pmm_find_paddr w s' = pmm_find_paddr w s" for w by (simp add: pmm_find_paddr_walk 2 walk)
  show "spare s' = spare s" using assms by (simp add: fun_eq_iff spare_def same_tables_def)
  show "data_page s' (PML4 s') = data_page s (PML4 s)" by (simp add: fun_eq_iff data_page_def 2 3 walk)
  show "virt s' = virt s" by (simp add: fun_eq_iff virt_def f)
qed

lemma same_tables_trans: "same_tables s s1 \<Longrightarrow> same_tables s1 s2 \<Longrightarrow> same_tables s s2"
  by (simp add: same_tables_def)

section \<open>Copying by virtual address\<close>

lemma virt_memcpy_copies:
  assumes "pmm_ready s"
    and "\<forall>i<n. virt s (d + of_nat i) = D + of_nat i \<and> spare s (D + of_nat i)"
    and "\<forall>i<n. \<forall>j<n. virt s (src + of_nat i) \<noteq> D + of_nat j" and "n < 2 ^ 63"
  shows "\<exists>m. virt_memcpy n d src s = s\<lparr>phys := m\<rparr> \<and> same_tables s (s\<lparr>phys := m\<rparr>) \<and>
    (\<forall>i<n. m (D + of_nat i) = phys s (virt s (src + of_nat i))) \<and>
    (\<forall>x. (\<forall>i<n. x \<noteq> D + of_nat i) \<longrightarrow> m x = phys s x)"
  using assms
proof (induction n arbitrary: d D src s)
  case 0
  then show ?case using spare_writes [of s "phys s"] by (intro exI [of _ "phys s"]) simp
next
  case (Suc n)
  let ?a = "D" and ?v = "phys s (virt s src)"
  let ?s = "s\<lparr>phys := (phys s)(?a := ?v)\<rparr>"
  have d: "virt s d = D" "spare s D" using Suc.prems(2) [rule_format, of 0] by simp_all
  have st: "same_tables s ?s" by (rule spare_writes [OF Suc.prems(1)]) (use d in auto)
  note same = same_tablesD [OF st]
  have shift: "a + 1 + of_nat i = a + of_nat (Suc i)" for a :: u64 and i by (simp add: add.assoc)
  have ih: "\<forall>i<n. virt ?s (d + 1 + of_nat i) = D + 1 + of_nat i \<and> spare ?s (D + 1 + of_nat i)"
    "\<forall>i<n. \<forall>j<n. virt ?s (src + 1 + of_nat i) \<noteq> D + 1 + of_nat j"
    unfolding same(5,7) shift using Suc.prems(2,3) by (blast intro: Suc_mono)+
  obtain m where run: "virt_memcpy n (d + 1) (src + 1) ?s = ?s\<lparr>phys := m\<rparr>" "same_tables ?s (?s\<lparr>phys := m\<rparr>)"
    and copied: "\<forall>i<n. m (D + 1 + of_nat i) = phys ?s (virt ?s (src + 1 + of_nat i))"
    and rest: "\<forall>x. (\<forall>i<n. x \<noteq> D + 1 + of_nat i) \<longrightarrow> m x = phys ?s x"
    using Suc.IH [OF same(1) ih] Suc.prems(4) by auto
  have apart: "D \<noteq> D + 1 + of_nat i" if "i < n" for i
  proof
    assume "D = D + 1 + of_nat i"
    then have "(of_nat (Suc i) :: u64) = 0" by (simp add: add.assoc)
    moreover have "unat (of_nat (Suc i) :: u64) = Suc i" by (rule unat_of_nat_small) (use that Suc.prems(4) in simp)
    ultimately show False by simp
  qed
  have "m (D + of_nat i) = phys s (virt s (src + of_nat i))" if "i < Suc n" for i
  proof (cases i)
    case 0
    have "m D = phys ?s D" using rest apart by blast
    then show ?thesis using 0 by simp
  next
    case (Suc k)
    then have k: "k < n" using that by simp
    have "virt s (src + of_nat (Suc k)) \<noteq> D + of_nat 0" using Suc.prems(3) k by blast
    with copied k show ?thesis unfolding Suc same(7) shift by simp
  qed
  moreover have "m x = phys s x" if x: "\<forall>i<Suc n. x \<noteq> D + of_nat i" for x
  proof -
    have "x \<noteq> D + of_nat 0" using x by blast
    moreover have "x \<noteq> D + 1 + of_nat i" if "i < n" for i using x that unfolding shift by blast
    ultimately show ?thesis using rest by simp
  qed
  moreover have "same_tables s (s\<lparr>phys := m\<rparr>)" using same_tables_trans [OF st run(2)] by simp
  ultimately show ?case using run(1) d(1) by (intro exI [of _ m]) simp
qed

section \<open>The test\<close>

lemma virt_in_page:
  assumes "pmm_find_paddr v s = f" and "page_aligned f"
  shows "virt s v = f + (v - page_of v)"
proof -
  have v: "v = page_of v OR take_bit 12 v" "page_of v AND take_bit 12 v = 0"
    by (rule bit_word_eqI; auto simp: bit_page_of bit_or_iff bit_and_iff bit_take_bit_iff)+
  then have off: "v - page_of v = take_bit 12 v" by (metis disjunctive_add_eq_or add_diff_cancel_left')
  have "f AND take_bit 12 v = 0"
    by (rule bit_word_eqI) (use assms(2) in \<open>auto simp: page_aligned_bits bit_and_iff bit_take_bit_iff\<close>)
  then have "f OR take_bit 12 v = f + take_bit 12 v" by (simp add: disjunctive_add_eq_or)
  moreover have "v AND 0xfff = take_bit 12 v" by (simp add: take_bit_eq_mask mask_eq_decr_exp)
  ultimately show ?thesis by (simp add: virt_def assms(1) off)
qed

abbreviation test_page :: u64 where "test_page \<equiv> 0x600000000"

lemma test_page_low: "low_page test_page" "page_aligned 0x80000" "frame_field 0x80000 = 0x80000"
proof -
  show "low_page test_page" by (simp add: low_page_def page_aligned_def take_bit_eq_mod)
  have "low_page 0x80000" by (simp add: low_page_def page_aligned_def take_bit_eq_mod)
  then show "page_aligned 0x80000" "frame_field 0x80000 = 0x80000"
    by (simp_all add: low_page_def frame_field_low)
qed

lemma page_offset:
  assumes "page_aligned p" and "i < 4096"
  shows "page_of (p + of_nat i) = p" and "p + of_nat i = q + of_nat j \<Longrightarrow> page_aligned q \<Longrightarrow> j < 4096 \<Longrightarrow> p = q"
proof -
  have "unat (of_nat k :: u64) < 4096" if "k < 4096" for k
    using that by (subst unat_of_nat_small) simp_all
  then have of: "page_of (a + of_nat k) = a" if "page_aligned a" "k < 4096" for a k
    using page_of_plus that by blast
  show "page_of (p + of_nat i) = p" by (rule of [OF assms])
  show "p = q" if "p + of_nat i = q + of_nat j" "page_aligned q" "j < 4096"
    using of [OF assms] of [OF that(2,3)] that(1) by metis
qed

text \<open>A source that is mapped to itself and lies beside the tables and the page written to.\<close>

definition test_source :: "'a pmm_scheme \<Rightarrow> u64 \<Rightarrow> bool" where
  "test_source s a \<longleftrightarrow> data_page s (PML4 s) (page_of a) \<and> pmm_find_paddr a s = page_of a \<and>
     page_of a \<noteq> 0x80000 \<and> page48 a \<noteq> test_page"

lemma mapping_test_run:
  assumes "pmm_ready s" and "tables_missing s (PML4 s) test_page \<le> card (frames_ahead s)"
    and dst: "data_page s (PML4 s) 0x80000" and src: "\<forall>i<40. test_source s (src + of_nat i)"
    and s1: "s1 = pmm_map_memory test_page 0x80000 s" and s': "s' = virt_memcpy 40 test_page src s1"
  shows "\<exists>m. s' = s1\<lparr>phys := m\<rparr>" and "same_tables s1 s'"
    and "i < 40 \<Longrightarrow> phys s' (0x80000 + of_nat i) = phys s (src + of_nat i)"
    and "i < 4096 \<Longrightarrow> virt s' (test_page + of_nat i) = 0x80000 + of_nat i"
    and "data_page s (PML4 s) (page_of x) \<Longrightarrow> page_of x \<noteq> 0x80000 \<Longrightarrow> phys s' x = phys s x"
    and "data_page s (PML4 s) q \<Longrightarrow> data_page s' (PML4 s') q"
    and "pmm_find_paddr w s' = (if page48 w = test_page then 0x80000 else pmm_find_paddr w s)"
proof -
  note run = pmm_map_memory_run [OF assms(1,2) s1]
  have find: "pmm_find_paddr w s1 = (if page48 w = test_page then 0x80000 else pmm_find_paddr w s)" for w
    by (simp add: pmm_find_paddr_walk run(2,3) low_page_path [OF test_page_low(1)] test_page_low(3))
  have data: "data_page s1 (PML4 s1) q" "page_of x = q \<Longrightarrow> phys s1 x = phys s x"
    if "data_page s (PML4 s) q" for q x
    using run(7) that by (simp_all add: keeps_data_def run(2))
  have high: "virt s1 (test_page + of_nat i) = 0x80000 + of_nat i" if "i < 4096" for i
  proof -
    have p: "page_of (test_page + of_nat i) = test_page"
      by (rule page_offset) (use that test_page_low(1) in \<open>simp_all add: low_page_def\<close>)
    have "unat (test_page + of_nat i) = 0x600000000 + i"
      using that by (simp add: unat_plus_nowrap unat_of_nat_small)
    then have "page48 (test_page + of_nat i) = test_page"
      using that p by (subst page48_low) simp_all
    then have "virt s1 (test_page + of_nat i) = 0x80000 + (test_page + of_nat i - page_of (test_page + of_nat i))"
      by (intro virt_in_page) (simp_all add: find test_page_low(2))
    then show ?thesis unfolding p by simp
  qed
  have low: "virt s1 (src + of_nat i) = src + of_nat i" if "i < 40" for i
  proof -
    have "test_source s (src + of_nat i)" using src that by blast
    then have "pmm_find_paddr (src + of_nat i) s1 = page_of (src + of_nat i)"
      by (simp add: test_source_def find)
    then show ?thesis using virt_in_page by fastforce
  qed
  have page: "page_of (0x80000 + of_nat i) = 0x80000" if "i < 40" for i
    by (rule page_offset(1) [OF test_page_low(2)]) (use that in simp)
  have "\<exists>m. virt_memcpy 40 test_page src s1 = s1\<lparr>phys := m\<rparr> \<and> same_tables s1 (s1\<lparr>phys := m\<rparr>) \<and>
      (\<forall>i<40. m (0x80000 + of_nat i) = phys s1 (virt s1 (src + of_nat i))) \<and>
      (\<forall>x. (\<forall>i<40. x \<noteq> 0x80000 + of_nat i) \<longrightarrow> m x = phys s1 x)"
  proof (rule virt_memcpy_copies [OF run(1)])
    show "\<forall>i<40. virt s1 (test_page + of_nat i) = 0x80000 + of_nat i \<and> spare s1 (0x80000 + of_nat i)"
      using high page data(1) [OF dst] by (simp add: data_page_spare)
    show "\<forall>i<40. \<forall>j<40. virt s1 (src + of_nat i) \<noteq> 0x80000 + of_nat j"
      using low page src by (metis test_source_def)
  qed simp
  then obtain m where m: "s' = s1\<lparr>phys := m\<rparr>" "same_tables s1 s'"
    and copied: "\<forall>i<40. m (0x80000 + of_nat i) = phys s1 (virt s1 (src + of_nat i))"
    and rest: "\<forall>x. (\<forall>i<40. x \<noteq> 0x80000 + of_nat i) \<longrightarrow> m x = phys s1 x"
    unfolding s' by metis
  show "\<exists>m. s' = s1\<lparr>phys := m\<rparr>" and st: "same_tables s1 s'" using m by blast+
  note same = same_tablesD [OF st]
  show "phys s' (0x80000 + of_nat i) = phys s (src + of_nat i)" if "i < 40"
  proof -
    have "phys s1 (src + of_nat i) = phys s (src + of_nat i)"
      by (rule data(2) [OF _ refl]) (use src that in \<open>simp add: test_source_def\<close>)
    then show ?thesis using copied low [OF that] that by (simp add: m(1))
  qed
  show "virt s' (test_page + of_nat i) = 0x80000 + of_nat i" if "i < 4096"
    using high that by (simp add: same(7))
  show "phys s' x = phys s x" if "data_page s (PML4 s) (page_of x)" "page_of x \<noteq> 0x80000"
    using rest page data(2) [OF that(1)] that(2) by (simp add: m(1)) metis
  show "data_page s' (PML4 s') q" if "data_page s (PML4 s) q" using data(1) that by (simp add: same(6))
  show "pmm_find_paddr w s' = (if page48 w = test_page then 0x80000 else pmm_find_paddr w s)"
    using find by (simp add: same(4))
qed

end
