(* ===== verification/KernelUp.thy ===== *)
theory KernelUp
  imports KernelTest ConsoleCorrect
begin

text \<open>
  The kernel's start, from power-on to its waiting loop: what \<open>init_kernel\<close> leaves, the reports and the
  mapping test of \<open>_start\<close>, and the colour chart it draws.
\<close>

section \<open>Fields beside the memory\<close>

lemma same_memory:
  assumes "phys s' = phys s" and "ppa_bitmap s' = ppa_bitmap s" and "last_hit s' = last_hit s"
    and "PML4 s' = PML4 s"
  shows "pmm_ready s' = pmm_ready s" and "identity_map s' V = identity_map s V"
    and "data_page s' = data_page s" and "pmm_find_paddr w s' = pmm_find_paddr w s"
    and "frames_ahead s' = frames_ahead s" and "frames_limit s' = frames_limit s"
    and "spare s' = spare s" and "virt s' = virt s" and "tables_missing s' = tables_missing s"
proof -
  note same = allocator_same [OF assms(1-3)]
  show ready: "pmm_ready s' = pmm_ready s" by (simp add: pmm_ready_def pmm_tables_def same assms)
  show "identity_map s' V = identity_map s V" by (simp add: identity_map_def ready assms)
  show "data_page s' = data_page s" by (simp add: fun_eq_iff data_page_def same assms)
  show find: "pmm_find_paddr w s' = pmm_find_paddr w s" for w by (simp add: pmm_find_paddr_walk assms)
  show "frames_ahead s' = frames_ahead s" by (rule same(2))
  show "frames_limit s' = frames_limit s" by (simp add: frames_limit_def assms)
  show "spare s' = spare s" by (simp add: fun_eq_iff spare_def assms)
  show "virt s' = virt s" by (simp add: fun_eq_iff virt_def find)
  show "tables_missing s' = tables_missing s" by (simp add: fun_eq_iff tables_missing_def assms)
qed

section \<open>After \<open>init_kernel\<close>\<close>

text \<open>The state \<open>init_kernel\<close> leaves, on a machine with memory map \<open>ds\<close>, largest segment \<open>seg\<close> and frame buffer \<open>b\<close>.\<close>

definition kernel_up ::
    "symbols \<Rightarrow> FrameBuffer \<Rightarrow> EfiMemoryDescriptor list \<Rightarrow> EfiMemoryDescriptor \<Rightarrow> mem \<Rightarrow> kernel \<Rightarrow> bool" where
  "kernel_up sy b ds seg m s \<longleftrightarrow>
     identity_map s (pages_from 0 (of_nat (4096 * total_frames ds)) \<union>
       pages_from (fbbase b) (fbbase b + (fbsize b + 4096))) \<and>
     cpu_cr3 s = PML4 s \<and> cpu_gdt s = \<lparr>gdt_size = 4095, gdt_offset = sym_DEFAULT_GDT sy\<rparr> \<and>
     cpu_cs s = 0x08 \<and> cpu_ds s = 0x10 \<and> idt_size (cpu_idt s) = 4095 \<and>
     (\<forall>i h. handler_of sy i = Some h \<longrightarrow>
        load_idt_entry (phys s) (idt_offset (cpu_idt s) + of_nat (16 * i)) =
          IDT_CREATE_ENTRY h 0x08 0 IDT_INTERRUPT_GATE) \<and>
     con s = conlib_init (sym_font sy) (fbbase b) (fb_width b) (fb_height b) (ppsl b * 4) \<and>
     (\<forall>x. start_taken sy b ds seg (unat x div 4096) \<and> unat x div 4096 \<notin> bitmap_frames ds seg \<longrightarrow>
        data_page s (PML4 s) (page_of x) \<and> page_of x \<noteq> idt_offset (cpu_idt s) \<and> phys s x = m x) \<and>
     data_page s (PML4 s) (idt_offset (cpu_idt s)) \<and> frames_limit s = total_frames ds \<and> mem_total s = of_nat (4096 * total_frames ds) \<and> accounted s \<and>
     (\<forall>x\<in>bitmap_bytes (ppa_bitmap s). unat x div 4096 \<in> bitmap_frames ds seg) \<and>
     card (start_free sy b ds seg) \<le> card (frames_ahead s) + 2 + tables_for (4096 * total_frames ds) +
       tables_for (unat (fbsize b + 4096)) \<and>
     length (print_buff (tty s)) = 32"

lemma init_kernel_run:
  fixes s :: kernel
  assumes "ppa_initialized s = 0" and "last_hit s = 0"
    and "m = phys (init_gdt sy s)" and "bootable sy bi m seg"
    and "ds = map_descs m (mmap bi) (mmap_size bi) (mmap_desc_size bi)" and "b = load_framebuffer m (fb bi)"
    and "keeps_showing dev 0x3FD 0x20" and "length (print_buff (tty s)) = 32"
    and "unat (ms_count (tty s)) < 2 ^ 31 * 1000" and late: "ticks qs < 2 ^ 31 * 1000"
  obtains s' where "init_kernel dev qs sy bi s = Some (Inr s')" and "kernel_up sy b ds seg m s'"
    and "sent (events (tty s')) = sent (events (tty s)) @ stamped (unat (ms_count (tty s))) ''GDT loaded.'' @
      irq_text qs @ stamped (ticks qs) ''IDT loaded.''"
    and "ms_count (tty s') = of_nat (ticks qs)"
proof -
  obtain t where t: "serial_printf dev (line ''GDT loaded.'') [] (tty s) = Some (Inr t)"
      "sent (events t) = sent (events (tty s)) @ stamped (unat (ms_count (tty s))) ''GDT loaded.''"
      "length (print_buff t) = 32"
    by (rule serial_line [OF assms(7) _ _ assms(8,9), of "''GDT loaded.''"]) (simp_all add: that)
  define c where "c = conlib_init (sym_font sy) (fbbase b) (fb_width b) (fb_height b) (ppsl b * 4)"
  define s0 where "s0 = init_gdt sy s\<lparr>tty := t, con := c\<rparr>"
  have s0: "ppa_initialized s0 = 0" "last_hit s0 = 0" "phys s0 = m"
    using assms(1-3) by (simp_all add: s0_def init_gdt_fields)
  obtain s1 s2 s3 V where
    init: "ppa_init (mmap bi) (mmap_size bi) (mmap_desc_size bi) s0 = Inr s1"
    and pmm: "init_pmm (fbbase b) (fbsize b + 4096) (ppa_lckn (fbbase b) ((fbsize b + 4096) div 4096)
       (ppa_lckn (sym_kernel_start sy) (kernel_pages sy) s1)) = Inr s2"
    and idt: "init_idt dev sy s2 = Inr s3"
    and id: "identity_map s3 V" "V = pages_from 0 (of_nat (4096 * total_frames ds)) \<union>
       pages_from (fbbase b) (fbbase b + (fbsize b + 4096))"
    and fields: "cpu_cr3 s3 = PML4 s3" "untouched s0 (s3\<lparr>tty := tty s0\<rparr>)" "idt_size (cpu_idt s3) = 4095"
    and gates: "\<And>i h. handler_of sy i = Some h \<Longrightarrow>
      load_idt_entry (phys s3) (idt_offset (cpu_idt s3) + of_nat (16 * i)) =
        IDT_CREATE_ENTRY h 0x08 0 IDT_INTERRUPT_GATE"
    and t3: "ms_count (tty s3) = 0" "sent (events (tty s3)) = sent (events (tty s0))"
      "print_buff (tty s3) = print_buff (tty s0)"
    and kept: "\<And>x. start_taken sy b ds seg (unat x div 4096) \<Longrightarrow> unat x div 4096 \<notin> bitmap_frames ds seg \<Longrightarrow>
      data_page s3 (PML4 s3) (page_of x) \<and> phys s3 x = phys s0 x"
    and frames: "frames_limit s3 = total_frames ds" "mem_total s3 = of_nat (4096 * total_frames ds)"
      "accounted s3" "\<And>x. x \<in> bitmap_bytes (ppa_bitmap s3) \<Longrightarrow> unat x div 4096 \<in> bitmap_frames ds seg"
      "card (start_free sy b ds seg) \<le> card (frames_ahead s3) + 2 + tables_for (4096 * total_frames ds) +
         tables_for (unat (fbsize b + 4096))"
      "data_page s3 (PML4 s3) (idt_offset (cpu_idt s3))"
    and away: "\<And>x. start_taken sy b ds seg (unat x div 4096) \<Longrightarrow> unat x div 4096 \<notin> bitmap_frames ds seg \<Longrightarrow>
      page_of x \<noteq> idt_offset (cpu_idt s3)"
    by (rule start_memory [where s = s0 and sy = sy and bi = bi and seg = seg and ds = ds and b = b and dev = dev])
      (use assms(4-6) s0 in \<open>simp_all\<close>)
  obtain t4 where t4: "handle_irqs dev qs (tty s3) = Some (Inr t4)"
      "sent (events t4) = sent (events (tty s3)) @ irq_text qs"
      "ms_count t4 = of_nat (ticks qs)" "length (print_buff t4) = 32"
    using handle_irqs_runs [OF assms(7), of qs "tty s3"] t3 t(3) by (auto simp: s0_def)
  have clock: "unat (ms_count t4) = ticks qs"
    unfolding t4(3) by (rule unat_of_nat_small) (use late in simp)
  obtain t' where t': "serial_printf dev (line ''IDT loaded.'') [] t4 = Some (Inr t')"
      "sent (events t') = sent (events t4) @ stamped (ticks qs) ''IDT loaded.''"
      "ms_count t' = ms_count t4" "length (print_buff t') = 32"
    by (rule serial_line [OF assms(7), of "''IDT loaded.''" t4]) (use late in \<open>simp_all add: that t4(4) clock\<close>)
  define s' where "s' = s3\<lparr>tty := t'\<rparr>"
  have same: "phys s' = phys s3" "ppa_bitmap s' = ppa_bitmap s3" "last_hit s' = last_hit s3" "PML4 s' = PML4 s3"
    by (simp_all add: s'_def)
  have run: "init_kernel dev qs sy bi s = Some (Inr s')"
    using assms(3,6) init pmm idt t(1) t4(1) t'(1)
    by (simp add: init_kernel_def Let_def tty_op_def init_gdt_fields kernel_pages_def s0_def c_def s'_def)
  have "cpu_gdt s3 = cpu_gdt s0" "cpu_cs s3 = cpu_cs s0" "cpu_ds s3 = cpu_ds s0" "con s3 = c"
    using fields(2) by (simp_all add: untouched_def s0_def)
  moreover have "accounted s'" using frames(3) by (simp add: s'_def accounted_def)
  ultimately have "kernel_up sy b ds seg m s'"
    unfolding kernel_up_def same same_memory [OF same] id(2) [symmetric]
    using id(1) fields(1,3) gates kept away frames s0(3) t'(4)
    by (simp add: s'_def s0_def c_def init_gdt_fields)
  moreover have "sent (events (tty s')) = sent (events (tty s)) @ stamped (unat (ms_count (tty s))) ''GDT loaded.'' @
      irq_text qs @ stamped (ticks qs) ''IDT loaded.''" "ms_count (tty s') = of_nat (ticks qs)"
    using t(2) t4 t' t3 by (simp_all add: s'_def s0_def)
  ultimately show thesis by (rule that [OF run])
qed

text \<open>Printing leaves the rest as it is.\<close>

lemma kernel_up_tty:
  assumes "kernel_up sy b ds seg m s" and "length (print_buff t) = 32"
  shows "kernel_up sy b ds seg m (s\<lparr>tty := t\<rparr>)"
proof -
  have same: "phys (s\<lparr>tty := t\<rparr>) = phys s" "ppa_bitmap (s\<lparr>tty := t\<rparr>) = ppa_bitmap s"
    "last_hit (s\<lparr>tty := t\<rparr>) = last_hit s" "PML4 (s\<lparr>tty := t\<rparr>) = PML4 s" by simp_all
  have "accounted (s\<lparr>tty := t\<rparr>) = accounted s" by (simp add: accounted_def)
  then show ?thesis
    using assms unfolding kernel_up_def same same_memory [OF same] by simp
qed

section \<open>The reports\<close>

text \<open>What a list of items prints, from whatever count it starts at.\<close>

definition prints :: "int \<Rightarrow> item list \<Rightarrow> va list \<Rightarrow> int list \<Rightarrow> bool" where
  "prints n items ap t \<longleftrightarrow> (\<forall>k. 0 \<le> k \<and> k \<le> n \<longrightarrow> (\<exists>r. items_output items ap k = Some (t, r)))"

definition plain :: "u8 \<Rightarrow> item" where
  "plain conv = Dir \<lparr>ds_flags = [], ds_width = None, ds_precision = None, ds_length = 0, ds_conv = conv\<rparr>"

definition chars :: "string \<Rightarrow> int list" where
  "chars str = map (\<lambda>c. sint (of_char c :: u8)) str"

definition decimal :: "int \<Rightarrow> int list" where
  "decimal n = sign_text n 0 @ number_text True 10 (- 1) (nat \<bar>n\<bar>)"

lemma prints_nil: "prints n [] ap []"
  by (simp add: prints_def)

lemma prints_item:
  assumes "item_output x ap = Some (a, j, ap')" and "0 \<le> j" and "prints (n + j) items ap' t"
    and "n + j \<le> INT_MAX"
  shows "prints n (x # items) ap (a @ t)"
  unfolding prints_def
proof (intro allI impI)
  fix k :: int
  assume k: "0 \<le> k \<and> k \<le> n"
  then obtain r where "items_output items ap' (k + j) = Some (t, r)"
    using assms(2,3) unfolding prints_def by (metis add_right_mono add_nonneg_nonneg)
  then show "\<exists>r. items_output (x # items) ap k = Some (a @ t, r)"
    using k assms(1,2,4) by (simp add: INT_MIN_def)
qed

lemma prints_chars:
  "prints (n + int (length str)) items ap t \<Longrightarrow> n + int (length str) \<le> INT_MAX \<Longrightarrow>
    prints n (map (\<lambda>c. Lit (of_char c)) str @ items) ap (chars str @ t)"
proof (induction str arbitrary: n)
  case (Cons c str)
  have "prints (n + 1) (map (\<lambda>c. Lit (of_char c)) str @ items) ap (chars str @ t)"
    by (rule Cons.IH) (use Cons.prems in \<open>simp_all add: ac_simps\<close>)
  then have "prints n (Lit (of_char c) # map (\<lambda>c. Lit (of_char c)) str @ items) ap ([sint (of_char c :: u8)] @ chars str @ t)"
    by (rule prints_item [rotated 2]) (use Cons.prems in simp_all)
  then show ?case by (simp add: chars_def)
qed (simp add: chars_def)

lemma decimal_output:
  "item_output (plain 100) (VWord w # ap) =
     Some (decimal (signed_arg 0 w), int (length (decimal (signed_arg 0 w))), ap)"
  "length (decimal (signed_arg 0 w)) \<le> 11"
proof -
  define n where "n = signed_arg 0 w"
  have n: "- (2 ^ 31) \<le> n" "n < 2 ^ 31"
    using sint_ge [of "ucast w :: u32"] sint_lt [of "ucast w :: u32"] by (simp_all add: n_def signed_arg_def)
  then have "nat \<bar>n\<bar> < 10 ^ 10" by simp
  then have len: "length (digits 10 (nat \<bar>n\<bar>)) \<le> 10" by (intro digits_length_le) simp_all
  then show "length (decimal (signed_arg 0 w)) \<le> 11"
    by (cases "n < 0") (simp_all add: decimal_def n_def [symmetric] number_text_def sign_text_def)
  show "item_output (plain 100) (VWord w # ap) =
     Some (decimal (signed_arg 0 w), int (length (decimal (signed_arg 0 w))), ap)"
    using len n by (simp add: plain_def dir_meaning_def dir_output_def field_output_def field_text_def decimal_def
        n_def [symmetric] number_text_def LLONG_MIN_def Let_def)
qed

lemma prints_mono: "prints n items ap t \<Longrightarrow> k \<le> n \<Longrightarrow> prints k items ap t"
  by (simp add: prints_def)

lemma prints_decimal:
  assumes "prints (n + 11) items ap t" and "n + 11 \<le> INT_MAX"
  shows "prints n (plain 100 # items) (VWord w # ap) (decimal (signed_arg 0 w) @ t)"
  by (rule prints_item [OF decimal_output(1)])
    (use assms decimal_output(2) [of w] in \<open>auto intro: prints_mono\<close>)

text \<open>The four counters, in kilobytes.\<close>

definition report_items :: "item list" where
  "report_items = map (\<lambda>c. Lit (of_char c)) ''[MEM] '' @ plain 100 # map (\<lambda>c. Lit (of_char c)) '' KB USED   '' @
     plain 100 # map (\<lambda>c. Lit (of_char c)) '' KB RESERVED   '' @
     plain 100 # map (\<lambda>c. Lit (of_char c)) '' KB FREE   '' @
     plain 100 # map (\<lambda>c. Lit (of_char c)) ('' KB TOTAL'' @ [CHR 0x0A]) @ []"

definition kilobytes :: "u64 \<Rightarrow> int list" where
  "kilobytes w = decimal (signed_arg 0 (w div 1024))"

definition report_text :: "u64 \<Rightarrow> u64 \<Rightarrow> u64 \<Rightarrow> u64 \<Rightarrow> int list" where
  "report_text u r f t = chars ''[MEM] '' @ kilobytes u @ chars '' KB USED   '' @ kilobytes r @
     chars '' KB RESERVED   '' @ kilobytes f @ chars '' KB FREE   '' @ kilobytes t @
     chars ('' KB TOTAL'' @ [CHR 0x0A]) @ []"

lemma report_output:
  "\<exists>k. items_output report_items [VWord (u div 1024), VWord (r div 1024), VWord (f div 1024), VWord (t div 1024)] 0 =
    Some (report_text u r f t, k)"
proof -
  have "prints 0 report_items [VWord (u div 1024), VWord (r div 1024), VWord (f div 1024), VWord (t div 1024)]
      (report_text u r f t)"
    unfolding report_items_def report_text_def kilobytes_def
    by (intro prints_chars prints_decimal prints_nil) (simp_all add: INT_MAX_def)
  then show ?thesis unfolding prints_def by blast
qed

lemma report_format:
  "line ''[MEM] %d KB USED   %d KB RESERVED   %d KB FREE   %d KB TOTAL'' = format_text report_items @ [0]"
  by (simp add: line_def lit_def report_items_def plain_def format_text_def dir_text_def length_text_def)

lemma plain_ok: "conv \<in> {100, 115} \<Longrightarrow> item_ok (plain conv)"
  by (auto simp: plain_def dir_ok_def)

lemma report_ok: "x \<in> set report_items \<Longrightarrow> item_ok x"
  using plain_ok [of 100] by (auto simp: report_items_def)

definition stamped_text :: "nat \<Rightarrow> int list \<Rightarrow> u8 list" where
  "stamped_text ms t = map word_of_int (time_stamp ms @ t)"

lemma mem_report_runs:
  assumes "keeps_showing dev 0x3FD 0x20" and "length (print_buff (tty s)) = 32"
    and "unat (ms_count (tty s)) < 2 ^ 31 * 1000"
  obtains t where "mem_report dev s = Some (Inr (s\<lparr>tty := t\<rparr>))"
    and "sent (events t) = sent (events (tty s)) @ stamped_text (unat (ms_count (tty s)))
      (report_text (mem_used s) (mem_rsvd s) (mem_free s) (mem_total s))"
    and "ms_count t = ms_count (tty s)" and "length (print_buff t) = 32"
proof -
  obtain k where o: "items_output report_items [VWord (mem_used s div 1024), VWord (mem_rsvd s div 1024),
      VWord (mem_free s div 1024), VWord (mem_total s div 1024)] 0 =
    Some (report_text (mem_used s) (mem_rsvd s) (mem_free s) (mem_total s), k)" using report_output by blast
  from serial_printf_runs [OF assms(1) o report_ok assms(2,3)] show thesis
    by (auto simp: mem_report_def tty_op_def report_format stamped_text_def ppa_get_mem_used_def
        ppa_get_mem_rsvd_def ppa_get_mem_free_def ppa_get_mem_total_def intro: that)
qed

text \<open>A string printed with a line end.\<close>

lemma string_line:
  assumes "keeps_showing dev 0x3FD 0x20" and "string_at str = Some xs" and "int (length xs) + 1 \<le> INT_MAX"
    and "length (print_buff t) = 32" and "unat (ms_count t) < 2 ^ 31 * 1000"
  obtains t' where "serial_printf dev (line ''%s'') [VPtr a str] t = Some (Inr t')"
    and "sent (events t') = sent (events t) @ stamped_text (unat (ms_count t)) (map sint xs @ [10])"
    and "ms_count t' = ms_count t" and "length (print_buff t') = 32"
proof -
  have fmt: "line ''%s'' = format_text [plain 115, Lit 10] @ [0]"
    by (simp add: line_def lit_def plain_def format_text_def dir_text_def length_text_def)
  have o: "items_output [plain 115, Lit 10] [VPtr a str] 0 = Some (map sint xs @ [10], int (length xs) + 1)"
    using assms(2,3) by (simp add: plain_def dir_meaning_def dir_output_def Let_def INT_MIN_def)
  have ok: "item_ok x" if "x \<in> set [plain 115, Lit 10]" for x using that plain_ok [of 115] by auto
  from serial_printf_runs [OF assms(1) o ok assms(4,5)] show thesis
    by (auto simp: fmt stamped_text_def intro: that)
qed

section \<open>The colour chart\<close>

text \<open>What drawing may change: the cursor, the colours, and memory in the frame buffer.\<close>

definition paints :: "screen \<Rightarrow> screen \<Rightarrow> bool" where
  "paints = (\<lambda>(c, m) (c', m').
     c' = c\<lparr>dst_x := dst_x c', dst_y := dst_y c', dst_fg := dst_fg c', dst_bg := dst_bg c'\<rparr> \<and>
     (\<forall>a. a \<notin> frame c \<longrightarrow> m' a = m a))"

lemma paints_frame: "paints (c, m) (c', m') \<Longrightarrow> frame c' = frame c"
proof -
  assume "paints (c, m) (c', m')"
  then have c': "c' = c\<lparr>dst_x := dst_x c', dst_y := dst_y c', dst_fg := dst_fg c', dst_bg := dst_bg c'\<rparr>"
    by (simp add: paints_def)
  show ?thesis by (subst c') (simp add: frame_def pixels_def pixel_def)
qed

lemma paints_refl: "paints s s"
  by (simp add: paints_def split: prod.split)

lemma paints_trans:
  assumes "paints s s'" and "paints s' s''"
  shows "paints s s''"
proof -
  obtain c m c' m' c'' m'' where s: "s = (c, m)" "s' = (c', m')" "s'' = (c'', m'')" by (metis surj_pair)
  have c: "c' = c\<lparr>dst_x := dst_x c', dst_y := dst_y c', dst_fg := dst_fg c', dst_bg := dst_bg c'\<rparr>"
    "c'' = c'\<lparr>dst_x := dst_x c'', dst_y := dst_y c'', dst_fg := dst_fg c'', dst_bg := dst_bg c''\<rparr>"
    using assms by (simp_all add: s paints_def)
  have "c'' = c\<lparr>dst_x := dst_x c'', dst_y := dst_y c'', dst_fg := dst_fg c'', dst_bg := dst_bg c''\<rparr>"
    by (subst c(2), subst c(1)) simp
  then show ?thesis using assms paints_frame [of c m c' m'] by (simp add: s paints_def)
qed

lemma paints_step:
  assumes "screen_step (set_color fg bg c, m) s'"
  shows "paints (c, m) s'"
proof -
  obtain c' m' where s': "s' = (c', m')" by (cases s')
  have c': "c' = (set_color fg bg c)\<lparr>dst_x := dst_x c', dst_y := dst_y c'\<rparr>"
    using assms by (simp add: s' screen_step_def)
  have "c' = c\<lparr>dst_x := dst_x c', dst_y := dst_y c', dst_fg := dst_fg c', dst_bg := dst_bg c'\<rparr>"
    by (subst c', subst (3 4) c') (simp add: set_color_def)
  moreover have "frame (set_color fg bg c) = frame c"
    by (simp add: set_color_def frame_def pixels_def pixel_def)
  ultimately show ?thesis using assms by (simp add: s' screen_step_def paints_def)
qed

lemma screen_fits_mono:
  assumes "screen_fits d (k + n) s"
  shows "screen_fits d n s"
proof -
  obtain c m where s: "s = (c, m)" by (cases s)
  have "steps_within d c m" using assms by (simp add: s screen_fits_def)
  from steps_withinD(1) [OF this, of m] have "0 \<le> d" by (intro order_trans [of 0 "uint _" d]) simp_all
  then have "d * int n \<le> d * int (k + n)" by (intro mult_left_mono) simp_all
  then show ?thesis using assms by (auto simp: s screen_fits_def)
qed

lemma chart_entry_step:
  assumes "screen_fits d (length str + 1 + n) s" and "0 \<notin> set (map of_char str :: u8 list)"
  shows "\<exists>s'. chart_entry (fg, bg, str, ln) s = Inr s' \<and> paints s s' \<and> screen_fits d n s'"
proof -
  obtain c m where s: "s = (c, m)" by (cases s)
  have str: "cstr (lit str) 0 (map of_char str)"
    unfolding cstr_def lit_def using assms(2) by (intro conjI exI [of _ "[]"]) simp_all
  have "screen_fits d (length (map of_char str :: u8 list) + (1 + n)) (set_color fg bg c, m)"
    using set_color_step assms(1) by (simp add: s add.assoc)
  from puts_step [OF this str] obtain c1 m1 where
    s1: "puts (lit str) 0 (set_color fg bg c, m) = Inr (0, c1, m1)"
      "screen_step (set_color fg bg c, m) (c1, m1)" "screen_fits d (Suc n) (c1, m1)" by auto
  show ?thesis
  proof (cases ln)
    case False
    have "screen_fits d n (c1, m1)" using s1(3) screen_fits_mono [of d 1 n] by simp
    then show ?thesis using s1(1) paints_step [OF s1(2)] False by (simp add: s chart_entry_def Let_def)
  next
    case True
    from putc_step [OF s1(3), of 10] obtain s2 where
      s2: "putc 10 (c1, m1) = Inr (10, s2)" "screen_step (c1, m1) s2" "screen_fits d n s2" by blast
    then show ?thesis
      using s1(1) paints_step [OF screen_step_trans [OF s1(2) s2(2)]] True
      by (auto simp: s chart_entry_def putln_def Let_def split: prod.split)
  qed
qed

lemma chart_steps:
  assumes "screen_fits d (sum_list (map (\<lambda>(fg, bg, str, ln). length str + 1) es) + n) s"
    and "\<forall>(fg, bg, str, ln)\<in>set es. 0 \<notin> set (map of_char str :: u8 list)"
  shows "\<exists>s'. mfold chart_entry es s = Inr s' \<and> paints s s' \<and> screen_fits d n s'"
  using assms
proof (induction es arbitrary: s)
  case (Cons e es)
  obtain fg bg str ln where e: "e = (fg, bg, str, ln)" by (metis prod_cases4)
  have "screen_fits d (length str + 1 + (sum_list (map (\<lambda>(fg, bg, str, ln). length str + 1) es) + n)) s"
    using Cons.prems(1) by (simp add: e add.assoc)
  from chart_entry_step [OF this, of fg bg ln] obtain s1 where
    s1: "chart_entry e s = Inr s1" "paints s s1"
      "screen_fits d (sum_list (map (\<lambda>(fg, bg, str, ln). length str + 1) es) + n) s1"
    using Cons.prems(2) by (auto simp: e)
  obtain s2 where "mfold chart_entry es s1 = Inr s2" "paints s1 s2" "screen_fits d n s2"
    using Cons.IH [OF s1(3)] Cons.prems(2) by auto
  then show ?case using s1 paints_trans [OF s1(2)] by auto
qed (simp add: paints_refl)

lemma colour_chart_length: "sum_list (map (\<lambda>(fg, bg, str, ln). length str + 1) colour_chart) = 176"
  by (simp add: colour_chart_def)

lemma colour_chart_strings: "\<forall>(fg, bg, str, ln)\<in>set colour_chart. 0 \<notin> set (map of_char str :: u8 list)"
  by (simp add: colour_chart_def)

text \<open>The last word, four columns from the right in the first row.\<close>

lemma puts_at_done:
  assumes fits: "screen_fits d n (c, m)" and "d * 4 \<le> 32768"
    and fw: "fw = uint (width (load_font m (ssfn_src c)))" "0 < fw" "4 * fw \<le> dst_w c"
  shows "\<exists>m'. puts_at (- 4) 0 (lit ''DONE'') (c, m) = Inr (c, m') \<and> paints (c, m) (c, m')"
proof -
  define k where "k = dst_w c div fw"
  have w: "0 < dst_w c" "dst_w c \<le> 2 ^ 29" using fits by (simp_all add: screen_fits_def)
  have "4 * fw div fw = 4" using fw(2) by simp
  then have k4: "4 \<le> k" using zdiv_mono1 [OF fw(3,2)] by (simp only: k_def)
  have kw: "k * fw \<le> dst_w c" 
    unfolding k_def using div_mult_mod_eq [of "dst_w c" fw] pos_mod_sign [OF fw(2), of "dst_w c"] by linarith
  have "k * 1 \<le> k * fw" by (rule mult_left_mono) (use fw(2) k4 in simp_all)
  then have kb: "k \<le> 2 ^ 29" using kw w(2) by linarith
  have n: "sgn (dst_w c) * (\<bar>dst_w c\<bar> div fw) = k" using w(1) by (simp add: k_def)
  have "wrap_neg (dst_w c) fw (- 4) = rbind (c_int (- 4 + k)) (wrap_neg (dst_w c) fw)"
    using fw(2) k4 by (subst wrap_neg.simps) (simp add: n Let_def)
  also have "\<dots> = Inr (k - 4)"
    using k4 kb by (subst c_int_ok) (simp_all add: INT_MIN_def INT_MAX_def wrap_neg.simps)
  finally have x: "wrap_neg (dst_w c) fw (- 4) = Inr (k - 4)" .
  have y: "wrap_neg (dst_h c) fh 0 = Inr 0" for fh by (simp add: wrap_neg.simps)
  define px where "px = (k - 4) * fw"
  have px: "0 \<le> px" "px < dst_w c" using k4 kw fw(2) by (simp_all add: px_def left_diff_distrib)
  then have cx: "c_int ((k - 4) * fw) = Inr px" "c_int (0 * fh) = Inr 0" for fh
    using w(2) by (simp_all add: px_def c_int_def INT_MIN_def INT_MAX_def)
  let ?c = "c\<lparr>dst_x := px, dst_y := 0\<rparr>"
  have str: "cstr (lit ''DONE'') 0 (map of_char ''DONE'')"
    unfolding cstr_def lit_def by (intro conjI exI [of _ "[]"]) simp_all
  have "font_apart ?c m = font_apart c m" "steps_within d ?c m = steps_within d c m"
    by (simp_all add: font_apart_def steps_within_def)
  then have "screen_fits d (length (map of_char ''DONE'' :: u8 list) + 0) (?c, m)"
    using fits px assms(2) by (simp add: screen_fits_def)
  from puts_step [OF this str] obtain c1 m1 where
    run: "puts (lit ''DONE'') 0 (?c, m) = Inr (0, c1, m1)" and st: "screen_step (?c, m) (c1, m1)" by auto
  have c1: "c1 = ?c\<lparr>dst_x := dst_x c1, dst_y := dst_y c1\<rparr>" using st by (simp add: screen_step_def)
  have restored: "c1\<lparr>dst_x := dst_x c, dst_y := dst_y c\<rparr> = c" by (subst c1) simp
  have "puts_at (- 4) 0 (lit ''DONE'') (c, m) = Inr (c, m1)"
    using x y cx run by (simp add: puts_at_def fw(1) [symmetric] Let_def restored)
  moreover have "paints (c, m) (c, m1)" using st by (simp add: screen_step_def paints_def)
  ultimately show ?thesis by blast
qed

section \<open>A machine the chart can be drawn on\<close>

text \<open>The bytes a set of addresses holds determine the font, and no glyph moves the cursor further than \<open>d\<close>.\<close>

definition font_in :: "int \<Rightarrow> u64 set \<Rightarrow> console \<Rightarrow> mem \<Rightarrow> bool" where
  "font_in d K c m \<longleftrightarrow>
     (\<forall>m'. (\<forall>x\<in>K. m' x = m x) \<longrightarrow>
        load_font m' (ssfn_src c) = load_font m (ssfn_src c) \<and> (\<forall>u. glyph_of c m' u = glyph_of c m u)) \<and>
     uint (height (load_font m (ssfn_src c))) \<le> d \<and>
     (\<forall>u chr. glyph_of c m u = Some chr \<longrightarrow> chr \<in> K \<and> chr + 5 \<in> K \<and> m chr AND 0x40 = 0 \<and>
        uint (m (chr + 5)) + uint (height (load_font m (ssfn_src c))) \<le> d)"

lemma font_in_use:
  assumes font: "font_in d K c m" and "K \<inter> frame c = {}" and same: "\<forall>x\<in>K. m' x = m x"
  shows "font_apart c m'" and "steps_within d c m'" and "load_font m' (ssfn_src c) = load_font m (ssfn_src c)"
proof -
  have agree: "load_font m'' (ssfn_src c) = load_font m (ssfn_src c)" "glyph_of c m'' u = glyph_of c m u"
    if "\<forall>x\<in>K. m'' x = m x" for m'' u
    using font that unfolding font_in_def by blast+
  have glyph: "chr \<in> K" "chr + 5 \<in> K" "m chr AND 0x40 = 0"
    "uint (m (chr + 5)) + uint (height (load_font m (ssfn_src c))) \<le> d" if "glyph_of c m u = Some chr" for u chr
    using font that unfolding font_in_def by blast+
  have keep: "\<forall>x\<in>K. m'' x = m x" if "\<forall>a. a \<notin> frame c \<longrightarrow> m'' a = m' a" for m''
  proof
    fix x
    assume "x \<in> K"
    then have "x \<notin> frame c" using assms(2) by blast
    with that same \<open>x \<in> K\<close> show "m'' x = m x" by simp
  qed
  show "load_font m' (ssfn_src c) = load_font m (ssfn_src c)" by (rule agree(1) [OF same])
  show "font_apart c m'"
    unfolding font_apart_def agree [OF same]
  proof (intro conjI allI impI)
    fix m'' u
    assume "\<forall>a. a \<notin> frame c \<longrightarrow> m'' a = m' a"
    from agree [OF keep [OF this]]
    show "load_font m'' (ssfn_src c) = load_font m (ssfn_src c)" "glyph_of c m'' u = glyph_of c m u" by blast+
  next
    fix u chr
    assume "glyph_of c m u = Some chr"
    note g = glyph [OF this]
    show "chr \<notin> frame c" using g(1) assms(2) by blast
    have "m' chr = m chr" using g(1) same by blast
    then show "m' chr AND 0x40 = 0" using g(3) by simp
  qed
  have "uint (height (load_font m (ssfn_src c))) \<le> d" using font unfolding font_in_def by blast
  then show "steps_within d c m'"
    unfolding steps_within_def
  proof (intro allI impI conjI)
    fix m'' u chr
    assume s: "\<forall>a. a \<notin> frame c \<longrightarrow> m'' a = m' a"
    show "uint (height (load_font m'' (ssfn_src c))) \<le> d"
      unfolding agree(1) [OF keep [OF s]] by fact
    assume "glyph_of c m'' u = Some chr"
    then have "glyph_of c m u = Some chr" using agree(2) [OF keep [OF s]] by simp
    note g = glyph [OF this]
    have "m'' (chr + 5) = m (chr + 5)" using keep [OF s] g(2) by blast
    then show "uint (m'' (chr + 5)) + uint (height (load_font m'' (ssfn_src c))) \<le> d"
      using g(4) unfolding agree(1) [OF keep [OF s]] by simp
  qed
qed

text \<open>
  The bytes that are as they were when the chart is drawn: those of taken frames without the bitmap,
  the page of the mapping test and the screen. The screen itself is the frame buffer the kernel has locked.
\<close>

definition kept_bytes ::
    "symbols \<Rightarrow> FrameBuffer \<Rightarrow> EfiMemoryDescriptor list \<Rightarrow> EfiMemoryDescriptor \<Rightarrow> console \<Rightarrow> u64 set" where
  "kept_bytes sy b ds seg c = {x. start_taken sy b ds seg (unat x div 4096) \<and>
     unat x div 4096 \<notin> bitmap_frames ds seg \<and> unat x div 4096 \<noteq> 0x80 \<and> x \<notin> frame c}"

text \<open>The frames of the screen.\<close>

definition screen_frame ::
    "FrameBuffer \<Rightarrow> EfiMemoryDescriptor list \<Rightarrow> EfiMemoryDescriptor \<Rightarrow> nat \<Rightarrow> bool" where
  "screen_frame b ds seg j \<longleftrightarrow>
     j \<in> frames_from (fbbase b) (unat ((fbsize b + 4096) div 4096)) \<and> j \<notin> bitmap_frames ds seg \<and> j \<noteq> 0x80"

definition start_console :: "symbols \<Rightarrow> FrameBuffer \<Rightarrow> console" where
  "start_console sy b = conlib_init (sym_font sy) (fbbase b) (fb_width b) (fb_height b) (ppsl b * 4)"

definition drawable ::
    "int \<Rightarrow> symbols \<Rightarrow> FrameBuffer \<Rightarrow> EfiMemoryDescriptor list \<Rightarrow> EfiMemoryDescriptor \<Rightarrow> mem \<Rightarrow> bool" where
  "drawable d sy b ds seg m \<longleftrightarrow>
     (let c = start_console sy b; fw = uint (width (load_font m (ssfn_src c)))
      in 0 < dst_w c \<and> dst_w c \<le> 2 ^ 29 \<and> 0 < dst_h c \<and> uint (dst_p c) mod 4 = 0 \<and>
         0 < fw \<and> 4 * fw \<le> dst_w c \<and> d * 176 \<le> 32768 \<and> font_in d (kept_bytes sy b ds seg c) c m \<and>
         (\<forall>a\<in>frame c. screen_frame b ds seg (unat a div 4096)))"

lemma drawable_start:
  assumes draw: "drawable d sy b ds seg m" and c: "c = start_console sy b"
    and same: "\<forall>x\<in>kept_bytes sy b ds seg c. m' x = m x"
  obtains c1 m1 m2 where "mfold chart_entry colour_chart (c, m') = Inr (c1, m1)"
    and "puts_at (- 4) 0 (lit ''DONE'') (c1, m1) = Inr (c1, m2)" and "paints (c, m') (c1, m2)"
proof -
  let ?fw = "uint (width (load_font m (ssfn_src c)))"
  have d: "0 < dst_w c" "dst_w c \<le> 2 ^ 29" "0 < dst_h c" "uint (dst_p c) mod 4 = 0" "0 < ?fw"
      "4 * ?fw \<le> dst_w c" "d * 176 \<le> 32768" and font: "font_in d (kept_bytes sy b ds seg c) c m"
    using draw by (simp_all add: drawable_def Let_def c)
  have "kept_bytes sy b ds seg c \<inter> frame c = {}" by (auto simp: kept_bytes_def)
  note use = font_in_use [OF font this same]
  have start: "dst_x c = 0" "dst_y c = 0" by (simp_all add: c start_console_def conlib_init_def)
  have fits: "screen_fits d (176 + 0) (c, m')" using d start use by (simp add: screen_fits_def)
  obtain c1 m1 where
    chart: "mfold chart_entry colour_chart (c, m') = Inr (c1, m1)" "paints (c, m') (c1, m1)" "screen_fits d 0 (c1, m1)"
    using chart_steps [of d colour_chart 0 "(c, m')"] fits colour_chart_strings unfolding colour_chart_length by auto
  have c1: "c1 = c\<lparr>dst_x := dst_x c1, dst_y := dst_y c1, dst_fg := dst_fg c1, dst_bg := dst_bg c1\<rparr>"
    and out: "\<forall>a. a \<notin> frame c \<longrightarrow> m1 a = m' a" using chart(2) by (simp_all add: paints_def)
  have geo: "ssfn_src c1 = ssfn_src c" "dst_w c1 = dst_w c" by (subst c1, simp)+
  have "load_font m1 (ssfn_src c) = load_font m' (ssfn_src c)"
    using use(1) out unfolding font_apart_def by blast
  then have fw: "?fw = uint (width (load_font m1 (ssfn_src c1)))" by (simp add: geo use(3))
  have "0 \<le> d" using font unfolding font_in_def by (blast intro: order_trans [OF uint_ge_0])
  then have "d * 4 \<le> d * 176" by simp
  then have "d * 4 \<le> 32768" using d(7) by linarith
  from puts_at_done [OF chart(3) this fw d(5)] d(6) obtain m2 where
    "puts_at (- 4) 0 (lit ''DONE'') (c1, m1) = Inr (c1, m2)" "paints (c1, m1) (c1, m2)" by (auto simp: geo)
  then show thesis using chart(1) paints_trans [OF chart(2)] by (intro that)
qed

end
