(* ===== verification/KernelBoot.thy ===== *)
theory KernelBoot
  imports KernelUp
begin

text \<open>
  \<open>_start\<close> as a whole, up to its waiting loop: the state after the mapping test, the chart drawn on it, and
  all that has been transmitted.
\<close>

section \<open>After the mapping test\<close>

definition print_text :: string where
  "print_text = ''DIXITQVE DEVS FIAT LVX ET FACTA EST LVX''"

text \<open>The string the test copies: its bytes are in the kernel's image, that is, in frames taken.\<close>

definition string_there ::
    "symbols \<Rightarrow> FrameBuffer \<Rightarrow> EfiMemoryDescriptor list \<Rightarrow> EfiMemoryDescriptor \<Rightarrow> mem \<Rightarrow> bool" where
  "string_there sy b ds seg m \<longleftrightarrow>
     (\<forall>i<40. m (sym_print_str sy + of_nat i) = lit print_text ! i \<and>
        (let j = unat (sym_print_str sy + of_nat i) div 4096
         in start_taken sy b ds seg j \<and> j \<notin> bitmap_frames ds seg \<and> j \<noteq> 0x80 \<and> j \<noteq> 0x600000))"

definition kernel_tested ::
    "symbols \<Rightarrow> FrameBuffer \<Rightarrow> EfiMemoryDescriptor list \<Rightarrow> EfiMemoryDescriptor \<Rightarrow> mem \<Rightarrow> kernel \<Rightarrow> bool" where
  "kernel_tested sy b ds seg m s \<longleftrightarrow>
     pmm_ready s \<and> accounted s \<and> mem_total s = of_nat (4096 * total_frames ds) \<and>
     (\<forall>w. unat w < 2 ^ 48 \<longrightarrow> pmm_find_paddr w s =
        (if page_of w = test_page then 0x80000
         else if page_of w < of_nat (4096 * total_frames ds) \<or>
           fbbase b \<le> page_of w \<and> page_of w < fbbase b + (fbsize b + 4096) then page_of w else 0)) \<and>
     cpu_cr3 s = PML4 s \<and> cpu_gdt s = \<lparr>gdt_size = 4095, gdt_offset = sym_DEFAULT_GDT sy\<rparr> \<and>
     cpu_cs s = 0x08 \<and> cpu_ds s = 0x10 \<and> idt_size (cpu_idt s) = 4095 \<and>
     (\<forall>i h. handler_of sy i = Some h \<longrightarrow>
        load_idt_entry (phys s) (idt_offset (cpu_idt s) + of_nat (16 * i)) =
          IDT_CREATE_ENTRY h 0x08 0 IDT_INTERRUPT_GATE) \<and>
     con s = start_console sy b \<and>
     (\<forall>i<40. virt s (test_page + of_nat i) = 0x80000 + of_nat i \<and>
        phys s (0x80000 + of_nat i) = lit print_text ! i) \<and>
     (\<forall>x\<in>kept_bytes sy b ds seg (start_console sy b). phys s x = m x) \<and>
     page_aligned (idt_offset (cpu_idt s)) \<and>
     (\<forall>x. screen_frame b ds seg (unat x div 4096) \<longrightarrow> spare s x \<and> page_of x \<noteq> idt_offset (cpu_idt s)) \<and>
     length (print_buff (tty s)) = 32"

lemma kernel_tested_tty:
  assumes "kernel_tested sy b ds seg m s" and "length (print_buff t) = 32"
  shows "kernel_tested sy b ds seg m (s\<lparr>tty := t\<rparr>)"
proof -
  have same: "phys (s\<lparr>tty := t\<rparr>) = phys s" "ppa_bitmap (s\<lparr>tty := t\<rparr>) = ppa_bitmap s"
    "last_hit (s\<lparr>tty := t\<rparr>) = last_hit s" "PML4 (s\<lparr>tty := t\<rparr>) = PML4 s" by simp_all
  have "accounted (s\<lparr>tty := t\<rparr>) = accounted s" by (simp add: accounted_def)
  then show ?thesis
    using assms unfolding kernel_tested_def same same_memory [OF same] by simp
qed

lemma start_taken_low: "start_taken sy b ds seg j \<Longrightarrow> j < total_frames ds"
  by (auto simp: start_taken_def boot_taken_def)

lemma page_num: "unat (page_of x) = 4096 * (unat x div 4096)"
proof -
  have "unat (page_of x) mod 4096 = 0" using page_aligned_page_of [of x] by (simp only: page_aligned_mod)
  then show ?thesis using page_of_frame [of x] div_mult_mod_eq [of "unat (page_of x)" 4096] by simp
qed

lemma kernel_up_string:
  assumes up: "kernel_up sy b ds seg m s" and small: "total_frames ds < 2 ^ 35"
    and there: "string_there sy b ds seg m" and "i < 40"
  shows "test_source s (sym_print_str sy + of_nat i)" and "phys s (sym_print_str sy + of_nat i) = lit print_text ! i"
proof -
  define a where "a = sym_print_str sy + of_nat i"
  define j where "j = unat a div 4096"
  have a: "m a = lit print_text ! i" "start_taken sy b ds seg j" "j \<notin> bitmap_frames ds seg" "j \<noteq> 0x80" "j \<noteq> 0x600000"
    using there assms(4) unfolding string_there_def a_def j_def Let_def by blast+
  have data: "data_page s (PML4 s) (page_of a)" "phys s a = m a"
    using up a(2,3) unfolding kernel_up_def j_def by blast+
  have j: "j < total_frames ds" by (rule start_taken_low [OF a(2)])
  have pg: "unat (page_of a) = 4096 * j" by (simp add: page_num j_def)
  have low: "unat a < 2 ^ 48"
  proof -
    have "unat a div 4096 < 2 ^ 35" using j small unfolding j_def by linarith
    then have "unat a < 2 ^ 35 * 4096" by (simp add: div_less_iff_less_mult)
    then show ?thesis by simp
  qed
  have "unat (of_nat (4096 * total_frames ds) :: u64) = 4096 * total_frames ds"
    by (rule unat_of_nat_small) (use small in simp)
  then have "page_of a < of_nat (4096 * total_frames ds)"
    using j by (simp only: word_less_nat_alt pg)
  moreover have "identity_map s (pages_from 0 (of_nat (4096 * total_frames ds)) \<union>
      pages_from (fbbase b) (fbbase b + (fbsize b + 4096)))" using up unfolding kernel_up_def by blast
  ultimately have "pmm_find_paddr a s = page_of a" using identity_translation [OF _ refl low] by metis
  moreover have "page_of a \<noteq> 0x80000" "page_of a \<noteq> test_page" using pg a(4,5) by auto
  ultimately have "test_source s a" using data(1) by (simp add: test_source_def page48_low [OF low])
  then show "test_source s (sym_print_str sy + of_nat i)"
    and "phys s (sym_print_str sy + of_nat i) = lit print_text ! i"
    using data(2) a(1) by (simp_all add: a_def)
qed

lemma beyond_spare:
  assumes ready: "pmm_ready s" and "frames_limit s \<le> unat x div 4096"
  shows "spare s x"
  unfolding spare_def
proof (intro conjI allI impI notI)
  assume "x \<in> bitmap_bytes (ppa_bitmap s)"
  then have "frame_used s (unat x div 4096)"
    using ready by (simp add: pmm_ready_def allocator_ready_def)
  then show False using assms(2) by (simp add: frame_used_def)
next
  fix j w
  assume j: "j \<le> (3 :: nat)" and w: "pt_walk (table_entry (phys s)) (PML4 s) j w = Some (page_of x)"
  have "tables_tree (client_page s) (table_entry (phys s)) (PML4 s)"
    using ready by (simp add: pmm_ready_def pmm_tables_def)
  from tables_tree_own [OF this j w] have "frame_used s (unat x div 4096)"
    by (simp add: client_page_def page_of_frame)
  then show False using assms(2) by (simp add: frame_used_def)
qed

text \<open>The bytes of the screen are in frames taken or beyond all frames.\<close>

lemma screen_frame_taken:
  "screen_frame b ds seg j \<Longrightarrow> j < total_frames ds \<Longrightarrow> start_taken sy b ds seg j"
  by (simp add: screen_frame_def start_taken_def)

text \<open>The test, on the state the start leaves.\<close>

lemma test_kernel:
  assumes up: "kernel_up sy b ds seg m s" and fits: "fits_machine ds" and page: "0x80 \<notin> bitmap_frames ds seg"
    and there: "string_there sy b ds seg m" and left: "3 \<le> card (frames_ahead s)"
    and s': "s' = virt_memcpy 40 test_page (sym_print_str sy) (pmm_map_memory test_page 0x80000 s)"
  shows "kernel_tested sy b ds seg m s'" and "tty s' = tty s"
proof -
  have small: "total_frames ds < 2 ^ 35" "256 \<le> total_frames ds" using fits by (simp_all add: fits_machine_def)
  define s1 where "s1 = pmm_map_memory test_page 0x80000 s"
  have id: "identity_map s (pages_from 0 (of_nat (4096 * total_frames ds)) \<union>
      pages_from (fbbase b) (fbbase b + (fbsize b + 4096)))" using up unfolding kernel_up_def by blast
  have kept: "data_page s (PML4 s) (page_of x)" "page_of x \<noteq> idt_offset (cpu_idt s)" "phys s x = m x"
    if "start_taken sy b ds seg (unat x div 4096)" "unat x div 4096 \<notin> bitmap_frames ds seg" for x
    using up that unfolding kernel_up_def by blast+
  have "start_taken sy b ds seg 0x80" using small by (simp add: start_taken_def boot_taken_def)
  then have dst: "data_page s (PML4 s) 0x80000" "0x80000 \<noteq> idt_offset (cpu_idt s)"
    using kept(1,2) [of "0x80000"] page test_page_low(2) by simp_all
  have missing: "tables_missing s (PML4 s) test_page \<le> card (frames_ahead s)"
    using left by (simp add: tables_missing_def)
  have src: "\<forall>i<40. test_source s (sym_print_str sy + of_nat i)" "i < 40 \<Longrightarrow>
      phys s (sym_print_str sy + of_nat i) = lit print_text ! i" for i
    using kernel_up_string [OF up small(1) there] by blast+
  note run = mapping_test_run [OF identity_mapD(1) [OF id] missing dst(1) src(1) s1_def s' [folded s1_def]]
  obtain mm where mm: "s' = s1\<lparr>phys := mm\<rparr>" using run(1) by blast
  have "ppa.more s1 = ppa.more s" by (simp add: s1_def pmm_map_memory_more)
  note more = pmm_more_ppa [OF this]
  show tty: "tty s' = tty s" using untouched_more [OF more] by (simp add: mm untouched_def)
  have cpu: "cpu_idt s' = cpu_idt s" "cpu_cr3 s' = cpu_cr3 s" "cpu_gdt s' = cpu_gdt s" "cpu_cs s' = cpu_cs s"
      "cpu_ds s' = cpu_ds s" "con s' = con s"
    using more by (cases s, cases s1, simp add: mm)+
  note same = same_tablesD [OF run(2)]
  have root: "PML4 s' = PML4 s" using pmm_map_memory_run(2) [OF identity_mapD(1) [OF id] missing s1_def] same(2) by simp
  have steady: "steady s s'"
    using steady_map [of s test_page "0x80000"] unfolding s1_def [symmetric]
    by (rule steady_trans) (simp add: steady_same mm)
  then have bm: "ppa_bitmap s' = ppa_bitmap s" and acc: "accounted s'" and "mem_total s' = mem_total s"
    using up by (simp_all add: steady_def kernel_up_def)
  have limit: "frames_limit s' = total_frames ds" using up bm by (simp add: frames_limit_def kernel_up_def)
  have idt: "data_page s (PML4 s) (idt_offset (cpu_idt s))" using up unfolding kernel_up_def by blast
  then have aligned: "page_aligned (idt_offset (cpu_idt s))" by (simp add: data_page_def client_page_def)
  have gate: "load_idt_entry (phys s') (idt_offset (cpu_idt s') + of_nat (16 * i)) =
      IDT_CREATE_ENTRY h 0x08 0 IDT_INTERRUPT_GATE" if h: "handler_of sy i = Some h" for i h
  proof -
    have "load_idt_entry (phys s') (idt_offset (cpu_idt s) + of_nat (16 * i)) =
        load_idt_entry (phys s) (idt_offset (cpu_idt s) + of_nat (16 * i))"
      by (rule idt_entry_kept [OF aligned handler_small [OF h] run(5)]) (use idt dst(2) in auto)
    then show ?thesis using up h by (simp add: kernel_up_def cpu)
  qed
  have find: "pmm_find_paddr w s' = (if page_of w = test_page then 0x80000
      else if page_of w < of_nat (4096 * total_frames ds) \<or>
        fbbase b \<le> page_of w \<and> page_of w < fbbase b + (fbsize b + 4096) then page_of w else 0)"
    if "unat w < 2 ^ 48" for w
    by (simp only: run(7) page48_low [OF that] identity_translation [OF id refl that])
  have bytes: "phys s' x = m x" if "x \<in> kept_bytes sy b ds seg (start_console sy b)" for x
  proof -
    have x: "start_taken sy b ds seg (unat x div 4096)" "unat x div 4096 \<notin> bitmap_frames ds seg"
      "unat x div 4096 \<noteq> 0x80" using that by (simp_all add: kept_bytes_def)
    then have "page_of x \<noteq> 0x80000" using page_num [of x] by auto
    then show ?thesis using run(5) kept [OF x(1,2)] by simp
  qed
  have screen: "spare s' x \<and> page_of x \<noteq> idt_offset (cpu_idt s')" if x: "screen_frame b ds seg (unat x div 4096)" for x
  proof (cases "unat x div 4096 < total_frames ds")
    case True
    have "unat x div 4096 \<notin> bitmap_frames ds seg" using x by (simp add: screen_frame_def)
    note k = kept [OF screen_frame_taken [OF x True] this]
    show ?thesis using data_page_spare [OF run(6) [OF k(1)]] k(2) by (simp add: cpu)
  next
    case False
    have "frame_used s (unat (idt_offset (cpu_idt s)) div 4096)" using idt by (simp add: data_page_def client_page_def)
    then have "unat (idt_offset (cpu_idt s)) div 4096 < total_frames ds"
      using up by (simp add: frame_used_def kernel_up_def)
    then have "page_of x \<noteq> idt_offset (cpu_idt s)" using False page_of_frame [of x] by auto
    then show ?thesis using beyond_spare [OF same(1), of x] False by (simp add: limit cpu)
  qed
  show "kernel_tested sy b ds seg m s'"
    unfolding kernel_tested_def
  proof (intro conjI allI impI ballI)
    show "pmm_ready s'" "accounted s'" by (rule same(1), rule acc)
    show "virt s' (test_page + of_nat i) = 0x80000 + of_nat i"
      "phys s' (0x80000 + of_nat i) = lit print_text ! i" if "i < 40" for i
      using that run(3,4) src(2) by simp_all
    show "spare s' x" "page_of x \<noteq> idt_offset (cpu_idt s')" if "screen_frame b ds seg (unat x div 4096)" for x
      using screen [OF that] by blast+
  qed (use up find bytes gate aligned \<open>mem_total s' = mem_total s\<close> in
        \<open>simp_all add: cpu root tty kernel_up_def start_console_def\<close>)
qed

section \<open>The chart\<close>

lemma draw_kernel:
  assumes tested: "kernel_tested sy b ds seg m s" and draw: "drawable d sy b ds seg m"
  obtains c1 m1 m2 where "screen_op (mfold chart_entry colour_chart) s = Inr (s\<lparr>phys := m1, con := c1\<rparr>)"
    and "screen_op (puts_at (- 4) 0 (lit ''DONE'')) (s\<lparr>phys := m1, con := c1\<rparr>) = Inr (s\<lparr>phys := m2, con := c1\<rparr>)"
    and "paints (start_console sy b, phys s) (c1, m2)"
    and "\<And>w. pmm_find_paddr w (s\<lparr>phys := m2, con := c1\<rparr>) = pmm_find_paddr w s"
    and "\<And>x. \<not> screen_frame b ds seg (unat x div 4096) \<Longrightarrow> m2 x = phys s x"
    and "\<And>i h. handler_of sy i = Some h \<Longrightarrow>
      load_idt_entry m2 (idt_offset (cpu_idt s) + of_nat (16 * i)) = IDT_CREATE_ENTRY h 0x08 0 IDT_INTERRUPT_GATE"
proof -
  define c where "c = start_console sy b"
  have con: "con s = c" and kept: "\<forall>x\<in>kept_bytes sy b ds seg c. phys s x = m x"
    using tested unfolding kernel_tested_def c_def by blast+
  obtain c1 m1 m2 where chart: "mfold chart_entry colour_chart (c, phys s) = Inr (c1, m1)"
    and word: "puts_at (- 4) 0 (lit ''DONE'') (c1, m1) = Inr (c1, m2)" and paint: "paints (c, phys s) (c1, m2)"
    by (rule drawable_start [OF draw c_def kept])
  have inside: "screen_frame b ds seg (unat x div 4096)" if "x \<in> frame c" for x
    using draw that unfolding drawable_def Let_def c_def by blast
  have out: "m2 x = phys s x" if "\<not> screen_frame b ds seg (unat x div 4096)" for x
    using paint inside that by (auto simp: paints_def)
  have spare: "spare s x \<and> page_of x \<noteq> idt_offset (cpu_idt s)" if "screen_frame b ds seg (unat x div 4096)" for x
    using tested that unfolding kernel_tested_def by blast
  have "m2 x = phys s x" if "\<not> spare s x" for x using out spare that by blast
  moreover have ready: "pmm_ready s" using tested unfolding kernel_tested_def by blast
  ultimately have "same_tables s (s\<lparr>phys := m2\<rparr>)" by (intro spare_writes)
  note same = same_tablesD [OF this]
  let ?s = "s\<lparr>phys := m2\<rparr>" and ?s' = "s\<lparr>phys := m2, con := c1\<rparr>"
  have "phys ?s' = phys ?s" "ppa_bitmap ?s' = ppa_bitmap ?s" "last_hit ?s' = last_hit ?s" "PML4 ?s' = PML4 ?s"
    by simp_all
  note final = same_memory [OF this]
  have aligned: "page_aligned (idt_offset (cpu_idt s))" using tested unfolding kernel_tested_def by blast
  have gate: "load_idt_entry m2 (idt_offset (cpu_idt s) + of_nat (16 * i)) = IDT_CREATE_ENTRY h 0x08 0 IDT_INTERRUPT_GATE"
    if h: "handler_of sy i = Some h" for i h
  proof -
    have "load_idt_entry m2 (idt_offset (cpu_idt s) + of_nat (16 * i)) =
        load_idt_entry (phys s) (idt_offset (cpu_idt s) + of_nat (16 * i))"
      by (rule idt_entry_kept [OF aligned handler_small [OF h] out]) (use spare in blast)
    then show ?thesis using tested h by (simp add: kernel_tested_def)
  qed
  show thesis
    by (rule that [of c1 m1 m2])
      (use chart word con paint out gate same(4) in \<open>simp_all add: screen_op_def final c_def\<close>)
qed

text \<open>The string stays in its frame, which is none of the screen's.\<close>

lemma tested_char:
  assumes tested: "kernel_tested sy b ds seg m s" and i: "i < 40"
    and kept: "\<And>x. \<not> screen_frame b ds seg (unat x div 4096) \<Longrightarrow> m2 x = phys s x"
  shows "m2 (virt s (test_page + of_nat i)) = lit print_text ! i"
proof -
  have "page_of (0x80000 + of_nat i) = 0x80000"
    by (rule page_offset(1) [OF test_page_low(2)]) (use i in simp)
  then have "unat (0x80000 + of_nat i :: u64) div 4096 = 0x80" using page_of_frame [of "0x80000 + of_nat i"] by simp
  then have "m2 (0x80000 + of_nat i) = phys s (0x80000 + of_nat i)" by (intro kept) (simp add: screen_frame_def)
  then show ?thesis using tested i by (simp add: kernel_tested_def)
qed

section \<open>The whole\<close>

lemma init_serial_sent:
  "sent (events (snd (init_serial dev t))) = sent (events t) @ [0x03, 0xAE]"
  "ms_count (snd (init_serial dev t)) = ms_count t" "print_buff (snd (init_serial dev t)) = print_buff t"
  by (simp_all add: init_serial_def COM1_PORT_def io_simps Let_def outb_def emit_def sent_def)

lemma obind_obind: "obind (obind r f) g = obind r (\<lambda>x. obind (f x) g)"
  by (simp add: obind_def split: option.split sum.split)

lemma test_string:
  assumes "kernel_tested sy b ds seg m s"
  shows "string_at (map (\<lambda>i. phys s (virt s (test_page + of_nat i))) [0..<4096]) = Some (map of_char print_text)"
proof -
  let ?char = "\<lambda>i. phys s (virt s (test_page + of_nat i))"
  have len: "length (lit print_text) = 40" by (simp add: lit_def print_text_def)
  have "map ?char [0..<40] = map (nth (lit print_text)) [0..<40]"
    using assms by (intro map_cong) (simp_all add: kernel_tested_def)
  also have "\<dots> = lit print_text" using map_nth [of "lit print_text"] unfolding len .
  finally have "map ?char [0..<40] = lit print_text" .
  moreover have "[0..<4096] = [0..<40] @ [40..<4096]"
    using upt_add_eq_append [of 0 40 4056] by (simp del: upt_rec_numeral)
  ultimately obtain rest where str: "map ?char [0..<4096] = map of_char print_text @ 0 # rest"
    by (simp only: map_append lit_def append_assoc append.simps)
  have "length (map ?char [0..<4096]) = 4096" by (simp only: length_map length_upt)
  moreover have "takeWhile (\<lambda>c. c \<noteq> 0) (map of_char print_text @ 0 # rest) = map of_char print_text"
    by (subst takeWhile_append2) (auto simp: print_text_def)
  ultimately show ?thesis unfolding str by (simp add: string_at_def INT_MAX_def)
qed

text \<open>The interrupts before a step, the clock at \<open>n\<close>.\<close>

lemma irqs_step:
  assumes "keeps_showing dev 0x3FD 0x20" and "length (print_buff (tty s)) = 32" and "ms_count (tty s) = of_nat n"
  obtains t where "tty_op (handle_irqs dev qs) s = Some (Inr (s\<lparr>tty := t\<rparr>))"
    and "sent (events t) = sent (events (tty s)) @ irq_text qs" and "ms_count t = of_nat (n + ticks qs)"
    and "length (print_buff t) = 32"
  using handle_irqs_runs [OF assms(1), of qs "tty s"] assms(2,3) by (auto simp: tty_op_def intro: that)

lemma unat_clock: "n < 2 ^ 31 * 1000 \<Longrightarrow> unat (of_nat n :: u64) = n"
  by (rule unat_of_nat_small) simp

lemma tty_op_at: "f t = Some (Inr t') \<Longrightarrow> tty_op f (s\<lparr>tty := t\<rparr>) = Some (Inr (s\<lparr>tty := t'\<rparr>))"
  by (simp add: tty_op_def)

lemma tty_tty: "s\<lparr>tty := t, tty := t'\<rparr> = (s :: kernel)\<lparr>tty := t'\<rparr>"
  by simp

text \<open>One line of the start, with the interrupts before it.\<close>

lemma line_step:
  assumes dev: "keeps_showing dev 0x3FD 0x20" and s: "length (print_buff (tty s)) = 32" "ms_count (tty s) = of_nat n"
    and late: "n + ticks qs < 2 ^ 31 * 1000" and str: "\<forall>c\<in>set str. of_char c \<notin> {0, 37 :: u8}" "length str < 2 ^ 30"
  obtains t where "obind (tty_op (handle_irqs dev qs) s) (tty_op (serial_printf dev (line str) [])) =
      Some (Inr (s\<lparr>tty := t\<rparr>))"
    and "sent (events t) = sent (events (tty s)) @ irq_text qs @ stamped (n + ticks qs) str"
    and "ms_count t = of_nat (n + ticks qs)" and "length (print_buff t) = 32"
proof -
  obtain t1 where t1: "tty_op (handle_irqs dev qs) s = Some (Inr (s\<lparr>tty := t1\<rparr>))"
      "sent (events t1) = sent (events (tty s)) @ irq_text qs" "ms_count t1 = of_nat (n + ticks qs)"
      "length (print_buff t1) = 32"
    by (rule irqs_step [OF dev s, of qs])
  note clock = unat_clock [OF late]
  obtain t where "serial_printf dev (line str) [] t1 = Some (Inr t)"
      "sent (events t) = sent (events t1) @ stamped (n + ticks qs) str" "ms_count t = ms_count t1"
      "length (print_buff t) = 32"
    by (rule serial_line [OF dev str t1(4)]) (use late in \<open>simp_all add: that t1(3) clock del: of_nat_add\<close>)
  then show thesis by (intro that [of t]) (simp_all add: t1 tty_op_at)
qed

lemma report_step:
  assumes dev: "keeps_showing dev 0x3FD 0x20" and s: "length (print_buff (tty s)) = 32" "ms_count (tty s) = of_nat n"
    and late: "n + ticks qs < 2 ^ 31 * 1000"
  obtains t where "obind (tty_op (handle_irqs dev qs) s) (mem_report dev) = Some (Inr (s\<lparr>tty := t\<rparr>))"
    and "sent (events t) = sent (events (tty s)) @ irq_text qs @ stamped_text (n + ticks qs)
      (report_text (mem_used s) (mem_rsvd s) (mem_free s) (mem_total s))"
    and "ms_count t = of_nat (n + ticks qs)" and "length (print_buff t) = 32"
proof -
  obtain t1 where t1: "tty_op (handle_irqs dev qs) s = Some (Inr (s\<lparr>tty := t1\<rparr>))"
      "sent (events t1) = sent (events (tty s)) @ irq_text qs" "ms_count t1 = of_nat (n + ticks qs)"
      "length (print_buff t1) = 32"
    by (rule irqs_step [OF dev s, of qs])
  let ?s = "s\<lparr>tty := t1\<rparr>"
  have clock: "unat (ms_count (tty ?s)) = n + ticks qs" using unat_clock [OF late] by (simp add: t1(3))
  obtain t where "mem_report dev ?s = Some (Inr (?s\<lparr>tty := t\<rparr>))"
      "sent (events t) = sent (events (tty ?s)) @ stamped_text (unat (ms_count (tty ?s)))
        (report_text (mem_used ?s) (mem_rsvd ?s) (mem_free ?s) (mem_total ?s))"
      "ms_count t = ms_count (tty ?s)" "length (print_buff t) = 32"
    by (rule mem_report_runs [OF dev, of ?s]) (use late in \<open>simp_all only: clock, simp_all add: t1(4)\<close>)
  then show thesis unfolding clock by (intro that [of t]) (simp_all add: t1)
qed

text \<open>The string of the test, printed from its virtual address.\<close>

lemma string_step:
  assumes dev: "keeps_showing dev 0x3FD 0x20" and tested: "kernel_tested sy b ds seg m s"
    and s: "ms_count (tty s) = of_nat n" and late: "n + ticks qs < 2 ^ 31 * 1000"
  obtains t where "obind (tty_op (handle_irqs dev qs) s) (tty_op (serial_printf dev (line ''%s'')
      [VPtr test_page (map (\<lambda>i. phys s (virt s (test_page + of_nat i))) [0..<4096])])) = Some (Inr (s\<lparr>tty := t\<rparr>))"
    and "sent (events t) = sent (events (tty s)) @ irq_text qs @ stamped (n + ticks qs) print_text"
    and "ms_count t = of_nat (n + ticks qs)" and "length (print_buff t) = 32"
proof -
  let ?str = "map (\<lambda>i. phys s (virt s (test_page + of_nat i))) [0..<4096]"
  have "length (print_buff (tty s)) = 32" using tested by (simp add: kernel_tested_def)
  then obtain t1 where t1: "tty_op (handle_irqs dev qs) s = Some (Inr (s\<lparr>tty := t1\<rparr>))"
      "sent (events t1) = sent (events (tty s)) @ irq_text qs" "ms_count t1 = of_nat (n + ticks qs)"
      "length (print_buff t1) = 32"
    by (rule irqs_step [OF dev _ s, of qs])
  have clock: "unat (ms_count t1) = n + ticks qs" using unat_clock [OF late] by (simp add: t1(3))
  obtain t where t: "serial_printf dev (line ''%s'') [VPtr test_page ?str] t1 = Some (Inr t)"
      "sent (events t) = sent (events t1) @ stamped_text (unat (ms_count t1))
        (map sint (map of_char print_text :: u8 list) @ [10])"
      "ms_count t = ms_count t1" "length (print_buff t) = 32"
    by (rule string_line [OF dev test_string [OF tested] _ t1(4)])
      (use late in \<open>simp_all add: print_text_def INT_MAX_def clock\<close>)
  have "stamped_text k (map sint (map of_char print_text :: u8 list) @ [10]) = stamped k print_text" for k
    by (simp add: stamped_text_def stamped_def print_text_def)
  then show thesis using t unfolding clock by (intro that [of t]) (simp_all add: t1 tty_op_at del: map_map)
qed

text \<open>The clock at step \<open>k\<close>, from its start in \<open>init_idt\<close>.\<close>

primrec clock :: "(nat \<Rightarrow> irq list) \<Rightarrow> nat \<Rightarrow> nat" where
  "clock irqs 0 = ticks (irqs 0)"
| "clock irqs (Suc k) = clock irqs k + ticks (irqs (Suc k))"

lemma clock_step: "0 < k \<Longrightarrow> clock irqs k = clock irqs (k - 1) + ticks (irqs k)"
  by (cases k) simp_all

lemma clock_mono: "j \<le> k \<Longrightarrow> clock irqs j \<le> clock irqs k"
  by (induction k) (auto simp: le_Suc_eq)

lemma obind_step: "obind r f = Some (Inr x) \<Longrightarrow> obind r (\<lambda>s. obind (f s) g) = g x"
  using obind_obind [of r f g] by simp

lemma clock_steps:
  "clock irqs 0 + ticks (irqs 1) = clock irqs 1" "clock irqs 1 + ticks (irqs 2) = clock irqs 2"
  "clock irqs 2 + ticks (irqs 3) = clock irqs 3" "clock irqs 3 + ticks (irqs 4) = clock irqs 4"
  "clock irqs 4 + ticks (irqs 5) = clock irqs 5" "clock irqs 5 + ticks (irqs 6) = clock irqs 6"
  by (simp_all add: clock_step [of 1] clock_step [of 2] clock_step [of 3] clock_step [of 4] clock_step [of 5]
      clock_step [of 6])

text \<open>From \<open>init_kernel\<close> to the test.\<close>

lemma before_test:
  assumes dev: "keeps_showing dev 0x3FD 0x20" and up: "kernel_up sy b ds seg m s"
    and s: "ms_count (tty s) = of_nat (clock irqs 0)" and late: "clock irqs 6 < 2 ^ 31 * 1000"
  obtains t where "\<And>g. obind (tty_op (handle_irqs dev (irqs 1)) s) (\<lambda>s. obind (mem_report dev s) (\<lambda>s.
      obind (tty_op (handle_irqs dev (irqs 2)) s) (\<lambda>s.
      obind (tty_op (serial_printf dev (line ''Testing memory mapping...'') []) s) g))) = g (s\<lparr>tty := t\<rparr>)"
    and "sent (events t) = sent (events (tty s)) @
      irq_text (irqs 1) @ stamped_text (clock irqs 1)
        (report_text (mem_used s) (mem_rsvd s) (mem_free s) (mem_total s)) @
      irq_text (irqs 2) @ stamped (clock irqs 2) ''Testing memory mapping...''"
    and "ms_count t = of_nat (clock irqs 2)" and "kernel_up sy b ds seg m (s\<lparr>tty := t\<rparr>)"
proof -
  have time: "clock irqs 1 < 2 ^ 31 * 1000" "clock irqs 2 < 2 ^ 31 * 1000"
    using clock_mono [of 1 6 irqs] clock_mono [of 2 6 irqs] late by simp_all
  have "length (print_buff (tty s)) = 32" using up by (simp add: kernel_up_def)
  then obtain t1 where t1: "obind (tty_op (handle_irqs dev (irqs 1)) s) (mem_report dev) = Some (Inr (s\<lparr>tty := t1\<rparr>))"
      "sent (events t1) = sent (events (tty s)) @ irq_text (irqs 1) @ stamped_text (clock irqs 1)
        (report_text (mem_used s) (mem_rsvd s) (mem_free s) (mem_total s))"
      "ms_count t1 = of_nat (clock irqs 1)" "length (print_buff t1) = 32"
    by (rule report_step [OF dev _ s, of "irqs 1", unfolded clock_steps]) (use time in simp_all)
  let ?s = "s\<lparr>tty := t1\<rparr>"
  have l: "length (print_buff (tty ?s)) = 32" "ms_count (tty ?s) = of_nat (clock irqs 1)" using t1 by simp_all
  obtain t2 where t2: "obind (tty_op (handle_irqs dev (irqs 2)) ?s)
        (tty_op (serial_printf dev (line ''Testing memory mapping...'') [])) = Some (Inr (?s\<lparr>tty := t2\<rparr>))"
      "sent (events t2) = sent (events (tty ?s)) @ irq_text (irqs 2) @
        stamped (clock irqs 2) ''Testing memory mapping...''"
      "ms_count t2 = of_nat (clock irqs 2)" "length (print_buff t2) = 32"
    by (rule line_step [OF dev l, of "irqs 2" "''Testing memory mapping...''", unfolded clock_steps])
      (use time in simp_all)
  show thesis
  proof (rule that [of t2])
    show "kernel_up sy b ds seg m (s\<lparr>tty := t2\<rparr>)" by (rule kernel_up_tty [OF up t2(4)])
    show "obind (tty_op (handle_irqs dev (irqs 1)) s) (\<lambda>s. obind (mem_report dev s) (\<lambda>s.
      obind (tty_op (handle_irqs dev (irqs 2)) s) (\<lambda>s.
      obind (tty_op (serial_printf dev (line ''Testing memory mapping...'') []) s) g))) = g (s\<lparr>tty := t2\<rparr>)" for g
      by (simp only: obind_step [OF t1(1)] obind_step [OF t2(1)] tty_tty)
  qed (use t1(2) t2(2,3) in simp_all)
qed

text \<open>From the test to the chart.\<close>

lemma after_test:
  assumes dev: "keeps_showing dev 0x3FD 0x20" and tested: "kernel_tested sy b ds seg m s"
    and s: "ms_count (tty s) = of_nat (clock irqs 2)" and late: "clock irqs 6 < 2 ^ 31 * 1000"
  obtains t where "\<And>g. obind (tty_op (handle_irqs dev (irqs 3)) s) (\<lambda>s'. obind (tty_op (serial_printf dev (line ''%s'')
        [VPtr test_page (map (\<lambda>i. phys s (virt s (test_page + of_nat i))) [0..<4096])]) s') (\<lambda>s.
      obind (tty_op (handle_irqs dev (irqs 4)) s) (\<lambda>s.
      obind (tty_op (serial_printf dev (line ''Memory mapping OK.'') []) s) (\<lambda>s.
      obind (tty_op (handle_irqs dev (irqs 5)) s) (\<lambda>s. obind (mem_report dev s) g))))) = g (s\<lparr>tty := t\<rparr>)"
    and "sent (events t) = sent (events (tty s)) @ irq_text (irqs 3) @ stamped (clock irqs 3) print_text @
      irq_text (irqs 4) @ stamped (clock irqs 4) ''Memory mapping OK.'' @
      irq_text (irqs 5) @ stamped_text (clock irqs 5)
        (report_text (mem_used s) (mem_rsvd s) (mem_free s) (mem_total s))"
    and "ms_count t = of_nat (clock irqs 5)" and "kernel_tested sy b ds seg m (s\<lparr>tty := t\<rparr>)"
proof -
  have time: "clock irqs 3 < 2 ^ 31 * 1000" "clock irqs 4 < 2 ^ 31 * 1000" "clock irqs 5 < 2 ^ 31 * 1000"
    using clock_mono [of 3 6 irqs] clock_mono [of 4 6 irqs] clock_mono [of 5 6 irqs] late by simp_all
  obtain t1 where t1: "obind (tty_op (handle_irqs dev (irqs 3)) s) (tty_op (serial_printf dev (line ''%s'')
        [VPtr test_page (map (\<lambda>i. phys s (virt s (test_page + of_nat i))) [0..<4096])])) = Some (Inr (s\<lparr>tty := t1\<rparr>))"
      "sent (events t1) = sent (events (tty s)) @ irq_text (irqs 3) @ stamped (clock irqs 3) print_text"
      "ms_count t1 = of_nat (clock irqs 3)" "length (print_buff t1) = 32"
    by (rule string_step [OF dev tested s, of "irqs 3", unfolded clock_steps]) (use time in simp_all)
  let ?s = "s\<lparr>tty := t1\<rparr>"
  have l: "length (print_buff (tty ?s)) = 32" "ms_count (tty ?s) = of_nat (clock irqs 3)" using t1 by simp_all
  obtain t2 where t2: "obind (tty_op (handle_irqs dev (irqs 4)) ?s)
        (tty_op (serial_printf dev (line ''Memory mapping OK.'') [])) = Some (Inr (?s\<lparr>tty := t2\<rparr>))"
      "sent (events t2) = sent (events (tty ?s)) @ irq_text (irqs 4) @ stamped (clock irqs 4) ''Memory mapping OK.''"
      "ms_count t2 = of_nat (clock irqs 4)" "length (print_buff t2) = 32"
    by (rule line_step [OF dev l, of "irqs 4" "''Memory mapping OK.''", unfolded clock_steps]) (use time in simp_all)
  let ?s = "s\<lparr>tty := t2\<rparr>"
  have l: "length (print_buff (tty ?s)) = 32" "ms_count (tty ?s) = of_nat (clock irqs 4)" using t2 by simp_all
  obtain t3 where t3: "obind (tty_op (handle_irqs dev (irqs 5)) ?s) (mem_report dev) = Some (Inr (?s\<lparr>tty := t3\<rparr>))"
      "sent (events t3) = sent (events (tty ?s)) @ irq_text (irqs 5) @ stamped_text (clock irqs 5)
        (report_text (mem_used ?s) (mem_rsvd ?s) (mem_free ?s) (mem_total ?s))"
      "ms_count t3 = of_nat (clock irqs 5)" "length (print_buff t3) = 32"
    by (rule report_step [OF dev l, of "irqs 5", unfolded clock_steps]) (use time in simp_all)
  show thesis
  proof (rule that [of t3])
    show "kernel_tested sy b ds seg m (s\<lparr>tty := t3\<rparr>)" by (rule kernel_tested_tty [OF tested t3(4)])
    show "obind (tty_op (handle_irqs dev (irqs 3)) s) (\<lambda>s'. obind (tty_op (serial_printf dev (line ''%s'')
        [VPtr test_page (map (\<lambda>i. phys s (virt s (test_page + of_nat i))) [0..<4096])]) s') (\<lambda>s.
      obind (tty_op (handle_irqs dev (irqs 4)) s) (\<lambda>s.
      obind (tty_op (serial_printf dev (line ''Memory mapping OK.'') []) s) (\<lambda>s.
      obind (tty_op (handle_irqs dev (irqs 5)) s) (\<lambda>s. obind (mem_report dev s) g))))) = g (s\<lparr>tty := t3\<rparr>)" for g
      by (simp only: obind_step [OF t1(1)] obind_step [OF t2(1)] obind_step [OF t3(1)] tty_tty)
  qed (use t1(2) t2(2) t3(2,3) in simp_all)
qed

lemma start_kernel_run:
  assumes "ppa_initialized s = 0" and "last_hit s = 0"
    and m: "m = phys (init_gdt sy s)" and boot: "bootable sy bi m seg"
    and ds: "ds = map_descs m (mmap bi) (mmap_size bi) (mmap_desc_size bi)" and b: "b = load_framebuffer m (fb bi)"
    and "5 + tables_for (4096 * total_frames ds) + tables_for (unat (fbsize b + 4096)) \<le> card (start_free sy b ds seg)"
    and dev: "keeps_showing dev 0x3FD 0x20" and "length (print_buff (tty s)) = 32"
    and "unat (ms_count (tty s)) < 2 ^ 31 * 1000" and late: "clock irqs 6 < 2 ^ 31 * 1000"
    and "0x80 \<notin> bitmap_frames ds seg" and "string_there sy b ds seg m" and "drawable d sy b ds seg m"
  obtains s' c2 m2 u r f u' r' f' where "start_kernel dev irqs sy bi s = Some (Inr (s'\<lparr>phys := m2, con := c2\<rparr>))"
    and "kernel_tested sy b ds seg m s'"
    and "u + r + f = mem_total s'" and "u' + r' + f' = mem_total s'"
    and "sent (events (tty s')) = sent (events (tty s)) @ [0x03, 0xAE] @
        stamped (unat (ms_count (tty s))) ''Serial logging enabled.'' @
        stamped (unat (ms_count (tty s))) ''GDT loaded.'' @
        irq_text (irqs 0) @ stamped (clock irqs 0) ''IDT loaded.'' @
        irq_text (irqs 1) @ stamped_text (clock irqs 1) (report_text u r f (mem_total s')) @
        irq_text (irqs 2) @ stamped (clock irqs 2) ''Testing memory mapping...'' @
        irq_text (irqs 3) @ stamped (clock irqs 3) print_text @
        irq_text (irqs 4) @ stamped (clock irqs 4) ''Memory mapping OK.'' @
        irq_text (irqs 5) @ stamped_text (clock irqs 5) (report_text u' r' f' (mem_total s')) @
        irq_text (irqs 6)" and "ms_count (tty s') = of_nat (clock irqs 6)"
    and "paints (start_console sy b, phys s') (c2, m2)"
    and "\<And>w. pmm_find_paddr w (s'\<lparr>phys := m2, con := c2\<rparr>) = pmm_find_paddr w s'"
    and "\<And>x. \<not> screen_frame b ds seg (unat x div 4096) \<Longrightarrow> m2 x = phys s' x"
    and "\<And>i h. handler_of sy i = Some h \<Longrightarrow>
      load_idt_entry m2 (idt_offset (cpu_idt s') + of_nat (16 * i)) = IDT_CREATE_ENTRY h 0x08 0 IDT_INTERRUPT_GATE"
proof -
  define t0 where "t0 = snd (init_serial dev (tty s))"
  have t0: "length (print_buff t0) = 32" "unat (ms_count t0) < 2 ^ 31 * 1000"
    using assms(9,10) by (simp_all add: t0_def init_serial_sent)
  obtain t1 where t1: "serial_printf dev (line ''Serial logging enabled.'') [] t0 = Some (Inr t1)"
      "sent (events t1) = sent (events t0) @ stamped (unat (ms_count t0)) ''Serial logging enabled.''"
      "ms_count t1 = ms_count t0" "length (print_buff t1) = 32"
    by (rule serial_line [OF dev _ _ t0, of "''Serial logging enabled.''"]) (simp_all add: that)
  define s1 where "s1 = s\<lparr>tty := t1\<rparr>"
  have s1: "ppa_initialized s1 = 0" "last_hit s1 = 0" "m = phys (init_gdt sy s1)" "length (print_buff (tty s1)) = 32"
      "unat (ms_count (tty s1)) < 2 ^ 31 * 1000"
    using assms(1,2) m t1(3,4) t0 by (simp_all add: s1_def init_gdt_def set_gdt_def Let_def)
  have "ticks (irqs 0) < 2 ^ 31 * 1000" using clock_mono [of 0 6 irqs] late by simp
  then obtain s2 where s2: "init_kernel dev (irqs 0) sy bi s1 = Some (Inr s2)" "kernel_up sy b ds seg m s2"
      "sent (events (tty s2)) = sent (events (tty s1)) @ stamped (unat (ms_count (tty s1))) ''GDT loaded.'' @
        irq_text (irqs 0) @ stamped (clock irqs 0) ''IDT loaded.''" "ms_count (tty s2) = of_nat (clock irqs 0)"
    unfolding clock.simps by (rule init_kernel_run [OF s1(1-3) boot ds b dev s1(4,5)])
  obtain t4 where r4: "\<And>g :: kernel \<Rightarrow> kernel run. obind (tty_op (handle_irqs dev (irqs 1)) s2) (\<lambda>s. obind (mem_report dev s) (\<lambda>s.
      obind (tty_op (handle_irqs dev (irqs 2)) s) (\<lambda>s.
      obind (tty_op (serial_printf dev (line ''Testing memory mapping...'') []) s) g))) = g (s2\<lparr>tty := t4\<rparr>)"
    and t4: "sent (events t4) = sent (events (tty s2)) @
      irq_text (irqs 1) @ stamped_text (clock irqs 1)
        (report_text (mem_used s2) (mem_rsvd s2) (mem_free s2) (mem_total s2)) @
      irq_text (irqs 2) @ stamped (clock irqs 2) ''Testing memory mapping...''"
      "ms_count t4 = of_nat (clock irqs 2)" "kernel_up sy b ds seg m (s2\<lparr>tty := t4\<rparr>)"
    by (rule before_test [OF dev s2(2,4) late], rule that)
  define s5 where "s5 = virt_memcpy 40 test_page (sym_print_str sy) (pmm_map_memory test_page 0x80000 (s2\<lparr>tty := t4\<rparr>))"
  have left: "3 \<le> card (frames_ahead (s2\<lparr>tty := t4\<rparr>))"
    using t4(3) assms(7) unfolding kernel_up_def by linarith
  note s5 = test_kernel [OF t4(3) bootableD(2) [OF boot ds b] assms(12,13) left s5_def]
  have clock5: "ms_count (tty s5) = of_nat (clock irqs 2)" by (simp add: s5(2) t4(2))
  obtain t8 where r8: "\<And>g :: kernel \<Rightarrow> kernel run. obind (tty_op (handle_irqs dev (irqs 3)) s5) (\<lambda>s'. obind (tty_op (serial_printf dev (line ''%s'')
        [VPtr test_page (map (\<lambda>i. phys s5 (virt s5 (test_page + of_nat i))) [0..<4096])]) s') (\<lambda>s.
      obind (tty_op (handle_irqs dev (irqs 4)) s) (\<lambda>s.
      obind (tty_op (serial_printf dev (line ''Memory mapping OK.'') []) s) (\<lambda>s.
      obind (tty_op (handle_irqs dev (irqs 5)) s) (\<lambda>s. obind (mem_report dev s) g))))) = g (s5\<lparr>tty := t8\<rparr>)"
    and t8: "sent (events t8) = sent (events (tty s5)) @ irq_text (irqs 3) @ stamped (clock irqs 3) print_text @
      irq_text (irqs 4) @ stamped (clock irqs 4) ''Memory mapping OK.'' @
      irq_text (irqs 5) @ stamped_text (clock irqs 5)
        (report_text (mem_used s5) (mem_rsvd s5) (mem_free s5) (mem_total s5))"
      "ms_count t8 = of_nat (clock irqs 5)" "kernel_tested sy b ds seg m (s5\<lparr>tty := t8\<rparr>)"
    by (rule after_test [OF dev s5(1) clock5 late], rule that)
  define s6 where "s6 = s5\<lparr>tty := t8\<rparr>"
  obtain c2 m1 m2 where draw: "screen_op (mfold chart_entry colour_chart) s6 = Inr (s6\<lparr>phys := m1, con := c2\<rparr>)"
      "screen_op (puts_at (- 4) 0 (lit ''DONE'')) (s6\<lparr>phys := m1, con := c2\<rparr>) = Inr (s6\<lparr>phys := m2, con := c2\<rparr>)"
    and rest: "paints (start_console sy b, phys s6) (c2, m2)"
      "\<And>w. pmm_find_paddr w (s6\<lparr>phys := m2, con := c2\<rparr>) = pmm_find_paddr w s6"
      "\<And>x. \<not> screen_frame b ds seg (unat x div 4096) \<Longrightarrow> m2 x = phys s6 x"
      "\<And>i h. handler_of sy i = Some h \<Longrightarrow>
        load_idt_entry m2 (idt_offset (cpu_idt s6) + of_nat (16 * i)) = IDT_CREATE_ENTRY h 0x08 0 IDT_INTERRUPT_GATE"
    by (rule draw_kernel [OF t8(3) [folded s6_def] assms(14)], rule that)
  have l9: "length (print_buff (tty (s6\<lparr>phys := m2, con := c2\<rparr>))) = 32"
      "ms_count (tty (s6\<lparr>phys := m2, con := c2\<rparr>)) = of_nat (clock irqs 5)"
    using t8(2,3) by (simp_all add: s6_def kernel_tested_def)
  obtain t9 where t9: "tty_op (handle_irqs dev (irqs 6)) (s6\<lparr>phys := m2, con := c2\<rparr>) =
        Some (Inr (s6\<lparr>phys := m2, con := c2, tty := t9\<rparr>))" "sent (events t9) = sent (events t8) @ irq_text (irqs 6)"
      "ms_count t9 = of_nat (clock irqs 6)" "length (print_buff t9) = 32"
    by (rule irqs_step [OF dev l9, of "irqs 6", unfolded clock_steps]) (simp add: s6_def)
  define s9 where "s9 = s5\<lparr>tty := t9\<rparr>"
  have s9: "s6\<lparr>phys := m2, con := c2, tty := t9\<rparr> = s9\<lparr>phys := m2, con := c2\<rparr>" by (simp add: s6_def s9_def)
  have r1: "tty_op (serial_printf dev (line ''Serial logging enabled.'') []) (s\<lparr>tty := t0\<rparr>) = Some (Inr s1)"
    by (simp add: tty_op_def t1(1) s1_def)
  have run: "start_kernel dev irqs sy bi s = Some (Inr (s9\<lparr>phys := m2, con := c2\<rparr>))"
    unfolding start_kernel_def Let_def t0_def [symmetric]
    by (simp only: r1 obind_simps s2(1) r4 s5_def [symmetric] r8 s6_def [symmetric] draw t9(1) s9)
  have tested: "kernel_tested sy b ds seg m s9"
    using kernel_tested_tty [OF t8(3) t9(4)] by (simp add: s9_def)
  have same: "phys s6 = phys s9" "cpu_idt s6 = cpu_idt s9" "pmm_find_paddr w s6 = pmm_find_paddr w s9"
      "pmm_find_paddr w (s6\<lparr>phys := m2, con := c2\<rparr>) = pmm_find_paddr w (s9\<lparr>phys := m2, con := c2\<rparr>)" for w
    by (simp_all add: s6_def s9_def pmm_find_paddr_walk)
  have sums: "mem_used s2 + mem_rsvd s2 + mem_free s2 = mem_total s9" "mem_used s5 + mem_rsvd s5 + mem_free s5 = mem_total s9"
    and total9: "mem_total s2 = mem_total s9" "mem_total s5 = mem_total s9" and tty9: "tty s9 = t9"
    using s2(2) s5(1) by (simp_all add: s9_def kernel_up_def kernel_tested_def accounted_def)
  show thesis
    by (rule that [OF run tested sums _ _ rest [unfolded same]])
      (simp_all add: tty9 t9 t8 s5(2) t4 s2(3) s1_def t1 t0_def init_serial_sent total9)
qed

end
