(* ===== verification/FrameProperties.thy ===== *)
theory FrameProperties
  imports BootFrames
begin

text \<open>
  The properties of the page frame allocator, each stated over the definitions of
  \<open>PageFrames\<close> and \<open>EfiMem\<close> and followed by an instance on a small machine.
\<close>

section \<open>A small machine\<close>

text \<open>64 frames, all free, with the bitmap (three words) at the start of frame 1.\<close>

definition small_ppa :: ppa where
  "small_ppa =
     \<lparr>phys = (\<lambda>_. 0), ppa_bitmap = \<lparr>bm_size = 3, bm_max_index = 63, bm_data = 0x1000\<rparr>,
      mem_used = 0, mem_rsvd = 0, mem_free = 0x40000, mem_total = 0x40000,
      ppa_initialized = 1, last_hit = 0\<rparr>"

lemma load_zero_memory: "load_bytes n (\<lambda>_. 0) a = 0"
  by (induction n arbitrary: a) simp_all

lemma small_ppa_fields [simp]:
  "ppa_bitmap small_ppa = \<lparr>bm_size = 3, bm_max_index = 63, bm_data = 0x1000\<rparr>"
  "frames_limit small_ppa = 64" "last_hit small_ppa = 0"
  "mem_used small_ppa = 0" "mem_rsvd small_ppa = 0" "mem_free small_ppa = 0x40000"
  by (simp_all add: small_ppa_def frames_limit_def)

lemma small_ppa_bit [simp]: "\<not> frame_bit small_ppa j"
  by (simp add: frame_bit_def small_ppa_def load32_def load_zero_memory)

lemma small_ppa_used [simp]: "\<not> frame_used small_ppa j"
  by (simp add: frame_used_def)

lemma small_ppa_wf [simp]: "bitmap_wf small_ppa" and small_ppa_tail [simp]: "tail_clear small_ppa"
  and small_ppa_exact [simp]: "counters_exact small_ppa"
  by (simp_all add: bitmap_wf_def tail_clear_def counters_exact_def)

text \<open>The same machine with the bitmap's frame locked.\<close>

definition ready_ppa :: ppa where
  "ready_ppa = ppa_lck 0x1000 small_ppa"

lemma ready_ppa_used [simp]: "frame_used ready_ppa j \<longleftrightarrow> j = 1"
  by (simp add: ready_ppa_def lck.used_step)

lemma ready_ppa_fields [simp]:
  "ppa_bitmap ready_ppa = \<lparr>bm_size = 3, bm_max_index = 63, bm_data = 0x1000\<rparr>"
  "frames_limit ready_ppa = 64" "last_hit ready_ppa = 0"
  by (simp_all add: ready_ppa_def frame_simps)

lemma ready_ppa_wf [simp]: "bitmap_wf ready_ppa" and ready_ppa_tail [simp]: "tail_clear ready_ppa"
  by (simp_all add: ready_ppa_def lck.wf_step tail_clear_ops)

lemma small_bitmap_frame:
  assumes "x \<in> bitmap_bytes \<lparr>bm_size = 3, bm_max_index = 63, bm_data = 0x1000\<rparr>"
  shows "unat x div 4096 = 1"
proof -
  define r where "r = x - 0x1000"
  have r: "unat r < 12" using assms by (simp add: bitmap_bytes_def r_def)
  have "unat (0x1000 + r) = unat (0x1000 :: u64) + unat r"
    by (rule unat_plus_nowrap) (use r in simp)
  then have "unat x = 4096 + unat r" by (simp add: r_def)
  then show ?thesis using r by simp
qed

lemma ready_ppa_ready [simp]: "allocator_ready ready_ppa"
  by (simp add: allocator_ready_def small_bitmap_frame)

lemma ready_ppa_ahead: "frames_ahead ready_ppa = {..<64} - {1}"
  by (auto simp: frames_ahead_def)

lemma ready_ppa_has: "frames_ahead ready_ppa \<noteq> {}"
proof -
  have "2 \<in> frames_ahead ready_ppa" by (simp add: frames_ahead_def)
  then show ?thesis by blast
qed

section \<open>Counters\<close>

text \<open>C18. Whatever calls are made after power-on, in whatever order and on whatever addresses,
  the three counters add up to the total that \<open>ppa_get_mem_total\<close> reports.\<close>

theorem ppa_counters_conserved:
  assumes "ppa_reachable (ppa_power_on m) s"
  shows "ppa_get_mem_used s + ppa_get_mem_rsvd s + ppa_get_mem_free s = ppa_get_mem_total s"
proof -
  have "accounted (ppa_power_on m)" by (simp add: accounted_def ppa_power_on_def)
  with assms have "accounted s" by (rule ppa_reachable_accounted)
  then show ?thesis
    by (simp add: accounted_def ppa_get_mem_used_def ppa_get_mem_rsvd_def ppa_get_mem_free_def
        ppa_get_mem_total_def)
qed

lemma power_on_lck: "ppa_reachable (ppa_power_on m) (ppa_lck 0x5000 (ppa_power_on m))"
  by (intro ppa_reachable.step [OF ppa_reachable.start] ppa_step.lck)

theorem ppa_counters_conserved_witness:
  "let s = ppa_lck 0x5000 (ppa_power_on (\<lambda>_. 0))
   in ppa_get_mem_used s + ppa_get_mem_rsvd s + ppa_get_mem_free s = ppa_get_mem_total s"
  using ppa_counters_conserved [OF power_on_lck [of "\<lambda>_. 0"]] by (simp add: Let_def)

text \<open>C7. As long as the calls stay on frames the bitmap covers (a range inside it, a request
  while a free frame is ahead), the free counter is exactly the size of the frames whose flag is
  clear, and the other two together the size of the frames whose flag is set.\<close>

theorem ppa_counters_exact:
  assumes "covered_run s s'" and "bitmap_wf s" and "tail_clear s" and "counters_exact s"
  shows "ppa_get_mem_free s' =
        of_nat (4096 * card {j. j < frames_limit s' \<and> ppa_bitmap_get (of_nat j) s' = 0}) \<and>
      ppa_get_mem_used s' + ppa_get_mem_rsvd s' =
        of_nat (4096 * card {j. j < frames_limit s' \<and> ppa_bitmap_get (of_nat j) s' = 1})"
proof -
  have ok: "bitmap_wf s'" "counters_exact s'"
    using covered_run_exact [OF assms] by (simp_all add: exact_state_def)
  have "unat (of_nat j :: u64) = j" if "j < frames_limit s'" for j
    by (rule unat_of_nat_small) (use that ok(1) in \<open>simp add: bitmap_wf_def\<close>)
  then have "{j. j < frames_limit s' \<and> ppa_bitmap_get (of_nat j) s' = 0} =
        {j. j < frames_limit s' \<and> \<not> frame_used s' j}"
      and "{j. j < frames_limit s' \<and> ppa_bitmap_get (of_nat j) s' = 1} = {j. frame_used s' j}"
    by (auto simp: ppa_bitmap_get_eq frame_used_def split: if_splits)
  with ok(2) show ?thesis
    by (simp only: counters_exact_def ppa_get_mem_free_def ppa_get_mem_used_def
        ppa_get_mem_rsvd_def)
qed

lemma small_run: "covered_run small_ppa (snd (ppa_request ready_ppa))"
proof -
  have "covered_step small_ppa ready_ppa"
    unfolding ready_ppa_def by (rule covered_step.lck) simp
  moreover have "covered_step ready_ppa (snd (ppa_request ready_ppa))"
    by (rule covered_step.request) (use ready_ppa_has in simp_all)
  ultimately show ?thesis
    by (intro covered_run.step [OF covered_run.step [OF covered_run.start]])
qed

theorem ppa_counters_exact_witness:
  "let s' = snd (ppa_request (ppa_lck 0x1000 small_ppa))
   in ppa_get_mem_free s' =
      of_nat (4096 * card {j. j < frames_limit s' \<and> ppa_bitmap_get (of_nat j) s' = 0})"
  using ppa_counters_exact [OF small_run small_ppa_wf small_ppa_tail small_ppa_exact]
  by (simp add: ready_ppa_def Let_def)

section \<open>Marking and releasing\<close>

text \<open>C24. \<open>ppa_lckn\<close> and \<open>ppa_rsvn\<close> set the flags of exactly the frames of their range that the
  bitmap covers, and no other, also when the range wraps around the address space.\<close>

theorem ppa_range_marks:
  assumes "bitmap_wf s"
  shows "(frame_used (ppa_lckn a n s) j \<longleftrightarrow>
        frame_used s j \<or> j \<in> frames_from a (unat n) \<and> j < frames_limit s) \<and>
      (frame_used (ppa_rsvn a n s) j \<longleftrightarrow>
        frame_used s j \<or> j \<in> frames_from a (unat n) \<and> j < frames_limit s)"
  using assms by (auto simp: ppa_lckn_def ppa_rsvn_def lck.used_page_loop rsv.used_page_loop)

theorem ppa_range_marks_witness:
  "frame_used (ppa_lckn 0x3000 2 small_ppa) 4 \<and> \<not> frame_used (ppa_rsvn 0x3000 2 small_ppa) 5"
proof -
  have "frames_from 0x3000 (unat (2 :: u64)) = {3 ..< 5}" by (subst frames_from_nowrap) simp_all
  then show ?thesis
    using ppa_range_marks [OF small_ppa_wf, of "0x3000" 2 4]
      ppa_range_marks [OF small_ppa_wf, of "0x3000" 2 5] by simp
qed

text \<open>C30. Releasing a range clears the flags of exactly its frames and moves \<open>last_hit\<close> to its
  start, for ranges of at most 2 GiB; on a longer one the product \<open>4096 * i\<close> overflows the
  \<open>int\<close> it is computed in.\<close>

theorem ppa_release_range:
  assumes "bitmap_wf s"
  shows "case (ppa_ulckn a n s, ppa_ursvn a n s) of
      (Inr s1, Inr s2) \<Rightarrow> unat n \<le> 524288 \<and> last_hit s1 = a div 4096 \<and> last_hit s2 = a div 4096 \<and>
        (\<forall>j. (frame_used s1 j \<longleftrightarrow> frame_used s j \<and> j \<notin> frames_from a (unat n)) \<and>
             (frame_used s2 j \<longleftrightarrow> frame_used s j \<and> j \<notin> frames_from a (unat n)))
    | (Inl e1, Inl e2) \<Rightarrow> 524288 < unat n \<and> e1 = SignedOverflow \<and> e2 = SignedOverflow
    | _ \<Rightarrow> False"
proof (cases "unat n \<le> 524288")
  case True
  obtain s1 where s1: "ppa_ulckn a n s = Inr s1" "last_hit s1 = a div 4096"
      "\<And>j. frame_used s1 j \<longleftrightarrow> frame_used s j \<and> j \<notin> frames_from a (unat n)"
    by (rule ppa_ulckn_result [OF assms True]) blast
  obtain s2 where s2: "ppa_ursvn a n s = Inr s2" "last_hit s2 = a div 4096"
      "\<And>j. frame_used s2 j \<longleftrightarrow> frame_used s j \<and> j \<notin> frames_from a (unat n)"
    by (rule ppa_ursvn_result [OF assms True]) blast
  show ?thesis using True by (simp add: s1 s2)
next
  case False
  then show ?thesis by (simp add: ppa_release_overflow)
qed

theorem ppa_release_range_witness:
  "\<exists>s1. ppa_ulckn 0x1000 1 ready_ppa = Inr s1 \<and> \<not> frame_used s1 1"
proof -
  have "frames_from 0x1000 (unat (1 :: u64)) = {1}" by (subst frames_from_nowrap) auto
  then show ?thesis
    using ppa_release_range [OF ready_ppa_wf, where a = "0x1000" and n = 1]
    by (auto split: sum.splits)
qed

text \<open>C23. Locking a free frame and unlocking it gives back the state, the bitmap's bytes in
  memory included, except that \<open>last_hit\<close> is now that frame; the same for reserving it.\<close>

theorem ppa_lock_unlock:
  assumes "bitmap_wf s" and "unat (a div 4096) < frames_limit s"
    and "ppa_bitmap_get (a div 4096) s = 0"
  shows "ppa_ulck a (ppa_lck a s) = s\<lparr>last_hit := a div 4096\<rparr> \<and>
    ppa_ursv a (ppa_rsv a s) = s\<lparr>last_hit := a div 4096\<rparr>"
proof -
  let ?i = "a div 4096"
  have free: "\<not> frame_used s (unat ?i)" using assms(3) by (simp add: ppa_bitmap_get_eq split: if_splits)
  note undo = bitmap_set_clear [OF assms(2) free]
  note used = lck.used_step [OF assms(1), of a "unat ?i"] rsv.used_step [OF assms(1), of a "unat ?i"]
  have put: "snd (ppa_bitmap_set ?i 0 (t\<lparr>mem_used := u, mem_free := f\<rparr>)) =
        (snd (ppa_bitmap_set ?i 0 t))\<lparr>mem_used := u, mem_free := f\<rparr>"
      "snd (ppa_bitmap_set ?i 0 (t\<lparr>mem_rsvd := u, mem_free := f\<rparr>)) =
        (snd (ppa_bitmap_set ?i 0 t))\<lparr>mem_rsvd := u, mem_free := f\<rparr>" for t :: "'a ppa_scheme" and u f
    by (simp_all add: ppa_bitmap_set_def Let_def)
  have "ppa_ulck a (ppa_lck a s) = s\<lparr>last_hit := ?i\<rparr>"
    using used(1) assms(2) free
    by (simp add: ppa_ulck_cases) (simp add: ppa_lck_cases put undo Let_def)
  moreover have "ppa_ursv a (ppa_rsv a s) = s\<lparr>last_hit := ?i\<rparr>"
    using used(2) assms(2) free
    by (simp add: ppa_ursv_cases) (simp add: ppa_rsv_cases put undo Let_def)
  ultimately show ?thesis ..
qed

theorem ppa_lock_unlock_witness:
  "ppa_ulck 0x5123 (ppa_lck 0x5123 small_ppa) = small_ppa\<lparr>last_hit := 5\<rparr>"
  using ppa_lock_unlock [OF small_ppa_wf, of "0x5123"] by (simp add: ppa_bitmap_get_eq)

text \<open>C40. A range of frames beyond the last one the bitmap covers (\<open>init_kernel\<close> locks the frame
  buffer so): no flag is set and each call moves the size of the range from the free counter to
  the used one again, however often it is repeated.\<close>

theorem ppa_lckn_uncovered:
  assumes "\<And>j. j \<in> frames_from a (unat n) \<Longrightarrow> frames_limit s \<le> j"
  shows "((ppa_lckn a n) ^^ k) s =
    s\<lparr>mem_used := mem_used s + of_nat k * (4096 * n), mem_free := mem_free s - of_nat k * (4096 * n)\<rparr>"
proof (induction k)
  case 0
  then show ?case by simp
next
  case (Suc k)
  let ?t = "s\<lparr>mem_used := mem_used s + of_nat k * (4096 * n),
    mem_free := mem_free s - of_nat k * (4096 * n)\<rparr>"
  have "ppa_lckn a n ?t =
      ?t\<lparr>mem_used := mem_used ?t + 4096 * n, mem_free := mem_free ?t - 4096 * n\<rparr>"
    by (rule ppa_lckn_beyond) (use assms in simp)
  then show ?case by (simp add: Suc.IH algebra_simps)
qed

theorem ppa_lckn_uncovered_witness:
  "mem_used (ppa_lckn 0x80000 2 (ppa_lckn 0x80000 2 small_ppa)) = 0x4000"
proof -
  have "frames_from 0x80000 (unat (2 :: u64)) = {128 ..< 130}" by (subst frames_from_nowrap) simp_all
  then show ?thesis
    using ppa_lckn_uncovered [of "0x80000" 2 small_ppa 2] by (simp add: numeral_2_eq_2)
qed

section \<open>Requests\<close>

text \<open>C5. With a free frame at or after the word \<open>last_hit\<close> is in, \<open>ppa_request\<close> returns the
  lowest such frame, sets its flag and no other, remembers it, moves one page from the free
  counter to the used one and changes no byte outside the bitmap.\<close>

theorem ppa_request_serves:
  assumes "allocator_ready s" and "frames_ahead s \<noteq> {}"
  shows "let i = Min (frames_ahead s); s' = snd (ppa_request s)
    in fst (ppa_request s) = of_nat (4096 * i) \<and>
       (\<forall>j. frame_used s' j \<longleftrightarrow> j = i \<or> frame_used s j) \<and>
       last_hit s' = of_nat i \<and> mem_used s' = mem_used s + 4096 \<and>
       mem_free s' = mem_free s - 4096 \<and> mem_rsvd s' = mem_rsvd s \<and>
       (\<forall>x. x \<notin> bitmap_bytes (ppa_bitmap s) \<longrightarrow> phys s' x = phys s x)"
proof -
  from assms(1) have wf: "bitmap_wf s" by (simp add: allocator_ready_def)
  obtain i where i: "i \<in> frames_ahead s" "\<And>j. j \<in> frames_ahead s \<Longrightarrow> i \<le> j"
      "fst (ppa_request s) = of_nat (4096 * i)"
      "snd (ppa_request s) = ppa_lck (of_nat (4096 * i)) (s\<lparr>last_hit := of_nat i\<rparr>)"
      "\<And>j. frame_used (snd (ppa_request s)) j \<longleftrightarrow> j = i \<or> frame_used s j"
    by (rule ppa_request_served [OF assms]) blast
  have min: "Min (frames_ahead s) = i"
    by (rule Min_eqI) (use i(1,2) finite_frames_ahead in auto)
  have "i < frames_limit s" and free: "\<not> frame_used s i"
    using i(1) by (simp_all add: frames_ahead_def)
  with wf have "unat (of_nat (4096 * i) div 4096 :: u64) = i"
    by (intro frame_addr(2)) (simp add: bitmap_wf_def)
  with free have counters: "mem_used (snd (ppa_request s)) = mem_used s + 4096"
      "mem_free (snd (ppa_request s)) = mem_free s - 4096"
      "mem_rsvd (snd (ppa_request s)) = mem_rsvd s"
    by (simp_all add: i(4) ppa_lck_cases Let_def frame_simps del: of_nat_mult)
  have "phys (snd (ppa_request s)) x = phys s x" if "x \<notin> bitmap_bytes (ppa_bitmap s)" for x
    unfolding i(4) by (subst ppa_lck_phys) (use wf that in simp_all)
  moreover have "last_hit (snd (ppa_request s)) = of_nat i" by (simp add: i(4) frame_simps)
  ultimately show ?thesis by (simp only: Let_def min i(3,5) counters) simp
qed

theorem ppa_request_serves_witness:
  "fst (ppa_request ready_ppa) = 0 \<and> frame_used (snd (ppa_request ready_ppa)) 0"
proof -
  have "Min (frames_ahead ready_ppa) = 0"
    by (rule Min_eqI) (auto simp: finite_frames_ahead frames_ahead_def)
  then show ?thesis
    using ppa_request_serves [OF ready_ppa_ready ready_ppa_has] by (simp add: Let_def)
qed

text \<open>The pages of successive calls of \<open>ppa_request\<close>.\<close>

primrec request_pages :: "nat \<Rightarrow> 'a ppa_scheme \<Rightarrow> u64 list \<times> 'a ppa_scheme" where
  "request_pages 0 s = ([], s)"
| "request_pages (Suc n) s =
     (let (p, s) = ppa_request s; (ps, s) = request_pages n s in (p # ps, s))"

lemma request_pages_take: "fst (request_pages n s) = ppa.take_pages n s"
  by (induction n arbitrary: s) (simp_all add: Let_def split_beta)

lemma request_pages_used:
  assumes "allocator_ready s" and "n \<le> card (frames_ahead s)"
  shows "frame_used (snd (request_pages n s)) j \<longleftrightarrow>
    frame_used s j \<or> j \<in> (\<lambda>p. unat p div 4096) ` set (fst (request_pages n s))"
  using assms
proof (induction n arbitrary: s)
  case 0
  then show ?case by simp
next
  case (Suc n)
  then have ahead: "frames_ahead s \<noteq> {}" by auto
  obtain i where i: "i \<in> frames_ahead s" "fst (ppa_request s) = of_nat (4096 * i)"
      "\<And>j. frame_used (snd (ppa_request s)) j \<longleftrightarrow> j = i \<or> frame_used s j"
    by (rule ppa_request_served [OF Suc.prems(1) ahead]) blast
  have "i < 2 ^ 52"
    using i(1) Suc.prems(1) by (simp add: frames_ahead_def allocator_ready_def bitmap_wf_def)
  then have num: "unat (fst (ppa_request s)) div 4096 = i"
    by (simp add: i(2) frame_addr(1) del: of_nat_mult)
  have "n \<le> card (frames_ahead (snd (ppa_request s)))"
    using ppa.request_available [OF Suc.prems(1)] Suc.prems(2) by fastforce
  from Suc.IH [OF allocator_ready_request [OF Suc.prems(1) ahead] this]
  show ?case by (auto simp: Let_def split_beta num i(3))
qed

lemma request_pages_free:
  assumes "allocator_ready s" and "n \<le> card (frames_ahead s)" and "p \<in> set (fst (request_pages n s))"
  shows "page_aligned p \<and> unat p div 4096 < frames_limit s \<and> \<not> frame_used s (unat p div 4096)"
  using assms
proof (induction n arbitrary: s)
  case 0
  then show ?case by simp
next
  case (Suc n)
  let ?s = "snd (ppa_request s)"
  from Suc.prems have ahead: "frames_ahead s \<noteq> {}" and card: "0 < card (frames_ahead s)" by auto
  obtain i where i: "i \<in> frames_ahead s" "fst (ppa_request s) = of_nat (4096 * i)"
      "\<And>j. frame_used ?s j \<longleftrightarrow> j = i \<or> frame_used s j"
    by (rule ppa_request_served [OF Suc.prems(1) ahead]) blast
  have free: "i < frames_limit s" "\<not> frame_used s i" using i(1) by (simp_all add: frames_ahead_def)
  have "i < 2 ^ 52" using free(1) Suc.prems(1) by (simp add: allocator_ready_def bitmap_wf_def)
  then have num: "unat (fst (ppa_request s)) div 4096 = i"
    by (simp add: i(2) frame_addr(1) del: of_nat_mult)
  have limit: "frames_limit ?s = frames_limit s" by (simp add: ppa_request_def frame_simps split: option.split)
  consider "p = fst (ppa_request s)" | "p \<in> set (fst (request_pages n ?s))"
    using Suc.prems(3) by (auto simp: Let_def split_beta)
  then show ?case
  proof cases
    case 1
    then show ?thesis using ppa.request_aligned [OF Suc.prems(1) card] free num by simp
  next
    case 2
    have "n \<le> card (frames_ahead ?s)" using ppa.request_available [OF Suc.prems(1) card] Suc.prems(2) by linarith
    from Suc.IH [OF allocator_ready_request [OF Suc.prems(1) ahead] this 2] show ?thesis
      by (simp add: limit i(3))
  qed
qed

text \<open>C17. As many requests in a row as there are free frames ahead return distinct, page-aligned,
  previously free frames of the machine, and those are the frames taken afterwards.\<close>

theorem ppa_requests_distinct:
  assumes "allocator_ready s" and "n \<le> card (frames_ahead s)"
  shows "let (ps, s') = request_pages n s
    in length ps = n \<and> distinct ps \<and> (\<forall>p\<in>set ps. page_aligned p \<and>
         unat p div 4096 < frames_limit s \<and> \<not> frame_used s (unat p div 4096)) \<and>
       (\<forall>j. frame_used s' j \<longleftrightarrow> frame_used s j \<or> j \<in> (\<lambda>p. unat p div 4096) ` set ps)"
proof -
  have "length (ppa.take_pages n s) = n" by (induction n arbitrary: s) simp_all
  then show ?thesis
    using ppa.take_pages_distinct [OF assms] request_pages_free [OF assms] request_pages_used [OF assms]
    by (auto simp: split_beta request_pages_take)
qed

theorem ppa_requests_distinct_witness:
  "distinct (fst (request_pages 5 ready_ppa)) \<and> length (fst (request_pages 5 ready_ppa)) = 5 \<and>
    0x1000 \<notin> set (fst (request_pages 5 ready_ppa))"
proof -
  have "card ({..<64} - {1 :: nat}) = 63" by simp
  then have "5 \<le> card (frames_ahead ready_ppa)" by (simp add: ready_ppa_ahead)
  from ppa_requests_distinct [OF ready_ppa_ready this] show ?thesis by (auto simp: split_beta)
qed

text \<open>C31. With no free frame at or after the word of \<open>last_hit\<close>, whether or not one is free
  before it, \<open>ppa_request\<close> does not fail with 0: the flags of the last word that stand for no
  frame read as clear, so it returns the first address beyond the machine's memory, and counts a
  page as used that it did not take.\<close>

theorem ppa_request_exhausted:
  assumes "bitmap_wf s" and "tail_clear s"
    and "unat (last_hit s) div 32 < unat (bm_size (ppa_bitmap s))"
    and "frames_ahead s = {}"
  shows "ppa_request s = (of_nat (4096 * frames_limit s),
    s\<lparr>last_hit := of_nat (frames_limit s), mem_used := mem_used s + 4096,
      mem_free := mem_free s - 4096\<rparr>)"
proof -
  obtain i where i: "32 * (unat (last_hit s) div 32) \<le> i" "i \<le> frames_limit s"
      "\<not> frame_used s i"
      "ppa_request s = (of_nat (4096 * i), ppa_lck (of_nat (4096 * i)) (s\<lparr>last_hit := of_nat i\<rparr>))"
    by (rule ppa_request_result [OF assms(1-3)]) blast
  then have "\<not> i < frames_limit s" using assms(4) unfolding frames_ahead_def by blast
  then have eq: "i = frames_limit s" using i(2) by simp
  have "unat (of_nat (4096 * frames_limit s) div 4096 :: u64) = frames_limit s"
    by (rule frame_addr(2)) (use assms(1) in \<open>simp add: bitmap_wf_def\<close>)
  then show ?thesis by (simp add: i(4) eq ppa_lck_beyond del: of_nat_mult)
qed

text \<open>The small machine with every frame reserved.\<close>

definition full_ppa :: ppa where
  "full_ppa = ppa_rsvn 0 64 small_ppa"

lemma full_ppa_facts:
  "bitmap_wf full_ppa" "tail_clear full_ppa" "frames_limit full_ppa = 64"
  "ppa_bitmap full_ppa = \<lparr>bm_size = 3, bm_max_index = 63, bm_data = 0x1000\<rparr>"
  "last_hit full_ppa = 0" "frames_ahead full_ppa = {}"
proof -
  have "exact_state small_ppa" by (simp add: exact_state_def)
  moreover have r: "frames_from 0 64 = {0 ..< 64}"
    by (subst frames_from_nowrap) simp_all
  ultimately have "exact_state full_ppa"
    unfolding full_ppa_def by (intro exact_state_ranges(2)) (simp_all add: r atLeast0LessThan)
  then show "bitmap_wf full_ppa" and "tail_clear full_ppa" by (simp_all add: exact_state_def)
  show lim: "frames_limit full_ppa = 64"
    by (simp add: full_ppa_def ppa_rsvn_def rsv.limit_page_loop)
  have keep: "ppa_bitmap (ppa_rsv a s) = ppa_bitmap s \<and> last_hit (ppa_rsv a s) = last_hit s"
    for a and s :: ppa
    by (simp add: ppa_rsv_cases Let_def frame_simps)
  have "ppa_bitmap full_ppa = ppa_bitmap small_ppa \<and> last_hit full_ppa = last_hit small_ppa"
    unfolding full_ppa_def ppa_rsvn_def by (rule page_loop_inv) (use keep in auto)
  then show "ppa_bitmap full_ppa = \<lparr>bm_size = 3, bm_max_index = 63, bm_data = 0x1000\<rparr>"
    and hit: "last_hit full_ppa = 0" by simp_all
  have "frame_used full_ppa j" if "j < 64" for j
    using that by (simp add: full_ppa_def ppa_rsvn_def rsv.used_page_loop r)
  then show "frames_ahead full_ppa = {}" by (simp add: frames_ahead_def lim)
qed

theorem ppa_request_exhausted_witness:
  "fst (ppa_request full_ppa) = 0x40000 \<and>
    mem_used (snd (ppa_request full_ppa)) = mem_used full_ppa + 4096"
  using ppa_request_exhausted [of full_ppa] by (simp add: full_ppa_facts)

text \<open>With frame 0 taken, as after \<open>ppa_init\<close>, \<open>ppa_request\<close> returns 0 exactly when
  \<open>last_hit\<close> is beyond the last word (releasing a range that starts beyond the machine leaves it
  there), whatever frames are free, and then it changes nothing.\<close>

theorem ppa_request_zero:
  assumes "bitmap_wf s" and "tail_clear s" and "ppa_bitmap_get 0 s = 1"
  shows "(fst (ppa_request s) = 0 \<longleftrightarrow> unat (bm_size (ppa_bitmap s)) \<le> unat (last_hit s) div 32) \<and>
    (fst (ppa_request s) = 0 \<longrightarrow> snd (ppa_request s) = s)"
proof (cases "unat (last_hit s) div 32 < unat (bm_size (ppa_bitmap s))")
  case True
  obtain i where i: "i \<le> frames_limit s" "\<not> frame_used s i"
      "ppa_request s = (of_nat (4096 * i), ppa_lck (of_nat (4096 * i)) (s\<lparr>last_hit := of_nat i\<rparr>))"
    by (rule ppa_request_result [OF assms(1,2) True]) blast
  have "i < 2 ^ 52" using i(1) assms(1) by (simp add: bitmap_wf_def)
  then have "unat (fst (ppa_request s)) = 4096 * i"
    unfolding i(3) fst_conv by (rule frame_addr(1))
  moreover have "frame_used s 0" using assms(3) by (simp add: ppa_bitmap_get_eq split: if_splits)
  with i(2) have "i \<noteq> 0" by metis
  ultimately have "fst (ppa_request s) \<noteq> 0" by (metis mult_eq_0_iff unat_0 zero_neq_numeral)
  with True show ?thesis by simp
next
  case False
  then show ?thesis
    by (simp add: ppa_request_def last_hit_word request_hi.simps)
qed

theorem ppa_request_zero_witness:
  "ppa_request (full_ppa\<lparr>last_hit := 96\<rparr>) = (0, full_ppa\<lparr>last_hit := 96\<rparr>)"
proof -
  have "0 \<notin> frames_ahead full_ppa" by (simp add: full_ppa_facts)
  then have "ppa_bitmap_get 0 (full_ppa\<lparr>last_hit := 96\<rparr>) = 1"
    by (simp add: ppa_bitmap_get_eq frames_ahead_def full_ppa_facts)
  with ppa_request_zero [of "full_ppa\<lparr>last_hit := 96\<rparr>"] show ?thesis
    by (simp add: full_ppa_facts prod_eq_iff)
qed

section \<open>Initialisation\<close>

text \<open>C12. On a memory map that fits, with at least one conventional segment, \<open>ppa_init\<close>
  succeeds; it manages as many frames as the map's descriptors have pages, and the frames taken
  afterwards are exactly the first megabyte, those in no conventional segment, and those of the
  bitmap, which lies at the start of the first of the largest conventional segments. The counters
  are exact, memory outside the bitmap is as it was, the allocator is ready to serve requests, and
  a second call changes nothing. The search for free frames starts at the last conventional segment
  of the map, whose release came last, so free frames of segments below it are never handed out.\<close>

theorem ppa_init_result:
  assumes "ppa_initialized s = 0" and "last_hit s = 0" and "0 < mmap_desc_size"
    and "ds = map_descs (phys s) mmap mmap_size mmap_desc_size"
    and "fits_machine ds" and "largest_segment ds = Some seg"
    and "fits_bitmap ds (mmap_addrs mmap mmap_size mmap_desc_size) seg"
  shows "\<exists>s'. ppa_init mmap mmap_size mmap_desc_size s = Inr s' \<and>
    frames_limit s' = total_frames ds \<and> bm_data (ppa_bitmap s') = physicalstart seg \<and>
    (\<forall>j. frame_used s' j \<longleftrightarrow> j < total_frames ds \<and>
       (j < 256 \<or> j \<notin> conventional_frames ds \<or>
        j \<in> {unat (physicalstart seg) div 4096 ..<
             unat (physicalstart seg) div 4096 + bitmap_pages (total_frames ds)})) \<and>
    mem_free s' = of_nat (4096 * card {j. j < total_frames ds \<and> \<not> frame_used s' j}) \<and>
    mem_used s' + mem_rsvd s' = of_nat (4096 * card {j. frame_used s' j}) \<and>
    (\<forall>x. x \<notin> bitmap_bytes (ppa_bitmap s') \<longrightarrow> phys s' x = phys s x) \<and>
    allocator_ready s' \<and> ppa_init mmap mmap_size mmap_desc_size s' = Inr s' \<and>
    last_hit s' = release_hint ds 0 \<and>
    (\<forall>p. 0 < card (frames_ahead s') \<longrightarrow> fst (ppa_request s') = p \<longrightarrow>
       32 * (unat (release_hint ds 0) div 32) \<le> unat p div 4096)"
proof -
  obtain s' where s': "ppa_init mmap mmap_size mmap_desc_size s = Inr s'"
      "ppa_initialized s' = 1" "frames_limit s' = total_frames ds"
      "ppa_bitmap s' = boot_bitmap (total_frames ds) seg"
      "allocator_ready s'" "exact_state s'"
      "\<And>j. frame_used s' j \<longleftrightarrow> boot_taken ds seg j"
      "\<And>x. x \<notin> bitmap_bytes (boot_bitmap (total_frames ds) seg) \<Longrightarrow> phys s' x = phys s x"
      "last_hit s' = release_hint ds 0"
    by (rule ppa_init_boot [OF assms]) blast
  have "ppa_init mmap mmap_size mmap_desc_size s' = Inr s'" by (simp add: ppa_init_def s'(2))
  moreover have "bm_data (ppa_bitmap s') = physicalstart seg" by (simp add: s'(4) boot_bitmap_def)
  moreover have "mem_free s' = of_nat (4096 * card {j. j < total_frames ds \<and> \<not> frame_used s' j})"
      "mem_used s' + mem_rsvd s' = of_nat (4096 * card {j. frame_used s' j})"
    using s'(6) by (simp_all only: exact_state_def counters_exact_def s'(3))
  moreover have "32 * (unat (release_hint ds 0) div 32) \<le> unat p div 4096"
    if "0 < card (frames_ahead s')" "fst (ppa_request s') = p" for p
    using request_ahead [OF s'(5) that] by (simp add: frames_ahead_def s'(9))
  ultimately show ?thesis using s'
    by (intro exI [of _ s'] conjI allI impI) (simp_all only: boot_taken_def simp_thms)
qed

text \<open>A machine of 2 MiB: a reserved segment of 256 pages at 0 and a conventional one of 256
  pages at 1 MiB, described by a map at 4 MiB with a stride of 48 bytes.\<close>

definition boot_memory :: mem where
  "boot_memory = (\<lambda>_. 0)(0x400019 := 1, 0x400030 := 7, 0x40003A := 0x10, 0x400049 := 1)"

lemma boot_map_addrs: "mmap_addrs 0x400000 96 48 = [0x400000, 0x400030]"
  by (simp add: mmap_addrs_def mmap_offsets.simps)

lemma boot_map_descs: "map_descs boot_memory 0x400000 96 48 =
    [\<lparr>desc_type = 0, desc_pad = 0, physicalstart = 0, virtualstart = 0, numberofpages = 256,
      attribute = 0\<rparr>,
     \<lparr>desc_type = 7, desc_pad = 0, physicalstart = 0x100000, virtualstart = 0,
      numberofpages = 256, attribute = 0\<rparr>]"
  by (simp add: map_descs_def boot_map_addrs load_desc_def load32_unfold load64_unfold
      boot_memory_def)

definition boot_seg :: EfiMemoryDescriptor where
  "boot_seg = \<lparr>desc_type = 7, desc_pad = 0, physicalstart = 0x100000, virtualstart = 0,
     numberofpages = 256, attribute = 0\<rparr>"

lemma boot_map_fits:
  "total_frames (map_descs boot_memory 0x400000 96 48) = 512"
  "fits_machine (map_descs boot_memory 0x400000 96 48)"
  "largest_segment (map_descs boot_memory 0x400000 96 48) = Some boot_seg"
  "fits_bitmap (map_descs boot_memory 0x400000 96 48) (mmap_addrs 0x400000 96 48) boot_seg"
proof -
  show t: "total_frames (map_descs boot_memory 0x400000 96 48) = 512"
    by (simp add: boot_map_descs total_frames_def)
  then show "fits_machine (map_descs boot_memory 0x400000 96 48)"
    by (simp add: fits_machine_def) (simp add: boot_map_descs is_conventional_def page_aligned_def)
  show "largest_segment (map_descs boot_memory 0x400000 96 48) = Some boot_seg"
    by (simp add: boot_map_descs largest_segment_def boot_seg_def is_conventional_def)
  have off: "\<not> unat ((a + of_nat i) - 0x100000 :: u64) < 68"
    if "a = 0x400000 \<or> a = 0x400030" "i < 40" for a i
  proof -
    have i: "unat (of_nat i :: u64) = i" by (rule unat_of_nat_small) (use that in simp)
    have "unat (0x300000 + of_nat i :: u64) = 0x300000 + i"
      by (subst unat_plus_nowrap) (use that i in simp_all)
    moreover have "unat (0x300030 + of_nat i :: u64) = 0x300030 + i"
      by (subst unat_plus_nowrap) (use that i in simp_all)
    ultimately show ?thesis using that(1) by auto
  qed
  show "fits_bitmap (map_descs boot_memory 0x400000 96 48) (mmap_addrs 0x400000 96 48) boot_seg"
    using off by (simp add: fits_bitmap_def t boot_map_addrs bitmap_bytes_def boot_bitmap_def
        boot_seg_def bitmap_pages_def Let_def)
qed

lemma boot_conventional: "conventional_frames (map_descs boot_memory 0x400000 96 48) = {256 ..< 512}"
proof -
  have "{d \<in> set (map_descs boot_memory 0x400000 96 48). is_conventional d} = {boot_seg}"
    by (auto simp: boot_map_descs is_conventional_def boot_seg_def)
  moreover have "frames_from 0x100000 256 = {256 ..< 512}" by (subst frames_from_nowrap) simp_all
  ultimately show ?thesis by (simp add: conventional_frames_def boot_seg_def)
qed

theorem ppa_init_result_witness:
  "\<exists>s'. ppa_init 0x400000 96 48 (ppa_power_on boot_memory) = Inr s' \<and>
    frames_limit s' = 512 \<and> frame_used s' 0 \<and> frame_used s' 256 \<and> \<not> frame_used s' 257 \<and>
    allocator_ready s'"
proof -
  let ?ds = "map_descs boot_memory 0x400000 96 48"
  note c = boot_conventional
  have p: "bitmap_pages 512 = 1" by (simp add: bitmap_pages_def)
  have on: "phys (ppa_power_on boot_memory) = boot_memory"
    "ppa_initialized (ppa_power_on boot_memory) = 0"
    "last_hit (ppa_power_on boot_memory) = 0" by (simp_all add: ppa_power_on_def)
  from ppa_init_result [where s = "ppa_power_on boot_memory" and mmap_desc_size = 48 and ds = ?ds
      and mmap = "0x400000" and mmap_size = 96 and seg = boot_seg, OF on(2,3)]
  obtain s' where s': "ppa_init 0x400000 96 48 (ppa_power_on boot_memory) = Inr s'"
      "frames_limit s' = 512" "allocator_ready s'"
      "\<forall>j. frame_used s' j \<longleftrightarrow> j < 512 \<and> (j < 256 \<or> j \<notin> {256 ..< 512} \<or>
        j \<in> {unat (physicalstart boot_seg) div 4096 ..< unat (physicalstart boot_seg) div 4096 + 1})"
    unfolding on(1) c p boot_map_fits(1) using boot_map_fits by auto
  then show ?thesis
    by (intro exI [of _ s']) (simp add: boot_seg_def)
qed

text \<open>\<open>get_memory_size\<close> returns the sum of the descriptors' sizes, modulo \<open>2 ^ 64\<close>, of a
  map with a stride; with a stride of 0 a map that is not empty is walked forever.\<close>

theorem get_memory_size_result:
  "get_memory_size mmap mmap_size mmap_desc_size m =
    (if mmap_size = 0 then Inr 0
     else if mmap_desc_size = 0 then Inl Diverges
     else Inr (of_nat (4096 * total_frames (map_descs m mmap mmap_size mmap_desc_size))))"
proof -
  have sum: "(\<Sum>a\<leftarrow>xs. numberofpages (load_desc m a) * 4096) =
      of_nat (4096 * total_frames (map (load_desc m) xs))" for xs
    by (induction xs) (simp_all add: total_frames_def algebra_simps)
  show ?thesis
  proof (cases "mmap_desc_size = 0 \<or> mmap_size = 0")
    case True
    then show ?thesis
      by (auto simp: get_memory_size_def mmap_fold.simps [of _ mmap 0] unat_gt_0)
  next
    case False
    then show ?thesis
      by (simp add: get_memory_size_sum sum map_descs_def word_gt_0 del: of_nat_mult)
  qed
qed

end
