(* ===== verification/PageMapProperties.thy ===== *)
theory PageMapProperties
  imports PageMapCorrect FrameProperties
begin

text \<open>
  The properties of the page mapper, stated over the definitions of \<open>PageMap\<close>, each
  followed by an instance on a small machine.
\<close>

section \<open>A small machine\<close>

text \<open>64 frames: the bitmap in frame 1, an empty root table in frame 2.\<close>

definition small_pmm :: pmm where
  "small_pmm =
     \<lparr>phys = (\<lambda>_. 0), ppa_bitmap = \<lparr>bm_size = 3, bm_max_index = 63, bm_data = 0x1000\<rparr>,
      mem_used = 0, mem_rsvd = 0, mem_free = 0x40000, mem_total = 0x40000,
      ppa_initialized = 1, last_hit = 0, PML4 = 0x2000\<rparr>"

definition ready_pmm :: pmm where
  "ready_pmm = ppa_lck 0x2000 (ppa_lck 0x1000 small_pmm)"

lemma small_pmm_limit [simp]: "frames_limit small_pmm = 64"
  by (simp add: small_pmm_def frames_limit_def)

lemma small_pmm_bit [simp]: "\<not> frame_bit small_pmm j"
  by (simp add: frame_bit_def small_pmm_def load32_def load_zero_memory)

lemma small_pmm_wf [simp]: "bitmap_wf small_pmm" and small_pmm_tail [simp]: "tail_clear small_pmm"
  by (simp_all add: bitmap_wf_def tail_clear_def) (simp_all add: small_pmm_def)

lemma ready_pmm_used [simp]: "frame_used ready_pmm j \<longleftrightarrow> j = 1 \<or> j = 2"
  by (auto simp: ready_pmm_def lck.used_step lck.wf_step frame_simps frame_used_def [of small_pmm])

lemma ready_pmm_fields [simp]:
  "ppa_bitmap ready_pmm = \<lparr>bm_size = 3, bm_max_index = 63, bm_data = 0x1000\<rparr>"
  "frames_limit ready_pmm = 64" "last_hit ready_pmm = 0" "PML4 ready_pmm = 0x2000"
proof -
  have "ppa.more ready_pmm = ppa.more small_pmm" by (simp add: ready_pmm_def frame_simps)
  then show "PML4 ready_pmm = 0x2000" using PML4_more [of ready_pmm small_pmm] by (simp add: small_pmm_def)
qed (simp_all add: ready_pmm_def frame_simps, simp_all add: small_pmm_def)

lemma ready_pmm_allocator: "allocator_ready ready_pmm"
proof -
  have "bitmap_wf ready_pmm" "tail_clear ready_pmm"
    by (simp_all add: ready_pmm_def lck.wf_step tail_clear_ops)
  then show ?thesis by (simp add: allocator_ready_def small_bitmap_frame)
qed

lemma ready_pmm_root: "client_page ready_pmm (PML4 ready_pmm)"
  and ready_pmm_empty: "page_of x = PML4 ready_pmm \<Longrightarrow> phys ready_pmm x = 0"
proof -
  have al: "page_aligned 0x2000" by (simp add: page_aligned_def)
  have off: "page_of x \<noteq> 0x2000"
    if "x \<in> bitmap_bytes \<lparr>bm_size = 3, bm_max_index = 63, bm_data = 0x1000\<rparr>" for x
  proof
    assume "page_of x = 0x2000"
    then have "unat x div 4096 = unat (0x2000 :: u64) div 4096" using page_of_frame [of x] by simp
    with small_bitmap_frame [OF that] show False by simp
  qed
  with al show "client_page ready_pmm (PML4 ready_pmm)" by (auto simp: client_page_def)
  assume "page_of x = PML4 ready_pmm"
  then have "x \<notin> bitmap_bytes (ppa_bitmap ready_pmm)" using off by auto
  then have "phys ready_pmm x = phys small_pmm x"
    by (simp add: ready_pmm_def ppa_lck_phys lck.wf_step frame_simps)
  then show "phys ready_pmm x = 0" by (simp add: small_pmm_def)
qed

lemmas ready_pmm_facts = empty_root [OF ready_pmm_allocator ready_pmm_root ready_pmm_empty]

lemma ready_pmm_enough: "tables_missing ready_pmm (PML4 ready_pmm) v \<le> card (frames_ahead ready_pmm)"
proof -
  have "{3, 4, 5} \<subseteq> frames_ahead ready_pmm" by (simp add: frames_ahead_def)
  from card_mono [OF finite_frames_ahead this] show ?thesis
    by (simp only: ready_pmm_facts(3)) simp
qed

section \<open>Entries\<close>

text \<open>The address field and the flags of an entry are independent: the address written is
  the address read (in its 40 bits), writing it leaves every bit outside the field, and setting
  flags below the field leaves it and makes the flags read as set.\<close>

theorem pde_fields:
  "pmm_addr_get (pmm_addr_set e a) = take_bit 40 a \<and>
   pmm_addr_set e a AND NOT (push_bit 12 (mask 40)) = e AND NOT (push_bit 12 (mask 40)) \<and>
   pmm_addr_set e (pmm_addr_get e) = e \<and>
   pmm_flag_get (pmm_flag_set e f 1) f = 1 \<and>
   pmm_addr_get (pmm_flag_set e (take_bit 12 f) 1) = pmm_addr_get e"
proof (intro conjI)
  show "pmm_addr_get (pmm_addr_set e a) = take_bit 40 a"
    by (rule bit_word_eqI) (auto simp: pte_simps bit_take_bit_iff)
  show "pmm_addr_set e a AND NOT (push_bit 12 (mask 40)) = e AND NOT (push_bit 12 (mask 40))"
    by (rule bit_word_eqI)
      (auto simp: pte_simps bit_and_iff bit_not_iff bit_push_bit_iff bit_mask_iff)
  show "pmm_addr_set e (pmm_addr_get e) = e"
    by (rule bit_word_eqI) (auto simp: pte_simps)
  show "pmm_flag_get (pmm_flag_set e f 1) f = 1"
    by (simp add: pmm_flag_get_bits pte_simps)
  show "pmm_addr_get (pmm_flag_set e (take_bit 12 f) 1) = pmm_addr_get e"
    by (rule bit_word_eqI) (auto simp: pte_simps bit_take_bit_iff)
qed

text \<open>Clearing a flag computes its mask in 32 bits: beside the flag it clears the upper
  half of the entry, so that only the low 20 bits of the address field survive.\<close>

theorem pmm_flag_clear_truncates:
  "pmm_flag_set e f 0 = take_bit 32 e AND NOT (ucast f) \<and>
   pmm_addr_get (pmm_flag_set e (take_bit 12 f) 0) = take_bit 20 (pmm_addr_get e)"
proof
  show "pmm_flag_set e f 0 = take_bit 32 e AND NOT (ucast f)"
    by (rule bit_word_eqI)
      (auto simp: pte_simps bit_and_iff bit_not_iff bit_ucast_iff bit_take_bit_iff
        dest: bit_imp_le_length)
  show "pmm_addr_get (pmm_flag_set e (take_bit 12 f) 0) = take_bit 20 (pmm_addr_get e)"
    by (rule bit_word_eqI) (auto simp: pte_simps bit_take_bit_iff)
qed

section \<open>Mappings\<close>

text \<open>
  A mapper state holds well-formed tables (\<open>pmm_ready\<close>): the allocator is in order, every table
  on a path from the root is a page of the allocator's clients, and no table is reached twice.
\<close>

text \<open>C3. With enough free frames ahead for the tables the path lacks, mapping a page makes
  \<open>pmm_find_paddr\<close> return the page's frame on every address of that page, and leaves what it
  returns for every other address as it was.\<close>

theorem pmm_map_find:
  assumes "pmm_ready s" and "tables_missing s (PML4 s) v \<le> card (frames_ahead s)"
  shows "pmm_find_paddr w (pmm_map_memory v p s) =
    (if take_bit 36 (drop_bit 12 v) = take_bit 36 (drop_bit 12 w)
     then push_bit 12 (take_bit 40 (drop_bit 12 p)) else pmm_find_paddr w s)"
proof -
  note run = pmm_map_memory_run [OF assms refl, where p = p]
  show ?thesis
    by (simp add: pmm_find_paddr_walk run(2) run(3) frame_field_def same_path_page)
qed

theorem pmm_map_find_witness:
  "pmm_find_paddr 0x400000ABC (pmm_map_memory 0x400000000 0x7000 ready_pmm) = 0x7000 \<and>
    pmm_find_paddr 0x400001000 (pmm_map_memory 0x400000000 0x7000 ready_pmm) = 0"
proof -
  note find = pmm_map_find [OF ready_pmm_facts(1) ready_pmm_enough, of _ "0x400000000" "0x7000"]
  show ?thesis by (simp add: find ready_pmm_facts(4))
qed

text \<open>C16. Mapping keeps the tables well formed, never moves the root, keeps the pages handed out
  before, with their contents unless they are tables, and takes at most the frames of the missing tables (so at most three) from the
  allocator; remapping a page whose tables exist takes none.\<close>

theorem pmm_map_ready:
  assumes "pmm_ready s" and "tables_missing s (PML4 s) v \<le> card (frames_ahead s)"
  shows "let s' = pmm_map_memory v p s
    in pmm_ready s' \<and> PML4 s' = PML4 s \<and> (\<forall>q. client_page s q \<longrightarrow> client_page s' q) \<and>
       keeps_data (PML4 s) s s' \<and>
       card (frames_ahead s) \<le> card (frames_ahead s') + tables_missing s (PML4 s) v \<and>
       tables_missing s (PML4 s) v \<le> 3 \<and> tables_missing s' (PML4 s') v = 0"
proof -
  note run = pmm_map_memory_run [OF assms refl, where p = p]
  let ?s = "pmm_map_memory v p s"
  have "pt_walk (table_entry (phys ?s)) (PML4 s) j v \<noteq> None" if "j = 1 \<or> j = 2 \<or> j = 3" for j
    using run(6) [of j v] that by (auto simp: same_path_def)
  then have "tables_missing ?s (PML4 ?s) v = 0" by (simp add: tables_missing_def run(2))
  moreover have "tables_missing s (PML4 s) v \<le> 3" by (simp add: tables_missing_def)
  ultimately show ?thesis using run(1,2,4,5,7) by (simp add: Let_def)
qed

theorem pmm_map_ready_witness:
  "pmm_ready (pmm_map_memory 0x400000000 0x7000 ready_pmm)"
  using pmm_map_ready [OF ready_pmm_facts(1) ready_pmm_enough, of "0x400000000" "0x7000"]
  by (simp add: Let_def)

end
