(* ===== verification/SerialProperties.thy ===== *)
theory SerialProperties
  imports Serial
begin

text \<open>
  The properties of the serial port: when the waits return and what has been exchanged by then, the
  loopback test, and what \<open>serial_printf\<close> transmits.
\<close>

section \<open>A slow device\<close>

text \<open>Ready, and with a byte received, at every fourth access only.\<close>

definition slow :: device where
  "slow es port = (if length es mod 4 = 3 then 0x21 else 0)"

lemma slow_reads: "length (after_reads dev port n es) = length es + n"
  by (induction n) (simp_all add: Let_def)

lemma slow_ready: "keeps_showing slow port 0x20"
proof -
  have "answer slow port (3 * length es + 3) es = 0x21" for es
  proof -
    have "(length es + (3 * length es + 3)) mod 4 = 3"
    proof -
      have "length es + (3 * length es + 3) = 4 * length es + 3" by simp
      then show ?thesis by (simp only: mod_mult_self4) simp
    qed
    then show ?thesis unfolding answer_def slow_def slow_reads by simp
  qed
  then have "\<exists>n. answer slow port n es AND 0x20 \<noteq> 0" for es
    by (intro exI [of _ "3 * length es + 3"]) simp
  then show ?thesis by (simp add: keeps_showing_def)
qed

section \<open>Waiting for the device\<close>

text \<open>C22. \<open>kputc\<close> returns exactly if the line status shows the transmitter empty after some number
  of reads; it then has read it up to the first time it did, written the low byte of the character
  once, and changed nothing else. \<open>kgetc\<close> waits in the same way for the receiver's bit and returns the
  byte it then reads.\<close>

theorem serial_waits:
  "(kputc dev c s = None \<longleftrightarrow> (\<forall>n. \<not> bit (answer dev 0x3FD n (events s)) 5)) \<and>
   (kputc dev c s = Some (r, s') \<longleftrightarrow> r = c \<and>
     (\<exists>n. (\<forall>k<n. \<not> bit (answer dev 0x3FD k (events s)) 5) \<and> bit (answer dev 0x3FD n (events s)) 5 \<and>
       s' = s\<lparr>events := after_reads dev 0x3FD (Suc n) (events s) @ [Out8 0x3F8 (word_of_int c)]\<rparr>)) \<and>
   (kgetc dev s = None \<longleftrightarrow> (\<forall>n. \<not> bit (answer dev 0x3FD n (events s)) 0)) \<and>
   (kgetc dev s = Some (r, s') \<longleftrightarrow>
     (\<exists>n. (\<forall>k<n. \<not> bit (answer dev 0x3FD k (events s)) 0) \<and> bit (answer dev 0x3FD n (events s)) 0 \<and>
       (let es = after_reads dev 0x3FD (Suc n) (events s); v = dev es 0x3F8
        in r = uint v \<and> s' = s\<lparr>events := es @ [In8 0x3F8 v]\<rparr>)))"
proof -
  have b5: "v AND 0x20 = 0 \<longleftrightarrow> \<not> bit v 5" for v :: u8
    using and_bit_nonzero [of 5 v] by (auto simp: push_bit_eq_mult)
  have b0: "v AND 1 = 0 \<longleftrightarrow> \<not> bit v 0" for v :: u8
    using and_bit_nonzero [of 0 v] by auto
  have put: "kputc dev c s = None \<longleftrightarrow> (\<forall>n. \<not> bit (answer dev 0x3FD n (events s)) 5)"
    by (simp only: kputc_diverges b5)
  have put': "kputc dev c s = Some (r, s') \<longleftrightarrow> r = c \<and>
     (\<exists>n. (\<forall>k<n. \<not> bit (answer dev 0x3FD k (events s)) 5) \<and> bit (answer dev 0x3FD n (events s)) 5 \<and>
       s' = s\<lparr>events := after_reads dev 0x3FD (Suc n) (events s) @ [Out8 0x3F8 (word_of_int c)]\<rparr>)"
    unfolding kputc_run b5 by simp
  have get: "kgetc dev s = None \<longleftrightarrow> (\<forall>n. \<not> bit (answer dev 0x3FD n (events s)) 0)"
    by (simp only: kgetc_diverges b0)
  show ?thesis unfolding put put' get kgetc_run b0 by simp
qed

theorem serial_waits_witness:
  "\<exists>s'. kputc slow 0x141 \<lparr>events = []\<rparr> = Some (0x141, s') \<and>
    events s' = [In8 0x3FD 0, In8 0x3FD 0, In8 0x3FD 0, In8 0x3FD 0x21, Out8 0x3F8 0x41]"
proof -
  have a: "after_reads slow 0x3FD 3 [] = [In8 0x3FD 0, In8 0x3FD 0, In8 0x3FD 0]"
    "after_reads slow 0x3FD (Suc 3) [] = [In8 0x3FD 0, In8 0x3FD 0, In8 0x3FD 0, In8 0x3FD 0x21]"
    unfolding numeral_3_eq_3 by (simp_all add: slow_def Let_def)
  have early: "\<not> bit (answer slow 0x3FD k []) 5" if "k < 3" for k
    unfolding answer_def slow_def slow_reads using that by simp
  have ready: "bit (answer slow 0x3FD 3 []) 5"
    unfolding answer_def a(1) by (simp add: slow_def)
  have byte: "(word_of_int 0x141 :: u8) = 0x41" by simp
  have "kputc slow 0x141 \<lparr>events = []\<rparr> =
      Some (0x141, \<lparr>events = after_reads slow 0x3FD (Suc 3) [] @ [Out8 0x3F8 0x41]\<rparr>)"
    by (rule serial_waits [THEN conjunct2, THEN conjunct1, THEN iffD2], intro conjI refl exI [of _ 3])
      (use early ready in \<open>simp_all only: io.simps byte, blast\<close>)
  then show ?thesis using a(2) by simp
qed

section \<open>Initialisation\<close>

text \<open>\<open>init_serial\<close> sets the baud divisor to 3 and the line to 8 bits without parity, sends 0xAE
  in loopback mode, and returns 0, leaving the loopback mode, exactly if that byte comes back.\<close>

theorem init_serial_result:
  "(let ports = [(0x3F9, 0x00), (0x3FB, 0x80), (0x3F8, 0x03), (0x3F9, 0x00), (0x3FB, 0x03),
         (0x3FA, 0xC7), (0x3FC, 0x0B), (0x3FC, 0x1E), (0x3F8, 0xAE)];
       es = events s @ map (\<lambda>(port, v). Out8 port v) ports;
       back = dev es 0x3F8
    in init_serial dev s =
      (if back = 0xAE then (0, s\<lparr>events := es @ [In8 0x3F8 back, Out8 0x3FC 0x0F]\<rparr>)
       else (1, s\<lparr>events := es @ [In8 0x3F8 back]\<rparr>)))"
  by (simp add: init_serial_def COM1_PORT_def io_simps Let_def outb_def emit_def)

section \<open>Printing\<close>

text \<open>C13. On a transmitter that becomes ready again after whatever was done to it,
  \<open>serial_printf\<close> returns and has transmitted the time stamp, seconds and milliseconds of
  \<open>ms_count\<close>, and the text of the format, in order and once; \<open>kputs\<close> transmits its string.\<close>

theorem serial_printf_transmits:
  assumes "keeps_showing dev 0x3FD 0x20"
    and "items_output items ap 0 = Some (printed, ret)" and "\<And>x. x \<in> set items \<Longrightarrow> item_ok x"
    and "length (print_buff s) = 32" and "unat (ms_count s) < 2 ^ 31 * 1000"
  shows "(\<exists>s'. serial_printf dev (format_text items @ [0]) ap s = Some (Inr s') \<and>
      sent (events s') = sent (events s) @ map word_of_int (time_stamp (unat (ms_count s)) @ printed) \<and>
      ms_count s' = ms_count s \<and> length (print_buff s') = 32) \<and>
    (cstr str p xs \<longrightarrow> (\<exists>s'. kputs dev str p s = Some (Inr (0, s')) \<and>
      sent (events s') = sent (events s) @ xs \<and> ms_count s' = ms_count s))"
proof -
  have "\<exists>s'. kputs dev str p s = Some (Inr (0, s')) \<and>
      sent (events s') = sent (events s) @ xs \<and> ms_count s' = ms_count s" if str: "cstr str p xs"
    using kputs_sends [OF assms(1) str, of s] kept_fields(1) by (elim exE conjE) (intro exI conjI)
  with serial_printf_runs [OF assms] show ?thesis by blast
qed

theorem serial_printf_transmits_witness:
  "\<exists>s'. serial_printf slow [79, 75, 0] [] \<lparr>events = [], ms_count = 61005, print_buff = replicate 32 0\<rparr> =
      Some (Inr s') \<and>
    sent (events s') = map of_char ''[       61.005] OK''"
proof -
  have o: "items_output [Lit 79, Lit 75] [] 0 = Some ([79, 75], 2)"
    by (simp add: INT_MIN_def INT_MAX_def)
  have ok: "item_ok x" if "x \<in> set [Lit 79, Lit 75]" for x using that by auto
  have u: "unat (61005 :: u64) = 61005" by simp
  have r: "replicate 7 (32 :: int) = [32, 32, 32, 32, 32, 32, 32]" "replicate 2 (48 :: int) = [48, 48]"
    by (simp_all add: numeral_eq_Suc)
  have st: "time_stamp 61005 = map (\<lambda>c. of_char c) ''[       61.005] ''"
    using r by (simp add: time_stamp_def field_text_def number_text_def digits.simps digit_char_def)
  show ?thesis
    using serial_printf_transmits [OF slow_ready o ok, of "\<lparr>events = [], ms_count = 61005, print_buff = replicate 32 0\<rparr>"]
    unfolding format_text_def by (simp add: st sent_def) blast
qed

end
