(* ===== verification/KernelProperties.thy ===== *)
theory KernelProperties
  imports KernelBoot PageMapProperties SerialProperties FrameProperties ConsoleProperties
begin

text \<open>
  The properties of the kernel's start and of the kernel at work, with instances on the small machine of
  \<open>PageMapProperties\<close>.
\<close>

section \<open>A small kernel\<close>

definition small_kernel :: kernel where
  "small_kernel =
     \<lparr>phys = phys ready_pmm, ppa_bitmap = ppa_bitmap ready_pmm, mem_used = 0x2000, mem_rsvd = 0,
      mem_free = 0x3E000, mem_total = 0x40000, ppa_initialized = 1, last_hit = 0, PML4 = 0,
      con = conlib_init 0 0 64 32 256,
      tty = \<lparr>events = [], ms_count = 0, print_buff = replicate 32 0\<rparr>,
      GDTR = \<lparr>gdt_size = 0, gdt_offset = 0\<rparr>, IDTR = \<lparr>idt_size = 0, idt_offset = 0\<rparr>,
      cpu_gdt = \<lparr>gdt_size = 0, gdt_offset = 0\<rparr>, cpu_idt = \<lparr>idt_size = 0, idt_offset = 0\<rparr>, cpu_cr3 = 0,
      cpu_cs = 0, cpu_ds = 0\<rparr>"

lemma small_kernel_alloc:
  "allocator_ready small_kernel" "card (frames_ahead small_kernel) = 62"
proof -
  have "phys small_kernel = phys ready_pmm" "ppa_bitmap small_kernel = ppa_bitmap ready_pmm"
    "last_hit small_kernel = last_hit ready_pmm" by (simp_all add: small_kernel_def)
  note same = allocator_same [OF this]
  show "allocator_ready small_kernel" by (simp add: same(1) ready_pmm_allocator)
  have "frames_ahead ready_pmm = {..<64} - {1, 2}" by (auto simp: frames_ahead_def)
  moreover have "card ({..<64} - {1, 2 :: nat}) = 62" by simp
  ultimately show "card (frames_ahead small_kernel) = 62" by (simp add: same(2))
qed

section \<open>The identity mapping\<close>

text \<open>C4. With the frames for the tables of all of memory and of the frame buffer ahead,
  \<open>init_pmm\<close> ends and has mapped every page of memory and of the frame buffer to itself and nothing
  else; the root it loads is the one it built, a page of its own, and the pages handed out before are
  kept with their contents.\<close>

theorem init_pmm_identity:
  assumes "allocator_ready s" and "unat (mem_total s) \<le> 2 ^ 48" and "page_aligned base"
    and "unat base + unat sz \<le> 2 ^ 48"
    and "1 + tables_for (unat (mem_total s)) + tables_for (unat sz) \<le> card (frames_ahead s)"
  shows "\<exists>s'. init_pmm base sz s = Inr s' \<and> pmm_ready s' \<and> cpu_cr3 s' = PML4 s' \<and>
    client_page s' (PML4 s') \<and>
    (\<forall>q. client_page s q \<longrightarrow> client_page s' q \<and> (\<forall>x. page_of x = q \<longrightarrow> phys s' x = phys s x)) \<and>
    (\<forall>w. unat w < 2 ^ 48 \<longrightarrow> pmm_find_paddr w s' =
       (if page_of w < mem_total s \<or> base \<le> page_of w \<and> page_of w < base + sz then page_of w else 0))"
proof -
  obtain s' V where run: "init_pmm base sz s = Inr s'" and id: "identity_map s' V"
    and V: "V = pages_from 0 (mem_total s) \<union> pages_from base (base + sz)"
    and rest: "cpu_cr3 s' = PML4 s'" "client_page s' (PML4 s')"
      "\<forall>q. client_page s q \<longrightarrow> client_page s' q \<and> (\<forall>x. page_of x = q \<longrightarrow> phys s' x = phys s x)"
    using init_pmm_run [OF assms] unfolding data_page_def by blast
  with run rest identity_mapD(1) [OF id] identity_translation [OF id V] show ?thesis by blast
qed

theorem init_pmm_identity_witness:
  "\<exists>s'. init_pmm 0x100000000 0x2000 small_kernel = Inr s' \<and> pmm_find_paddr 0x3FFF8 s' = 0x3F000 \<and>
    pmm_find_paddr 0x100001234 s' = 0x100001000 \<and> pmm_find_paddr 0x40000 s' = 0"
proof -
  have al: "page_aligned 0x100000000" by (simp add: page_aligned_def)
  have t: "mem_total small_kernel = 0x40000" by (simp add: small_kernel_def)
  have "1 + tables_for (unat (mem_total small_kernel)) + tables_for (unat (0x2000 :: u64)) \<le>
      card (frames_ahead small_kernel)"
    by (simp add: t tables_for_def small_kernel_alloc)
  from init_pmm_identity [OF small_kernel_alloc(1) _ al _ this] obtain s' where
    s': "init_pmm 0x100000000 0x2000 small_kernel = Inr s'"
    "\<And>w. unat w < 2 ^ 48 \<Longrightarrow> pmm_find_paddr w s' =
      (if page_of w < 0x40000 \<or> 0x100000000 \<le> page_of w \<and> page_of w < 0x100002000 then page_of w else 0)"
    by (auto simp: t)
  have "page_of 0x3FFF8 = 0x3F000" "page_of 0x100001234 = 0x100001000" "page_of 0x40000 = 0x40000"
    by (simp_all add: page_of_def)
  then show ?thesis using s' by simp
qed

section \<open>The interrupt table\<close>

text \<open>C15. With a free frame ahead, \<open>init_idt\<close> loads a table of 256 entries in a fresh page whose
  gates for the two interrupts and the three faults lead to their handlers; every other entry is what
  the page held before, which is not cleared. At last the controllers are left with only timer and
  keyboard unmasked, and interrupts are enabled.\<close>

theorem init_idt_gates:
  assumes "allocator_ready s" and "0 < card (frames_ahead s)"
  shows "\<exists>s' page es. init_idt dev sy s = Inr s' \<and> page_aligned page \<and> \<not> client_page s page \<and>
    cpu_idt s' = \<lparr>idt_size = 4095, idt_offset = page\<rparr> \<and>
    (\<forall>i<256. load_idt_entry (phys s') (page + of_nat (16 * i)) =
       (case handler_of sy i of
          Some h \<Rightarrow> IDT_CREATE_ENTRY h 0x08 0 IDT_INTERRUPT_GATE
        | None \<Rightarrow> load_idt_entry (phys s) (page + of_nat (16 * i)))) \<and>
    events (tty s') = es @ [Out8 0x21 0xFC, Out8 0xA1 0xFF, Sti] \<and> ms_count (tty s') = 0"
  using init_idt_run [OF assms, where dev = dev and sy = sy] by metis

definition sample_symbols :: symbols where
  "sample_symbols =
     \<lparr>sym_DEFAULT_GDT = 0x101000, sym_font = 0x102000, sym_kernel_start = 0x100000,
      sym_kernel_end = 0x110000, sym_print_str = 0x103000, sym_PageFault = 0x100010,
      sym_DoubleFault = 0x100020, sym_GeneralProtectionFault = 0x100030, sym_Timer = 0x100040,
      sym_Keyboard = 0x100050\<rparr>"

theorem init_idt_gates_witness:
  "\<exists>s' page. init_idt (latch 0xFF) sample_symbols small_kernel = Inr s' \<and>
    gate_offset (load_idt_entry (phys s') (page + of_nat (16 * 0x20))) = 0x100040"
proof -
  have "0 < card (frames_ahead small_kernel)" by (simp add: small_kernel_alloc)
  from init_idt_gates [OF small_kernel_alloc(1) this] obtain s' page where
    run: "init_idt (latch 0xFF) sample_symbols small_kernel = Inr s'" and
    gates: "\<forall>i<256. load_idt_entry (phys s') (page + of_nat (16 * i)) =
       (case handler_of sample_symbols i of
          Some h \<Rightarrow> IDT_CREATE_ENTRY h 0x08 0 IDT_INTERRUPT_GATE
        | None \<Rightarrow> load_idt_entry (phys small_kernel) (page + of_nat (16 * i)))" by blast
  have "handler_of sample_symbols 0x20 = Some 0x100040"
    by (simp add: handler_of_def sample_symbols_def)
  then have "load_idt_entry (phys s') (page + of_nat (16 * 0x20)) =
      IDT_CREATE_ENTRY 0x100040 0x08 0 IDT_INTERRUPT_GATE"
    using gates [rule_format, of "0x20"] by simp
  then show ?thesis using run gate_offset_create by metis
qed

section \<open>The segment table\<close>

text \<open>C36. When the table of the image is at its symbol, \<open>init_gdt\<close> loads a descriptor of the whole page
  and selectors that find in it, within its limit, present 64-bit code of privilege level 0 and present
  writable data. It clears the page from byte 384 on and writes nothing else, so that all six entries
  are those of the image.\<close>

theorem init_gdt_segments:
  assumes "load_gdt (phys s) (sym_DEFAULT_GDT sy) = DEFAULT_GDT"
  shows "let s' = init_gdt sy s; a = gdt_offset (cpu_gdt s');
      code = load_gdt_entry (phys s') (a + ucast (cpu_cs s')); data = load_gdt_entry (phys s') (a + ucast (cpu_ds s'))
    in load_gdt (phys s') a = DEFAULT_GDT \<and>
      code = kernel_code DEFAULT_GDT \<and> seg_present code \<and> seg_code code \<and> seg_long code \<and> seg_dpl code = 0 \<and>
      data = kernel_data DEFAULT_GDT \<and> seg_present data \<and> seg_data data \<and>
      cpu_cs s' + 7 \<le> gdt_size (cpu_gdt s') \<and> cpu_ds s' + 7 \<le> gdt_size (cpu_gdt s') \<and>
      (\<forall>x. phys s' x = (if 384 \<le> unat (x - a) \<and> unat (x - a) < 4096 then 0 else phys s x)) \<and>
      s' = s\<lparr>GDTR := GDTR s', phys := phys s', cpu_gdt := GDTR s', cpu_cs := cpu_cs s', cpu_ds := cpu_ds s'\<rparr>"
proof -
  define s' where "s' = init_gdt sy s"
  define a where "a = sym_DEFAULT_GDT sy"
  have mem: "phys s' x = (if 384 \<le> unat (x - a) \<and> unat (x - a) < 4096 then 0 else phys s x)" for x
    unfolding s'_def a_def by (rule init_gdt_memory)
  have regs: "GDTR s' = \<lparr>gdt_size = 4095, gdt_offset = a\<rparr>" "cpu_gdt s' = GDTR s'" "cpu_cs s' = 8" "cpu_ds s' = 16"
    by (simp_all add: s'_def a_def init_gdt_fields)
  have "load_gdt (phys s') a = load_gdt (phys s) a"
    by (rule load_gdt_cong) (simp add: mem unat_of_nat_small)
  then have all: "load_gdt (phys s') a = DEFAULT_GDT" using assms by (simp add: a_def)
  then have found: "load_gdt_entry (phys s') (a + 8) = kernel_code DEFAULT_GDT"
    "load_gdt_entry (phys s') (a + 16) = kernel_data DEFAULT_GDT"
    by (metis load_gdt_def GDT.select_convs(2), metis load_gdt_def GDT.select_convs(3))
  have "s' = s\<lparr>GDTR := GDTR s', phys := phys s', cpu_gdt := GDTR s', cpu_cs := cpu_cs s', cpu_ds := cpu_ds s'\<rparr>"
    by (simp add: s'_def init_gdt_def set_gdt_def Let_def)
  then show ?thesis
    unfolding s'_def [symmetric] Let_def using mem all found
    by (simp add: regs)
      (simp add: DEFAULT_GDT_def seg_present_def seg_code_def seg_data_def seg_long_def seg_dpl_def)
qed

text \<open>A page with the image's table at 4096.\<close>

definition table_kernel :: kernel where
  "table_kernel = small_kernel\<lparr>phys := (\<lambda>x.
     if x \<in> {0x100D, 0x1025} then 0x9a else if x \<in> {0x1015, 0x102D} then 0x92
     else if x \<in> {0x100E, 0x1016, 0x1026, 0x102E} then 0xa0 else if x = 0x1200 then 1 else 0)\<rparr>"

theorem init_gdt_segments_witness:
  "let s' = init_gdt (sample_symbols\<lparr>sym_DEFAULT_GDT := 0x1000\<rparr>) table_kernel
   in load_gdt (phys s') 0x1000 = DEFAULT_GDT \<and> phys s' 0x1200 = 0"
proof -
  define sy where "sy = sample_symbols\<lparr>sym_DEFAULT_GDT := 0x1000\<rparr>"
  have sy: "sym_DEFAULT_GDT sy = 0x1000" by (simp add: sy_def)
  have "load_gdt (phys table_kernel) (sym_DEFAULT_GDT sy) = DEFAULT_GDT"
    by (simp add: sy load_gdt_def load_gdt_entry_def load_field_unfold table_kernel_def DEFAULT_GDT_def
        del: load_bytes.simps One_nat_def)
  from init_gdt_segments [OF this] show ?thesis
    by (simp add: Let_def init_gdt_fields sy flip: sy_def)
qed

section \<open>The start\<close>

text \<open>C2. On a machine that fits, with the free frames its tables need and a transmitter that keeps
  becoming ready, \<open>init_kernel\<close> returns. The tables it has loaded map all of memory and the frame buffer
  to themselves and nothing else, the segment table, the selectors, the console and the five gates are
  set up, every frame of memory that is in the kernel's image, in the frame buffer, in the first megabyte
  or in no conventional segment is taken and, unless it holds the allocator's bitmap, has its contents,
  and the two lines of the report have been transmitted, between them what the keyboard's interrupts
  print, the second stamped with the timer interrupts since the clock's restart.\<close>

theorem init_kernel_boots:
  assumes "ppa_initialized s = 0" and "last_hit s = 0"
    and "m = phys (init_gdt sy s)" and "bootable sy bi m seg"
    and "ds = map_descs m (mmap bi) (mmap_size bi) (mmap_desc_size bi)" and "b = load_framebuffer m (fb bi)"
    and "keeps_showing dev 0x3FD 0x20" and "length (print_buff (tty s)) = 32"
    and "unat (ms_count (tty s)) < 2 ^ 31 * 1000" and "ticks irqs < 2 ^ 31 * 1000"
  shows "\<exists>s'. init_kernel dev irqs sy bi s = Some (Inr s') \<and>
    (\<forall>w. unat w < 2 ^ 48 \<longrightarrow> pmm_find_paddr w s' =
       (if page_of w < of_nat (4096 * total_frames ds) \<or>
           fbbase b \<le> page_of w \<and> page_of w < fbbase b + (fbsize b + 4096) then page_of w else 0)) \<and>
    cpu_cr3 s' = PML4 s' \<and> cpu_gdt s' = \<lparr>gdt_size = 4095, gdt_offset = sym_DEFAULT_GDT sy\<rparr> \<and>
    cpu_cs s' = 0x08 \<and> cpu_ds s' = 0x10 \<and> idt_size (cpu_idt s') = 4095 \<and>
    (\<forall>i h. handler_of sy i = Some h \<longrightarrow>
       load_idt_entry (phys s') (idt_offset (cpu_idt s') + of_nat (16 * i)) =
         IDT_CREATE_ENTRY h 0x08 0 IDT_INTERRUPT_GATE) \<and>
    con s' = conlib_init (sym_font sy) (fbbase b) (fb_width b) (fb_height b) (ppsl b * 4) \<and>
    (\<forall>x. start_taken sy b ds seg (unat x div 4096) \<and> unat x div 4096 \<notin> bitmap_frames ds seg \<longrightarrow>
       client_page s' (page_of x) \<and> phys s' x = m x) \<and>
    sent (events (tty s')) = sent (events (tty s)) @ stamped (unat (ms_count (tty s))) ''GDT loaded.'' @
      irq_text irqs @ stamped (ticks irqs) ''IDT loaded.'' \<and> ms_count (tty s') = of_nat (ticks irqs)"
proof -
  obtain s' where run: "init_kernel dev irqs sy bi s = Some (Inr s')" and up: "kernel_up sy b ds seg m s'"
    and out: "sent (events (tty s')) = sent (events (tty s)) @ stamped (unat (ms_count (tty s))) ''GDT loaded.'' @
      irq_text irqs @ stamped (ticks irqs) ''IDT loaded.''" "ms_count (tty s') = of_nat (ticks irqs)"
    by (rule init_kernel_run [OF assms])
  have id: "identity_map s' (pages_from 0 (of_nat (4096 * total_frames ds)) \<union>
      pages_from (fbbase b) (fbbase b + (fbsize b + 4096)))" using up unfolding kernel_up_def by blast
  show ?thesis
    using identity_translation [OF id refl] up run out
    by (intro exI [of _ s']) (simp add: kernel_up_def data_page_def)
qed

text \<open>The machine of 2 MiB of \<open>FrameProperties\<close> with a screen of 64 by 32 pixels at 2 GiB, described at 5 MiB.\<close>

definition start_mem :: mem where
  "start_mem = boot_memory(0x500003 := 0x80, 0x500009 := 0x20, 0x500010 := 64, 0x500014 := 32, 0x500018 := 64)"

definition start_info :: BootInfo where
  "start_info = \<lparr>fb = 0x500000, mmap = 0x400000, mmap_size = 96, mmap_desc_size = 48\<rparr>"

definition cold_kernel :: kernel where
  "cold_kernel = small_kernel\<lparr>phys := start_mem, ppa_initialized := 0\<rparr>"

lemma start_map: "map_descs start_mem 0x400000 96 48 = map_descs boot_memory 0x400000 96 48"
  unfolding boot_map_descs
  by (simp add: map_descs_def boot_map_addrs load_desc_def load32_unfold load64_unfold
      start_mem_def boot_memory_def)

lemma start_fb: "load_framebuffer start_mem 0x500000 =
    \<lparr>fbbase = 0x80000000, fbsize = 0x2000, fb_width = 64, fb_height = 32, ppsl = 64\<rparr>"
  by (simp add: load_framebuffer_def load32_unfold load64_unfold start_mem_def boot_memory_def)

lemma start_gdt: "phys (init_gdt sample_symbols cold_kernel) = start_mem"
proof
  fix x
  have m: "phys (init_gdt sy s) = fst (ppa_memset (sym_DEFAULT_GDT sy + 64 * 6) 0 (4096 - 64 * 6) (phys s))"
    for sy and s :: kernel
    by (simp add: init_gdt_def set_gdt_def Let_def)
  have "start_mem x = 0" if "unat (x - 0x101180) < 3712"
    using that by (auto simp: start_mem_def boot_memory_def)
  then show "phys (init_gdt sample_symbols cold_kernel) x = start_mem x"
    unfolding m ppa_memset_apply by (simp add: cold_kernel_def sample_symbols_def)
qed

lemma start_free_frames:
  assumes "\<forall>j\<in>frames_from (sym_kernel_start sy) (unat (kernel_pages sy)). j < 272"
  shows "{272..<512} \<subseteq> start_free sy (load_framebuffer start_mem 0x500000)
     (map_descs boot_memory 0x400000 96 48) boot_seg"
proof
  fix j :: nat
  assume j: "j \<in> {272..<512}"
  let ?ds = "map_descs boot_memory 0x400000 96 48"
  have "bitmap_pages 512 = 1" by (simp add: bitmap_pages_def)
  then have "\<not> boot_taken ?ds boot_seg j"
    using j by (simp add: boot_taken_def boot_map_fits(1) boot_seg_def boot_conventional)
  moreover have "j \<notin> frames_from (sym_kernel_start sy) (unat (kernel_pages sy))" using assms j by auto
  moreover have "frames_from 0x80000000 3 = {0x80000..<0x80003}" by (subst frames_from_nowrap) simp_all
  ultimately have "\<not> start_taken sy (load_framebuffer start_mem 0x500000) ?ds boot_seg j"
    using j by (simp add: start_taken_def start_fb)
  moreover have "release_hint ?ds 0 = 256"
    by (simp add: release_hint_def boot_map_descs is_conventional_def)
  ultimately show "j \<in> start_free sy (load_framebuffer start_mem 0x500000) ?ds boot_seg"
    using j by (simp add: start_free_def boot_map_fits(1))
qed

lemma start_free_card:
  assumes "\<forall>j\<in>frames_from (sym_kernel_start sy) (unat (kernel_pages sy)). j < 272"
  shows "240 \<le> card (start_free sy (load_framebuffer start_mem 0x500000) (map_descs boot_memory 0x400000 96 48) boot_seg)"
  using card_mono [OF _ start_free_frames [OF assms]] by (simp add: start_free_def)

lemma start_bootable: "bootable sample_symbols start_info start_mem boot_seg"
proof -
  have "kernel_pages sample_symbols = 16" by (simp add: kernel_pages_def sample_symbols_def Let_def)
  moreover have "frames_from 0x100000 16 = {256..<272}" by (subst frames_from_nowrap) simp_all
  ultimately have "240 \<le> card (start_free sample_symbols (load_framebuffer start_mem 0x500000)
     (map_descs boot_memory 0x400000 96 48) boot_seg)"
    by (intro start_free_card) (simp add: sample_symbols_def)
  then show ?thesis
    using boot_map_fits
    by (simp add: bootable_def start_info_def start_map Let_def start_fb page_aligned_def tables_for_def)
qed

theorem init_kernel_boots_witness:
  "\<exists>s'. init_kernel slow [Timer, Keyboard] sample_symbols start_info cold_kernel = Some (Inr s') \<and>
    pmm_find_paddr 0x1FFFF8 s' = 0x1FF000 \<and> pmm_find_paddr 0x80001004 s' = 0x80001000 \<and>
    pmm_find_paddr 0x200000 s' = 0 \<and>
    gate_offset (load_idt_entry (phys s') (idt_offset (cpu_idt s') + of_nat (16 * 0x20))) = 0x100040 \<and>
    sent (events (tty s')) = stamped 0 ''GDT loaded.'' @ [32, 75, 66, 10] @ stamped 1 ''IDT loaded.''"
proof -
  let ?b = "load_framebuffer start_mem 0x500000"
  have c: "ppa_initialized cold_kernel = 0" "last_hit cold_kernel = 0" "length (print_buff (tty cold_kernel)) = 32"
    "ms_count (tty cold_kernel) = 0" "sent (events (tty cold_kernel)) = []"
    by (simp_all add: cold_kernel_def small_kernel_def sent_def)
  have f: "mmap start_info = 0x400000" "mmap_size start_info = 96" "mmap_desc_size start_info = 48"
    "fb start_info = 0x500000" by (simp_all add: start_info_def)
  have h: "handler_of sample_symbols 0x20 = Some 0x100040"
    by (simp add: handler_of_def sample_symbols_def)
  have pages: "page_of 0x1FFFF8 = 0x1FF000" "page_of 0x80001004 = 0x80001000" "page_of 0x200000 = 0x200000"
    by (simp_all add: page_of_def)
  have q: "ticks [Timer, Keyboard] = 1" "irq_text [Timer, Keyboard] = [32, 75, 66, 10]"
    by (simp_all add: ticks_def irq_text_def)
  from init_kernel_boots [OF c(1,2) start_gdt [symmetric] start_bootable refl refl slow_ready c(3), of "[Timer, Keyboard]"]
  obtain s' where run: "init_kernel slow [Timer, Keyboard] sample_symbols start_info cold_kernel = Some (Inr s')"
    and find: "\<forall>w. unat w < 2 ^ 48 \<longrightarrow> pmm_find_paddr w s' = (if page_of w < 0x200000 \<or>
      0x80000000 \<le> page_of w \<and> page_of w < 0x80003000 then page_of w else 0)"
    and gates: "\<forall>i h. handler_of sample_symbols i = Some h \<longrightarrow>
       load_idt_entry (phys s') (idt_offset (cpu_idt s') + of_nat (16 * i)) =
         IDT_CREATE_ENTRY h 0x08 0 IDT_INTERRUPT_GATE"
    and out: "sent (events (tty s')) = stamped 0 ''GDT loaded.'' @ [32, 75, 66, 10] @ stamped 1 ''IDT loaded.''"
    unfolding f start_map boot_map_fits(1) start_fb q by (auto simp: c)
  have "gate_offset (load_idt_entry (phys s') (idt_offset (cpu_idt s') + of_nat (16 * 0x20))) = 0x100040"
    using gates [rule_format, OF h] by (simp only: gate_offset_create)
  then show ?thesis using run find out pages by simp
qed

section \<open>The whole start\<close>

text \<open>C1. On such a machine, with three frames more for the tables of the test page, the copied string and
  the font in frames taken and a screen of a size the glyphs fit, \<open>_start\<close> reaches its waiting loop, whatever
  interrupts arrive between its steps. By then exactly its eight lines have been transmitted, in order, each
  stamped with the timer interrupts so far, and between them what the keyboard's interrupts print; in both
  reports the counters add up to the total; the page at 0x600000000 leads to the frame at 0x80000 and shows
  the copied string, every other page is mapped as \<open>init_kernel\<close> has left it, the gates stand, of the console
  only cursor and colours have changed, and no taken byte beside the screen, the bitmap and that frame has changed.\<close>

theorem start_kernel_boots:
  assumes "ppa_initialized s = 0" and "last_hit s = 0"
    and "m = phys (init_gdt sy s)" and "bootable sy bi m seg"
    and "ds = map_descs m (mmap bi) (mmap_size bi) (mmap_desc_size bi)" and "b = load_framebuffer m (fb bi)"
    and "5 + tables_for (4096 * total_frames ds) + tables_for (unat (fbsize b + 4096)) \<le> card (start_free sy b ds seg)"
    and "keeps_showing dev 0x3FD 0x20" and "length (print_buff (tty s)) = 32"
    and "unat (ms_count (tty s)) < 2 ^ 31 * 1000" and "clock irqs 6 < 2 ^ 31 * 1000"
    and "0x80 \<notin> bitmap_frames ds seg" and "string_there sy b ds seg m" and "drawable d sy b ds seg m"
  shows "\<exists>s' u r f u' r' f' x y fg bg. start_kernel dev irqs sy bi s = Some (Inr s') \<and>
    u + r + f = of_nat (4096 * total_frames ds) \<and> u' + r' + f' = of_nat (4096 * total_frames ds) \<and>
    sent (events (tty s')) = sent (events (tty s)) @ [0x03, 0xAE] @
      stamped (unat (ms_count (tty s))) ''Serial logging enabled.'' @
      stamped (unat (ms_count (tty s))) ''GDT loaded.'' @
      irq_text (irqs 0) @ stamped (clock irqs 0) ''IDT loaded.'' @
      irq_text (irqs 1) @ stamped_text (clock irqs 1) (report_text u r f (of_nat (4096 * total_frames ds))) @
      irq_text (irqs 2) @ stamped (clock irqs 2) ''Testing memory mapping...'' @
      irq_text (irqs 3) @ stamped (clock irqs 3) print_text @
      irq_text (irqs 4) @ stamped (clock irqs 4) ''Memory mapping OK.'' @
      irq_text (irqs 5) @ stamped_text (clock irqs 5) (report_text u' r' f' (of_nat (4096 * total_frames ds))) @
      irq_text (irqs 6) \<and>
    ms_count (tty s') = of_nat (clock irqs 6) \<and> length (print_buff (tty s')) = 32 \<and>
    (\<forall>w. unat w < 2 ^ 48 \<longrightarrow> pmm_find_paddr w s' =
       (if page_of w = 0x600000000 then 0x80000
        else if page_of w < of_nat (4096 * total_frames ds) \<or>
           fbbase b \<le> page_of w \<and> page_of w < fbbase b + (fbsize b + 4096) then page_of w else 0)) \<and>
    (\<forall>i<40. phys s' (virt s' (0x600000000 + of_nat i)) = lit print_text ! i) \<and> cpu_cr3 s' = PML4 s' \<and>
    (\<forall>i h. handler_of sy i = Some h \<longrightarrow>
       load_idt_entry (phys s') (idt_offset (cpu_idt s') + of_nat (16 * i)) =
         IDT_CREATE_ENTRY h 0x08 0 IDT_INTERRUPT_GATE) \<and>
    con s' = (start_console sy b)\<lparr>dst_x := x, dst_y := y, dst_fg := fg, dst_bg := bg\<rparr> \<and>
    (\<forall>a\<in>kept_bytes sy b ds seg (start_console sy b). phys s' a = m a)"
proof -
  obtain t c2 m2 u r f u' r' f' where run: "start_kernel dev irqs sy bi s = Some (Inr (t\<lparr>phys := m2, con := c2\<rparr>))"
    and tested: "kernel_tested sy b ds seg m t"
    and sums: "u + r + f = mem_total t" "u' + r' + f' = mem_total t"
    and log: "sent (events (tty t)) = sent (events (tty s)) @ [0x03, 0xAE] @
        stamped (unat (ms_count (tty s))) ''Serial logging enabled.'' @
        stamped (unat (ms_count (tty s))) ''GDT loaded.'' @
        irq_text (irqs 0) @ stamped (clock irqs 0) ''IDT loaded.'' @
        irq_text (irqs 1) @ stamped_text (clock irqs 1) (report_text u r f (mem_total t)) @
        irq_text (irqs 2) @ stamped (clock irqs 2) ''Testing memory mapping...'' @
        irq_text (irqs 3) @ stamped (clock irqs 3) print_text @
        irq_text (irqs 4) @ stamped (clock irqs 4) ''Memory mapping OK.'' @
        irq_text (irqs 5) @ stamped_text (clock irqs 5) (report_text u' r' f' (mem_total t)) @
        irq_text (irqs 6)" "ms_count (tty t) = of_nat (clock irqs 6)"
    and paint: "paints (start_console sy b, phys t) (c2, m2)"
    and find: "\<And>w. pmm_find_paddr w (t\<lparr>phys := m2, con := c2\<rparr>) = pmm_find_paddr w t"
    and kept: "\<And>x. \<not> screen_frame b ds seg (unat x div 4096) \<Longrightarrow> m2 x = phys t x"
    and gates: "\<And>i h. handler_of sy i = Some h \<Longrightarrow>
      load_idt_entry m2 (idt_offset (cpu_idt t) + of_nat (16 * i)) = IDT_CREATE_ENTRY h 0x08 0 IDT_INTERRUPT_GATE"
    by (rule start_kernel_run [OF assms], rule that)
  define s' where "s' = t\<lparr>phys := m2, con := c2\<rparr>"
  have fields: "mem_total t = of_nat (4096 * total_frames ds)" "cpu_cr3 t = PML4 t"
    using tested unfolding kernel_tested_def by blast+
  have console: "c2 = (start_console sy b)\<lparr>dst_x := dst_x c2, dst_y := dst_y c2, dst_fg := dst_fg c2, dst_bg := dst_bg c2\<rparr>"
    using paint by (simp add: paints_def)
  have char: "phys s' (virt s' (test_page + of_nat i)) = lit print_text ! i" if "i < 40" for i
    using tested_char [OF tested that kept] by (simp add: s'_def virt_def find)
  have bytes: "phys s' a = m a" if a: "a \<in> kept_bytes sy b ds seg (start_console sy b)" for a
  proof -
    have "a \<notin> frame (start_console sy b)" using a by (simp add: kept_bytes_def)
    then have "m2 a = phys t a" using paint by (simp add: paints_def)
    then show ?thesis using tested a by (simp add: s'_def kernel_tested_def)
  qed
  show ?thesis
  proof (intro exI conjI)
    show "start_kernel dev irqs sy bi s = Some (Inr s')" using run by (simp only: s'_def)
    show "con s' = (start_console sy b)\<lparr>dst_x := dst_x c2, dst_y := dst_y c2, dst_fg := dst_fg c2, dst_bg := dst_bg c2\<rparr>"
      using console by (simp add: s'_def)
  qed (use tested sums log find gates char bytes fields in \<open>simp_all add: s'_def kernel_tested_def\<close>)
qed

text \<open>The same machine with a kernel of 16 pages from 0x1000 on: the font of one letter, the segment table and
  the string.\<close>

definition low_symbols :: symbols where
  "low_symbols = sample_symbols\<lparr>sym_kernel_start := 0x1000, sym_kernel_end := 0x11000, sym_font := 0x1000,
     sym_DEFAULT_GDT := 0x2000, sym_print_str := 0x3000\<rparr>"

definition low_mem :: mem where
  "low_mem a =
     (if unat a div 4096 = 1 then font_memory a
      else if 0x3000 \<le> unat a \<and> unat a < 0x3028 then lit print_text ! (unat a - 0x3000)
      else start_mem a)"

definition low_kernel :: kernel where
  "low_kernel = cold_kernel\<lparr>phys := low_mem\<rparr>"

lemma low_mem_high: "0x100000 \<le> unat a \<Longrightarrow> low_mem a = start_mem a"
proof -
  assume "0x100000 \<le> unat a"
  then have "256 \<le> unat a div 4096" by linarith
  then show ?thesis using \<open>0x100000 \<le> unat a\<close> by (simp add: low_mem_def)
qed

lemma low_map: "map_descs low_mem 0x400000 96 48 = map_descs boot_memory 0x400000 96 48"
  unfolding start_map [symmetric]
  by (simp add: map_descs_def boot_map_addrs load_desc_def load32_unfold load64_unfold low_mem_high)

lemma low_fb: "load_framebuffer low_mem 0x500000 = load_framebuffer start_mem 0x500000"
  by (simp add: load_framebuffer_def load32_unfold load64_unfold low_mem_high)

lemma low_gdt: "phys (init_gdt low_symbols low_kernel) = low_mem"
proof
  fix x
  have m: "phys (init_gdt sy s) = fst (ppa_memset (sym_DEFAULT_GDT sy + 64 * 6) 0 (4096 - 64 * 6) (phys s))"
    for sy and s :: kernel
    by (simp add: init_gdt_def set_gdt_def Let_def)
  have "low_mem x = 0" if "unat (x - 0x2180) < 3712"
  proof -
    define r where "r = x - 0x2180"
    have "x = 0x2180 + r" by (simp add: r_def)
    then have "unat x = 0x2180 + unat r" using that by (simp add: r_def [symmetric] unat_plus_nowrap)
    then have "unat x div 4096 = 2" "unat x < 0x3000" using that by (simp_all add: r_def [symmetric])
    then have "low_mem x = start_mem x" by (simp add: low_mem_def)
    also have "\<dots> = 0" using \<open>unat x < 0x3000\<close> by (auto simp: start_mem_def boot_memory_def)
    finally show ?thesis .
  qed
  then show "phys (init_gdt low_symbols low_kernel) x = low_mem x"
    unfolding m ppa_memset_apply by (simp add: low_kernel_def low_symbols_def)
qed

lemma low_frames: "frames_from (sym_kernel_start low_symbols) (unat (kernel_pages low_symbols)) = {1..<17}"
proof -
  have "kernel_pages low_symbols = 16" by (simp add: kernel_pages_def low_symbols_def Let_def)
  moreover have "frames_from 0x1000 16 = {1..<17}" by (subst frames_from_nowrap) simp_all
  ultimately show ?thesis by (simp add: low_symbols_def)
qed

abbreviation low_fbuf :: FrameBuffer where
  "low_fbuf \<equiv> load_framebuffer start_mem 0x500000"

abbreviation low_descs :: "EfiMemoryDescriptor list" where
  "low_descs \<equiv> map_descs boot_memory 0x400000 96 48"

lemma low_bitmap: "bitmap_frames low_descs boot_seg = {256}"
proof -
  have "bitmap_pages 512 = 1" by (simp add: bitmap_pages_def)
  then show ?thesis by (auto simp: bitmap_frames_def boot_map_fits(1) boot_seg_def)
qed

lemma low_taken: "j < 256 \<Longrightarrow> start_taken sy low_fbuf low_descs boot_seg j"
  by (simp add: start_taken_def boot_taken_def boot_map_fits(1))

lemma low_free: "240 \<le> card (start_free low_symbols low_fbuf low_descs boot_seg)"
  by (rule start_free_card) (simp add: low_frames)

lemma low_bootable: "bootable low_symbols start_info low_mem boot_seg"
  using boot_map_fits low_free
  by (simp add: bootable_def start_info_def low_map low_fb Let_def start_fb page_aligned_def tables_for_def)

lemma low_string: "string_there low_symbols low_fbuf low_descs boot_seg low_mem"
  unfolding string_there_def
proof (intro allI impI)
  fix i :: nat
  assume i: "i < 40"
  then have "unat (of_nat i :: u64) = i" by (intro unat_of_nat_small) simp
  then have a: "unat (0x3000 + of_nat i :: u64) = 0x3000 + i" using i by (simp add: unat_plus_nowrap)
  then have "unat (0x3000 + of_nat i :: u64) div 4096 = 3" using i by simp
  then show "low_mem (sym_print_str low_symbols + of_nat i) = lit print_text ! i \<and>
      (let j = unat (sym_print_str low_symbols + of_nat i) div 4096
       in start_taken low_symbols low_fbuf low_descs boot_seg j \<and> j \<notin> bitmap_frames low_descs boot_seg \<and>
          j \<noteq> 0x80 \<and> j \<noteq> 0x600000)"
    using i a low_taken [of 3] by (simp add: low_symbols_def low_mem_def low_bitmap)
qed

lemma low_console: "start_console low_symbols low_fbuf = conlib_init 0x1000 0x80000000 64 32 256"
  by (simp add: start_console_def start_fb low_symbols_def)

lemma low_screen:
  assumes "a \<in> frame (start_console low_symbols low_fbuf)"
  shows "unat a div 4096 \<in> {0x80000, 0x80001}"
proof -
  have c: "dst_ptr (start_console low_symbols low_fbuf) = 0x80000000" "dst_w (start_console low_symbols low_fbuf) = 64"
    "dst_h (start_console low_symbols low_fbuf) = 32" "dst_p (start_console low_symbols low_fbuf) = 256"
    by (simp_all add: low_console conlib_init_def)
  have "0x80000000 \<le> uint a" "uint a < 0x80002000"
    using frame_between [OF assms] by (simp_all add: c)
  moreover have "uint a = int (unat a)" by (rule uint_nat)
  ultimately have "0x80000000 \<le> unat a" "unat a < 0x80002000" by linarith+
  then have "0x80000 \<le> unat a div 4096" "unat a div 4096 < 0x80002" by linarith+
  then show ?thesis by auto
qed

lemma low_font: "font_in 16 (kept_bytes low_symbols low_fbuf low_descs boot_seg (start_console low_symbols low_fbuf))
    (start_console low_symbols low_fbuf) low_mem"
proof -
  let ?c = "start_console low_symbols low_fbuf"
  have src: "ssfn_src ?c = 0x1000" by (simp add: low_console conlib_init_def)
  have inside: "x \<in> kept_bytes low_symbols low_fbuf low_descs boot_seg ?c" if "unat x div 4096 = 1" for x
    using that low_screen [of x] low_taken [of 1] by (auto simp: kept_bytes_def low_bitmap)
  have gl: "glyph_of ?c m u = (if u = 65 then Some 0x1022 else None)" "load_font m 0x1000 = load_font font_memory 0x1000"
    if "\<And>a. unat a div 4096 = 1 \<Longrightarrow> m a = font_memory a" for m u
    using font_memory_glyph(1) [of m u] font_memory_glyph(2) [of m] that by (simp_all add: glyph_of_def src)
  have font: "low_mem a = font_memory a" if "unat a div 4096 = 1" for a using that by (simp add: low_mem_def)
  have height: "height (load_font font_memory 0x1000) = 16" by (simp add: load_font_def) (simp add: font_memory_def)
  have byte: "low_mem 0x1022 = 0" "low_mem 0x1027 = 0" by (simp_all add: font) (simp_all add: font_memory_def)
  have low: "glyph_of ?c low_mem u = (if u = 65 then Some 0x1022 else None)"
    "load_font low_mem 0x1000 = load_font font_memory 0x1000" for u
    by (rule gl, erule font)+
  show ?thesis
    unfolding font_in_def src low(2)
  proof (intro conjI allI impI)
    fix m :: mem and u :: u32
    assume same: "\<forall>x\<in>kept_bytes low_symbols low_fbuf low_descs boot_seg ?c. m x = low_mem x"
    have page: "m a = font_memory a" if "unat a div 4096 = 1" for a
      using same inside [OF that] font [OF that] by simp
    show "load_font m 0x1000 = load_font font_memory 0x1000" by (rule gl(2), erule page)
    have "glyph_of ?c m u = (if u = 65 then Some 0x1022 else None)" by (rule gl(1), erule page)
    then show "glyph_of ?c m u = glyph_of ?c low_mem u" by (simp only: low(1))
  next
    fix u chr
    assume "glyph_of ?c low_mem u = Some chr"
    then have chr: "chr = 0x1022" by (simp add: low(1) split: if_splits)
    show "chr \<in> kept_bytes low_symbols low_fbuf low_descs boot_seg ?c"
      "chr + 5 \<in> kept_bytes low_symbols low_fbuf low_descs boot_seg ?c"
      by (rule inside, simp add: chr)+
    show "low_mem chr AND 0x40 = 0" "uint (low_mem (chr + 5)) + uint (height (load_font font_memory 0x1000)) \<le> 16"
      by (simp_all add: chr byte height)
  qed (simp add: height)
qed

lemma low_drawable: "drawable 16 low_symbols low_fbuf low_descs boot_seg low_mem"
proof -
  let ?c = "start_console low_symbols low_fbuf"
  have fields: "ssfn_src ?c = 0x1000" "dst_w ?c = 64" "dst_h ?c = 32" "dst_p ?c = 256"
    by (simp_all add: low_console conlib_init_def)
  have "load_font low_mem 0x1000 = load_font font_memory 0x1000"
    by (rule font_memory_glyph(2)) (simp add: low_mem_def)
  moreover have "width (load_font font_memory 0x1000) = 8" by (simp add: load_font_def) (simp add: font_memory_def)
  moreover have "frames_from 0x80000000 3 = {0x80000..<0x80003}" by (subst frames_from_nowrap) simp_all
  then have "screen_frame low_fbuf low_descs boot_seg (unat a div 4096)" if "a \<in> frame ?c" for a
    using low_screen [OF that] by (auto simp: screen_frame_def start_fb low_bitmap)
  ultimately show ?thesis using low_font by (simp add: drawable_def Let_def fields)
qed

text \<open>Two timer interrupts and a key between them, before the first report.\<close>

definition busy :: "nat \<Rightarrow> irq list" where
  "busy k = (if k = 1 then [Timer, Keyboard, Timer] else [])"

lemma busy:
  "clock busy 0 = 0" "clock busy 1 = 2" "clock busy 2 = 2" "clock busy 3 = 2" "clock busy 4 = 2" "clock busy 5 = 2"
  "clock busy 6 = 2" "irq_text (busy 0) = []" "irq_text (busy 1) = [32, 75, 66, 10]"
  by (simp_all add: eval_nat_numeral busy_def ticks_def irq_text_def)

theorem start_kernel_boots_witness:
  "\<exists>s' ps. start_kernel slow busy low_symbols start_info low_kernel = Some (Inr s') \<and>
    pmm_find_paddr 0x600000004 s' = 0x80000 \<and> pmm_find_paddr 0x1FFFF8 s' = 0x1FF000 \<and>
    pmm_find_paddr 0x200000 s' = 0 \<and> phys s' (virt s' 0x600000004) = 84 \<and> phys s' 0x1040 = 0x80 \<and>
    sent (events (tty s')) = 0x03 # 0xAE # stamped 0 ''Serial logging enabled.'' @ stamped 0 ''GDT loaded.'' @
      stamped 0 ''IDT loaded.'' @ [32, 75, 66, 10] @ map word_of_int (time_stamp 2) @ ps \<and> ms_count (tty s') = 2"
proof -
  have c: "ppa_initialized low_kernel = 0" "last_hit low_kernel = 0" "length (print_buff (tty low_kernel)) = 32"
    "unat (ms_count (tty low_kernel)) < 2 ^ 31 * 1000" "sent (events (tty low_kernel)) = []"
    "unat (ms_count (tty low_kernel)) = 0"
    by (simp_all add: low_kernel_def cold_kernel_def small_kernel_def sent_def)
  have ds: "low_descs = map_descs low_mem (mmap start_info) (mmap_size start_info) (mmap_desc_size start_info)"
    and b: "low_fbuf = load_framebuffer low_mem (fb start_info)"
    by (simp_all add: start_info_def low_map low_fb)
  have "5 + tables_for (4096 * total_frames low_descs) + tables_for (unat (fbsize low_fbuf + 4096)) \<le>
      card (start_free low_symbols low_fbuf low_descs boot_seg)"
    using low_free by (simp add: boot_map_fits(1) start_fb tables_for_def)
  from start_kernel_boots [OF c(1,2) low_gdt [symmetric] low_bootable ds b this slow_ready c(3,4) _ _ low_string
      low_drawable, of busy]
  obtain s' ps where run: "start_kernel slow busy low_symbols start_info low_kernel = Some (Inr s')"
    and out: "sent (events (tty s')) = [] @ [0x03, 0xAE] @ stamped 0 ''Serial logging enabled.'' @
      stamped 0 ''GDT loaded.'' @ [] @ stamped 0 ''IDT loaded.'' @ [32, 75, 66, 10] @
      (map word_of_int (time_stamp 2) @ ps)"
    and clock: "ms_count (tty s') = of_nat 2"
    and find: "\<forall>w. unat w < 2 ^ 48 \<longrightarrow> pmm_find_paddr w s' = (if page_of w = 0x600000000 then 0x80000
      else if page_of w < 0x200000 \<or> 0x80000000 \<le> page_of w \<and> page_of w < 0x80003000 then page_of w else 0)"
    and char: "\<forall>i<40. phys s' (virt s' (0x600000000 + of_nat i)) = lit print_text ! i"
    and kept: "\<forall>a\<in>kept_bytes low_symbols low_fbuf low_descs boot_seg (start_console low_symbols low_fbuf). phys s' a = low_mem a"
    unfolding boot_map_fits(1) c(5,6) low_bitmap busy
    by (auto simp: start_fb stamped_text_def)
  have pages: "page_of 0x1FFFF8 = 0x1FF000" "page_of 0x600000004 = 0x600000000" "page_of 0x200000 = 0x200000"
    by (simp_all add: page_of_def)
  have "phys s' (virt s' 0x600000004) = 84" using char [rule_format, of 4] by (simp add: lit_def print_text_def)
  moreover have "0x1040 \<in> kept_bytes low_symbols low_fbuf low_descs boot_seg (start_console low_symbols low_fbuf)"
    using low_screen [of "0x1040"] low_taken [of 1] by (auto simp: kept_bytes_def low_bitmap)
  then have "phys s' 0x1040 = 0x80" using kept by (auto simp: low_mem_def font_memory_def)
  ultimately show ?thesis using run find out clock pages by (intro exI [of _ s'] exI [of _ ps]) simp
qed

section \<open>At work\<close>

text \<open>C6. However interrupts, the prompt and the echo interleave, \<open>ms_count\<close> has advanced by the number of
  timer interrupts and one end of interrupt has been sent for each interrupt and for nothing else. The
  prompt has been printed once if the kernel echoes, when the count was 3000 or more, with no echo before
  it, and not at all if it waits. On a transmitter that keeps becoming ready every interrupt can be
  handled, and from a count of 3000 on the prompt can be printed.\<close>

theorem kernel_running:
  assumes "kernel_run dev (Waiting, t0) acts (ph, t)"
  shows "ms_count t = ms_count t0 + of_nat (count_list acts (Irq Timer)) \<and>
    eois t = eois t0 + count_list acts (Irq Timer) + count_list acts (Irq Keyboard) \<and>
    (if ph = Echoing then prompted (ms_count t0) acts else Prompt \<notin> set acts \<and> Echo \<notin> set acts) \<and>
    (keeps_showing dev 0x3FD 0x20 \<longrightarrow> (\<forall>q. \<exists>t'. kernel_step dev (Irq q) (ph, t) (ph, t')) \<and>
      (3000 \<le> ms_count t \<and> unat (ms_count t) < 2 ^ 31 * 1000 \<and> length (print_buff t) = 32 \<and> ph = Waiting \<longrightarrow>
        (\<exists>t'. kernel_step dev Prompt (Waiting, t) (Echoing, t'))))"
proof -
  have "\<exists>t'. kernel_step dev Prompt (Waiting, t) (Echoing, t')"
    if late: "3000 \<le> ms_count t" and small: "unat (ms_count t) < 2 ^ 31 * 1000"
      and buff: "length (print_buff t) = 32" and dev: "keeps_showing dev 0x3FD 0x20"
  proof -
    obtain t' where "serial_printf dev (line ''Now try typing something.'') [] t = Some (Inr t')"
      by (rule serial_line [OF dev _ _ buff small, of "''Now try typing something.''"]) (simp_all add: that)
    with late have "kernel_step dev Prompt (Waiting, t) (Echoing, t')"
      by (intro kernel_step.prompt) (simp_all add: not_less)
    then show ?thesis ..
  qed
  moreover have "\<exists>t'. kernel_step dev (Irq q) (ph, t) (ph, t')" if "keeps_showing dev 0x3FD 0x20" for q
    using handle_irq_runs [OF that, of q t] kernel_step.interrupt by blast
  ultimately show ?thesis using kernel_run_counts [OF assms] by (simp add: interrupts_def)
qed

text \<open>A tick on a clock at 2999, and a key.\<close>

theorem kernel_running_witness:
  "\<exists>t. kernel_run slow (Waiting, \<lparr>events = [], ms_count = 2999, print_buff = replicate 32 0\<rparr>)
      [Irq Timer, Irq Keyboard] (Waiting, t) \<and> ms_count t = 3000 \<and> eois t = 2 \<and>
    (\<exists>t'. kernel_step slow (Irq Timer) (Waiting, t) (Waiting, t'))"
proof -
  let ?t = "\<lparr>events = [], ms_count = 2999, print_buff = replicate 32 0\<rparr> :: serial"
  obtain t1 t2 where t: "handle_irq slow Timer ?t = Some (Inr t1)" "handle_irq slow Keyboard t1 = Some (Inr t2)"
    using handle_irq_runs [OF slow_ready] by metis
  from kernel_run.step [OF kernel_run.start kernel_step.interrupt [OF t(1)]]
  have "kernel_run slow (Waiting, ?t) [Irq Timer] (Waiting, t1)" by simp
  from kernel_run.step [OF this kernel_step.interrupt [OF t(2)]]
  have run: "kernel_run slow (Waiting, ?t) [Irq Timer, Irq Keyboard] (Waiting, t2)" by simp
  show ?thesis
    using kernel_running [OF run] run slow_ready by (intro exI [of _ t2]) (simp add: eois_def)
qed

end
