(* ===== verification/Bootloader.thy ===== *)
theory Bootloader
  imports Handover
begin

text \<open>
  The boot loader, \<open>bootloader.c\<close>. The firmware, the UEFI library and the ELF structures are not part of
  the program: they are a record of functions over an unknown state, the first argument of each
  definition. The loader's own state is that of the firmware, the memory it writes, and the lines it
  prints, each recorded by its format (without the end of the line).
\<close>

section \<open>Status codes\<close>

definition EFI_SUCCESS :: u64 where "EFI_SUCCESS = 0"
definition EFI_LOAD_ERROR :: u64 where "EFI_LOAD_ERROR = 0x8000000000000001"
definition EFI_BUFFER_TOO_SMALL :: u64 where "EFI_BUFFER_TOO_SMALL = 0x8000000000000005"
definition EFI_NOT_FOUND :: u64 where "EFI_NOT_FOUND = 0x800000000000000E"
definition EFI_NOT_STARTED :: u64 where "EFI_NOT_STARTED = 0x8000000000000013"
definition EFI_ABORTED :: u64 where "EFI_ABORTED = 0x8000000000000015"

definition EFI_ERROR :: "u64 \<Rightarrow> bool" where
  "EFI_ERROR st = bit st 63"

section \<open>What the loader calls\<close>

record gop_mode =
  gm_mode :: u32
  gm_base :: u64
  gm_size :: u64
  gm_vertical :: u32
  gm_horizontal :: u32
  gm_line :: u32

record Elf64_Ehdr =
  e_ident :: "u8 list"
  e_type :: u16
  e_machine :: u16
  e_version :: u32
  e_entry :: u64
  e_phoff :: u64
  e_phentsize :: u16
  e_phnum :: u16

record Elf64_Phdr =
  p_type :: u32
  p_offset :: u64
  p_paddr :: u64
  p_filesz :: u64
  p_memsz :: u64

record 'u services =
  svc_init_lib :: "'u \<Rightarrow> 'u"
  svc_clear_screen :: "'u \<Rightarrow> 'u"
  svc_smbios3 :: "'u \<Rightarrow> (u64 \<times> u64) option"       \<comment> \<open>address and length of the table\<close>
  svc_smbios :: "'u \<Rightarrow> (u64 \<times> u64) option"
  svc_smbios_type :: "'u \<Rightarrow> u64 \<Rightarrow> u8"
  svc_smbios_next :: "'u \<Rightarrow> u64 \<Rightarrow> u64"
  svc_smbios_line :: "'u \<Rightarrow> u64 \<Rightarrow> string"        \<comment> \<open>the strings printed of a structure\<close>
  svc_variable :: "'u \<Rightarrow> string \<Rightarrow> u8 option"
  svc_locate_gop :: "'u \<Rightarrow> u64 \<times> 'u"
  svc_gop_mode :: "'u \<Rightarrow> gop_mode option"
  svc_query_mode :: "u32 \<Rightarrow> 'u \<Rightarrow> u64 \<times> 'u"
  svc_set_mode :: "u32 \<Rightarrow> 'u \<Rightarrow> u64 \<times> 'u"
  svc_alloc_pool :: "u64 \<Rightarrow> 'u \<Rightarrow> u64 \<times> 'u"
  svc_memory_map :: "u64 \<Rightarrow> 'u \<Rightarrow> (u64 \<times> u64 \<times> u64 \<times> u64 \<times> u8 list) \<times> 'u"
    \<comment> \<open>status, size, key, descriptor size, and the map\<close>
  svc_alloc_pages :: "u64 \<Rightarrow> u64 \<Rightarrow> 'u \<Rightarrow> 'u"
  svc_loaded_image :: "u64 \<Rightarrow> 'u \<Rightarrow> u64 \<times> 'u"           \<comment> \<open>the device the image was loaded from\<close>
  svc_open_root :: "u64 \<Rightarrow> 'u \<Rightarrow> u64 \<times> 'u"
  svc_open :: "u64 \<Rightarrow> string \<Rightarrow> 'u \<Rightarrow> 'u"
  svc_file_info :: "u64 \<Rightarrow> 'u \<Rightarrow> (u64 \<times> u64) \<times> 'u"    \<comment> \<open>the structure and the size it holds\<close>
  svc_free_pool :: "u64 \<Rightarrow> 'u \<Rightarrow> 'u"
  svc_seek :: "u64 \<Rightarrow> 'u \<Rightarrow> 'u"
  svc_read :: "u64 \<Rightarrow> 'u \<Rightarrow> u8 list \<times> 'u"
  svc_exit :: "u64 \<Rightarrow> 'u \<Rightarrow> u64 \<times> 'u"
  elf_ehdr :: "u8 list \<Rightarrow> Elf64_Ehdr"
  elf_phdr :: "mem \<Rightarrow> u64 \<Rightarrow> nat \<Rightarrow> Elf64_Phdr"     \<comment> \<open>entry of the table at an address\<close>

record 'u boot =
  fw :: 'u
  memory :: mem
  log :: "string list"

definition Print :: "string \<Rightarrow> 'u boot \<Rightarrow> 'u boot" where
  "Print msg b = b\<lparr>log := log b @ [msg]\<rparr>"

fun write_bytes :: "u64 \<Rightarrow> u8 list \<Rightarrow> mem \<Rightarrow> mem" where
  "write_bytes a [] m = m"
| "write_bytes a (x # xs) m = write_bytes (a + 1) xs (m(a := x))"

section \<open>System information\<close>

text \<open>
  The walk over the SMBIOS structures; \<open>found\<close> counts those of type 0 and 1. It need not end when the
  structures do not.
\<close>

partial_function (option) smbios_loop ::
    "'u services \<Rightarrow> u64 \<Rightarrow> u64 \<Rightarrow> u64 \<Rightarrow> u8 \<Rightarrow> 'u boot \<Rightarrow> (u64 \<times> 'u boot) option" where
  "smbios_loop sv maximum hdr processed found b =
     (let ty = svc_smbios_type sv (fw b) hdr
      in if ty \<noteq> 0x7F \<and> found < 2
         then let shown = (ty = 0 \<or> ty = 1);
                  b = (if shown then Print (svc_smbios_line sv (fw b) hdr) b else b);
                  found = (if shown then found + 1 else found);
                  raw = svc_smbios_next sv (fw b) hdr;
                  processed = processed + (raw - hdr)
              in if processed > maximum
                 then Some (EFI_ABORTED, Print ''%EAborting system report due to noncompliant SMBIOS%N'' b)
                 else smbios_loop sv maximum raw processed found b
         else Some (EFI_SUCCESS, b))"

text \<open>\<open>SecureBootStatus\<close> is a \<open>UINT8\<close>: multiplied by -1 it is 255, not negative.\<close>

definition secure_boot_status :: "u8 option \<Rightarrow> u8 option \<Rightarrow> u8" where
  "secure_boot_status secure setup =
     (let status = (case secure of Some v \<Rightarrow> if v \<noteq> 0 then 1 else 0 | None \<Rightarrow> 0)
      in case setup of Some v \<Rightarrow> if v \<noteq> 0 then status * (-1) else status | None \<Rightarrow> status)"

definition secure_boot_line :: "u8 \<Rightarrow> string" where
  "secure_boot_line status =
     (if uint status > 0 then ''Secure Boot status: %HEnabled%N''
      else if uint status < 0 then ''Secure Boot status: %ESetup%N''
      else ''Secure Boot status: Disabled'')"

definition PrintSystemInfo :: "'u services \<Rightarrow> 'u boot \<Rightarrow> (u64 \<times> 'u boot) option" where
  "PrintSystemInfo sv b =
     (let b = Print ''UEFI v%d.%d (%s, 0x%08X)'' b
      in case (case svc_smbios3 sv (fw b) of Some t \<Rightarrow> Some t | None \<Rightarrow> svc_smbios sv (fw b)) of
           None \<Rightarrow> Some (EFI_NOT_FOUND, b)
         | Some (addr, maximum) \<Rightarrow>
             Option.bind (smbios_loop sv maximum addr 0 0 b) (\<lambda>(st, b).
               if st = EFI_ABORTED then Some (st, b)
               else Some (EFI_SUCCESS, Print (secure_boot_line (secure_boot_status
                      (svc_variable sv (fw b) ''SecureBoot'') (svc_variable sv (fw b) ''SetupMode''))) b)))"

section \<open>The frame buffer\<close>

definition GetGop :: "'u services \<Rightarrow> 'u boot \<Rightarrow> bool \<times> 'u boot" where
  "GetGop sv b = (let (st, u) = svc_locate_gop sv (fw b) in (\<not> EFI_ERROR st, b\<lparr>fw := u\<rparr>))"

definition InitializeGop :: "'u services \<Rightarrow> u64 \<Rightarrow> 'u boot \<Rightarrow> (u64 \<times> 'u boot) res" where
  "InitializeGop sv frameBuffer b =
     (let (gop, b) = GetGop sv b
      in if \<not> gop then Inr (EFI_NOT_FOUND, b)
         else
           let number = (case svc_gop_mode sv (fw b) of None \<Rightarrow> 0 | Some g \<Rightarrow> gm_mode g);
               (st, u) = svc_query_mode sv number (fw b);
               (st, u) = (if st = EFI_NOT_STARTED then svc_set_mode sv 0 u else (st, u));
               b = b\<lparr>fw := u\<rparr>
           in if EFI_ERROR st then Inr (st, b)
              else (case svc_gop_mode sv u of
                      None \<Rightarrow> Inl OutOfBounds
                    | Some g \<Rightarrow> Inr (EFI_SUCCESS, b\<lparr>memory := store_framebuffer frameBuffer
                        \<lparr>fbbase = gm_base g, fbsize = gm_size g, fb_width = gm_horizontal g,
                         fb_height = gm_vertical g, ppsl = gm_line g\<rparr> (memory b)\<rparr>)))"

section \<open>The memory map\<close>

text \<open>The buffer, the size of the map, its key and the size of a descriptor; \<open>None\<close> for \<open>NULL\<close>.\<close>

partial_function (option) memory_map_loop ::
    "'u services \<Rightarrow> u64 \<Rightarrow> 'u boot \<Rightarrow> ((u64 \<times> u64 \<times> u64 \<times> u64) option \<times> 'u boot) option" where
  "memory_map_loop sv sz b =
     (let (buf, u) = svc_alloc_pool sv sz (fw b);
          ((st, sz, key, dsize, bytes), u) = svc_memory_map sv sz u;
          b = b\<lparr>fw := u, memory := if EFI_ERROR st then memory b else write_bytes buf bytes (memory b)\<rparr>
      in if EFI_ERROR st \<and> st \<noteq> EFI_BUFFER_TOO_SMALL then Some (None, b)
         else if st = EFI_BUFFER_TOO_SMALL then memory_map_loop sv sz b
         else Some (Some (buf, sz, key, dsize), b))"

definition GetMemoryMap :: "'u services \<Rightarrow> 'u boot \<Rightarrow> ((u64 \<times> u64 \<times> u64 \<times> u64) option \<times> 'u boot) option" where
  "GetMemoryMap sv b = memory_map_loop sv 40 b"

section \<open>The kernel file\<close>

definition KERNEL_FILENAME :: string where "KERNEL_FILENAME = ''kernel.elf''"

definition GetVolume :: "'u services \<Rightarrow> u64 \<Rightarrow> 'u \<Rightarrow> u64 \<times> 'u" where
  "GetVolume sv img u = (let (device, u) = svc_loaded_image sv img u in svc_open_root sv device u)"

definition GetFileSize :: "'u services \<Rightarrow> u64 \<Rightarrow> 'u \<Rightarrow> u64 \<times> 'u" where
  "GetFileSize sv handle u =
     (let ((info, file_size), u) = svc_file_info sv handle u in (file_size, svc_free_pool sv info u))"

definition load_segment :: "'u services \<Rightarrow> u64 \<Rightarrow> nat \<Rightarrow> 'u boot \<Rightarrow> 'u boot" where
  "load_segment sv headers i b =
     (let ph = elf_phdr sv (memory b) headers i
      in if p_type ph = 1
      then let pages = (p_memsz ph + 0x1000 - 1) div 0x1000;
               u = svc_alloc_pages sv pages (p_paddr ph) (fw b);
               u = svc_seek sv (p_offset ph) u;
               (bytes, u) = svc_read sv (p_filesz ph) u
           in b\<lparr>fw := u, memory := write_bytes (p_paddr ph) bytes (memory b)\<rparr>
      else b)"

definition elf_accepted :: "Elf64_Ehdr \<Rightarrow> bool" where
  "elf_accepted h \<longleftrightarrow> take 4 (e_ident h) = [0x7F, 69, 76, 70] \<and> e_ident h ! 4 = 2 \<and> e_ident h ! 5 = 1 \<and>
     e_type h = 2 \<and> e_machine h = 62 \<and> e_version h = 1"

text \<open>The entry point, or the status; the product of the header's sizes is computed as \<open>int\<close>.\<close>

definition GetKernelEntry :: "'u services \<Rightarrow> u64 \<Rightarrow> 'u boot \<Rightarrow> ((u64 + u64) \<times> 'u boot) res" where
  "GetKernelEntry sv img b =
     (let (volume, u) = GetVolume sv img (fw b);
          u = svc_open sv volume KERNEL_FILENAME u;
          (bytes, u) = svc_read sv 64 u;
          h = elf_ehdr sv bytes
      in if \<not> elf_accepted h then Inr (Inl EFI_LOAD_ERROR, b\<lparr>fw := u\<rparr>)
         else rbind (c_int (uint (e_phnum h) * uint (e_phentsize h))) (\<lambda>load_size.
           let (headers, u) = svc_alloc_pool sv (word_of_int load_size) u;
               u = svc_seek sv (e_phoff h) u;
               (bytes, u) = svc_read sv (word_of_int load_size) u;
               b = b\<lparr>fw := u, memory := write_bytes headers bytes (memory b)\<rparr>
           in Inr (Inr (e_entry h),
                fold (load_segment sv headers) [0..<unat (e_phnum h)] b)))"

section \<open>The loader\<close>

text \<open>It ends in a loop, or in the kernel, with the status \<open>ExitBootServices\<close> returned.\<close>

datatype boot_end = Stopped | Entered u64 BootInfo u64

definition efi_main :: "'u services \<Rightarrow> u64 \<Rightarrow> u64 \<Rightarrow> 'u boot \<Rightarrow> (boot_end \<times> 'u boot) run" where
  "efi_main sv img frameBuffer b =
     (let b = b\<lparr>fw := svc_clear_screen sv (svc_init_lib sv (fw b))\<rparr> in
     obind (map_option Inr (PrintSystemInfo sv b)) (\<lambda>(_, b).
     obind (Some (InitializeGop sv frameBuffer b)) (\<lambda>(st, b).
       if EFI_ERROR st then Some (Inr (Stopped, Print ''Unable to initialize GOP.'' b))
       else
         let b = Print ''Framebuffer address 0x%08x, SIZE=%d, %dx%d PPSL=%d'' b
         in obind (map_option Inr (GetMemoryMap sv b)) (\<lambda>(mm, b).
              case mm of
                None \<Rightarrow> Some (Inr (Stopped, Print ''Unable to load memory map.'' b))
              | Some (buf, sz, key, dsize) \<Rightarrow>
                  if buf = 0 then Some (Inr (Stopped, Print ''Unable to load memory map.'' b))
                  else
                    let b = Print ''EFI MEMORY MAP LOADED, GOING TO KERNEL...'' b
                    in obind (Some (GetKernelEntry sv img b)) (\<lambda>(r, b).
                         case r of
                           Inl st \<Rightarrow> Some (Inr (Stopped, Print ''Unable to find kernel entry.'' b))
                         | Inr entry \<Rightarrow>
                             let (xst, u) = svc_exit sv key (fw b)
                             in Some (Inr (Entered entry
                                  \<lparr>fb = frameBuffer, mmap = buf, mmap_size = sz, mmap_desc_size = dsize\<rparr> xst,
                                  b\<lparr>fw := u\<rparr>)))))))"

end
