(* ===== verification/BootloaderProperties.thy ===== *)
theory BootloaderProperties
  imports Bootloader
begin

text \<open>
  What the boot loader does on firmware that keeps to the UEFI specification, each law it needs a
  predicate on the record of services: how often the memory map is asked for, what of the kernel file is
  in memory when the kernel is entered, and which key \<open>ExitBootServices\<close> is given.
\<close>

section \<open>Byte strings in memory\<close>

lemma write_bytes_apply:
  "length xs < 2 ^ 64 \<Longrightarrow>
     write_bytes a xs m c = (if unat (c - a) < length xs then xs ! unat (c - a) else m c)"
proof (induction xs arbitrary: a m)
  case (Cons x xs)
  show ?case
  proof (cases "c = a")
    case True
    have "unat (- 1 :: u64) \<ge> length xs" using Cons.prems by (simp add: unat_minus_one_u64)
    with True show ?thesis using Cons by simp
  next
    case False
    then have "unat (c - a) = Suc (unat (c - (a + 1)))"
      by (rule unat_minus_Suc)
    with False show ?thesis using Cons by simp
  qed
qed simp

section \<open>The memory map\<close>

text \<open>
  The call for the memory map fails for want of room only when the map is larger than the buffer, and
  then tells how large it is; no map is larger than \<open>lim\<close>.
\<close>

definition bounded_map :: "'u services \<Rightarrow> u64 \<Rightarrow> bool" where
  "bounded_map sv lim \<longleftrightarrow>
     (\<forall>sz u sz' key dsize bytes u'.
        svc_memory_map sv sz u = ((EFI_BUFFER_TOO_SMALL, sz', key, dsize, bytes), u') \<longrightarrow>
        sz < sz' \<and> sz' \<le> lim)"

text \<open>What a loop that returns has done since the state \<open>b\<close>: the successful call was the last one.\<close>

definition map_fetched ::
    "'u services \<Rightarrow> 'u boot \<Rightarrow> (u64 \<times> u64 \<times> u64 \<times> u64) option \<Rightarrow> 'u boot \<Rightarrow> bool" where
  "map_fetched sv b mm b' \<longleftrightarrow> log b' = log b \<and>
     (case mm of None \<Rightarrow> memory b' = memory b
      | Some (buf, sz, key, dsize) \<Rightarrow>
          (\<exists>n v u st bytes. svc_alloc_pool sv n v = (buf, u) \<and> \<not> EFI_ERROR st \<and>
             svc_memory_map sv n u = ((st, sz, key, dsize, bytes), fw b') \<and>
             memory b' = write_bytes buf bytes (memory b)))"

lemma map_fetchedI:
  assumes "svc_alloc_pool sv n v = (buf, u)" and "svc_memory_map sv n u = ((st, sz, key, dsize, bytes), fw b')"
    and "\<not> EFI_ERROR st" and "memory b' = write_bytes buf bytes (memory b)" and "log b' = log b"
  shows "map_fetched sv b (Some (buf, sz, key, dsize)) b'"
  unfolding map_fetched_def prod.case option.case using assms by blast

lemma map_fetched_step:
  "memory b1 = memory b \<Longrightarrow> log b1 = log b \<Longrightarrow> map_fetched sv b1 mm b' \<Longrightarrow> map_fetched sv b mm b'"
  by (cases mm) (simp_all add: map_fetched_def split_def)

lemma too_small_error: "EFI_ERROR EFI_BUFFER_TOO_SMALL"
  by (simp add: EFI_ERROR_def EFI_BUFFER_TOO_SMALL_def)

text \<open>One round of the loop.\<close>

lemma memory_map_round:
  obtains b1 sz1 where "memory_map_loop sv sz b = memory_map_loop sv sz1 b1"
      "memory b1 = memory b" "log b1 = log b"
      "\<exists>u key dsize bytes u'. svc_memory_map sv sz u = ((EFI_BUFFER_TOO_SMALL, sz1, key, dsize, bytes), u')"
  | mm b' where "memory_map_loop sv sz b = Some (mm, b')" "map_fetched sv b mm b'"
proof -
  obtain buf u where a: "svc_alloc_pool sv sz (fw b) = (buf, u)" by fastforce
  obtain st sz1 key dsize bytes u1 where g: "svc_memory_map sv sz u = ((st, sz1, key, dsize, bytes), u1)"
    by (metis prod.exhaust)
  define b1 where "b1 = b\<lparr>fw := u1, memory := if EFI_ERROR st then memory b else write_bytes buf bytes (memory b)\<rparr>"
  have step: "memory_map_loop sv sz b =
      (if EFI_ERROR st \<and> st \<noteq> EFI_BUFFER_TOO_SMALL then Some (None, b1)
       else if st = EFI_BUFFER_TOO_SMALL then memory_map_loop sv sz1 b1
       else Some (Some (buf, sz1, key, dsize), b1))"
    by (subst memory_map_loop.simps) (simp add: a g b1_def)
  show ?thesis
  proof (cases "st = EFI_BUFFER_TOO_SMALL")
    case True
    then have "memory_map_loop sv sz b = memory_map_loop sv sz1 b1" "memory b1 = memory b" "log b1 = log b"
      using step by (simp_all add: b1_def too_small_error)
    then show ?thesis using g True that(1) by blast
  next
    case False
    show ?thesis
    proof (cases "EFI_ERROR st")
      case True
      with False step show ?thesis
        by (intro that(2) [of None b1]) (simp_all add: map_fetched_def b1_def)
    next
      case ok: False
      have "map_fetched sv b (Some (buf, sz1, key, dsize)) b1"
        using a g ok by (intro map_fetchedI [where u = u and st = st]) (simp_all add: b1_def)
      with False ok step show ?thesis by (intro that(2) [of "Some (buf, sz1, key, dsize)" b1]) simp_all
    qed
  qed
qed

lemma memory_map_loop_returns:
  assumes "bounded_map sv lim"
  shows "\<exists>mm b'. memory_map_loop sv sz b = Some (mm, b') \<and> map_fetched sv b mm b'"
proof (induction "unat lim - unat sz" arbitrary: sz b rule: less_induct)
  case less
  show ?case
  proof (rule memory_map_round [of sv sz b])
    fix b1 sz1
    assume eq: "memory_map_loop sv sz b = memory_map_loop sv sz1 b1"
      and kept: "memory b1 = memory b" "log b1 = log b"
      and call: "\<exists>u key dsize bytes u'.
        svc_memory_map sv sz u = ((EFI_BUFFER_TOO_SMALL, sz1, key, dsize, bytes), u')"
    have "sz < sz1" "sz1 \<le> lim" using assms call unfolding bounded_map_def by blast+
    then have "unat lim - unat sz1 < unat lim - unat sz" by (simp add: word_less_nat_alt word_le_nat_alt)
    from less [OF this, of b1] kept eq show ?thesis by (metis map_fetched_step)
  qed blast
qed

lemma memory_map_loop_result:
  assumes "memory_map_loop sv sz b = Some r"
  shows "map_fetched sv b (fst r) (snd r)"
proof (rule memory_map_loop.raw_induct [where P = "\<lambda>sv sz b r. map_fetched sv b (fst r) (snd r)", OF _ assms])
  fix loop :: "'a services \<Rightarrow> u64 \<Rightarrow> 'a boot \<Rightarrow> ((u64 \<times> u64 \<times> u64 \<times> u64) option \<times> 'a boot) option"
    and sv sz b r
  assume IH: "\<And>sv sz b r. loop sv sz b = Some r \<Longrightarrow> map_fetched sv b (fst r) (snd r)"
    and run: "(let (buf, u) = svc_alloc_pool sv sz (fw b);
          ((st, sz, key, dsize, bytes), u) = svc_memory_map sv sz u;
          b = b\<lparr>fw := u, memory := if EFI_ERROR st then memory b else write_bytes buf bytes (memory b)\<rparr>
      in if EFI_ERROR st \<and> st \<noteq> EFI_BUFFER_TOO_SMALL then Some (None, b)
         else if st = EFI_BUFFER_TOO_SMALL then loop sv sz b
         else Some (Some (buf, sz, key, dsize), b)) = Some r"
  obtain buf u where a: "svc_alloc_pool sv sz (fw b) = (buf, u)" by fastforce
  obtain st sz1 key dsize bytes u1 where g: "svc_memory_map sv sz u = ((st, sz1, key, dsize, bytes), u1)"
    by (metis prod.exhaust)
  show "map_fetched sv b (fst r) (snd r)"
  proof (cases "st = EFI_BUFFER_TOO_SMALL")
    case True
    then have "loop sv sz1 (b\<lparr>fw := u1\<rparr>) = Some r" using run by (simp add: a g too_small_error)
    from IH [OF this] show ?thesis by (rule map_fetched_step [rotated 2]) simp_all
  next
    case False
    then show ?thesis using run a g
      by (auto simp: map_fetched_def [where mm = None] split: if_splits intro!: map_fetchedI)
  qed
qed

section \<open>The kernel's segments\<close>

text \<open>
  A file that is read from its position on, fewer bytes at its end; the position is 0 when it is opened
  and where it was set to afterwards.
\<close>

definition file_reader :: "'u services \<Rightarrow> u8 list \<Rightarrow> ('u \<Rightarrow> nat) \<Rightarrow> bool" where
  "file_reader sv file pos \<longleftrightarrow>
     (\<forall>n u. fst (svc_read sv n u) = take (unat n) (drop (pos u) file)) \<and>
     (\<forall>off u. pos (svc_seek sv off u) = unat off) \<and>
     (\<forall>d name u. pos (svc_open sv d name u) = 0)"

text \<open>The first \<open>n\<close> program headers at an address are parsed from the bytes of the table that is there.\<close>

definition headers_parsed :: "'u services \<Rightarrow> u8 list \<Rightarrow> nat \<Rightarrow> (nat \<Rightarrow> Elf64_Phdr) \<Rightarrow> bool" where
  "headers_parsed sv table n ph \<longleftrightarrow>
     (\<forall>m a i. i < n \<longrightarrow> (\<forall>c. unat (c - a) < length table \<longrightarrow> m c = table ! unat (c - a)) \<longrightarrow>
        elf_phdr sv m a i = ph i)"

text \<open>The addresses a loaded segment takes from the file, and what is put there.\<close>

definition in_segment :: "Elf64_Phdr \<Rightarrow> u64 \<Rightarrow> bool" where
  "in_segment ph c \<longleftrightarrow> p_type ph = 1 \<and> unat (c - p_paddr ph) < unat (p_filesz ph)"

definition segment_byte :: "u8 list \<Rightarrow> Elf64_Phdr \<Rightarrow> u64 \<Rightarrow> u8" where
  "segment_byte file ph c = file ! (unat (p_offset ph) + unat (c - p_paddr ph))"

definition place :: "u8 list \<Rightarrow> Elf64_Phdr \<Rightarrow> mem \<Rightarrow> mem" where
  "place file ph m =
     (if p_type ph = 1
      then write_bytes (p_paddr ph) (take (unat (p_filesz ph)) (drop (unat (p_offset ph)) file)) m else m)"

lemma place_apply:
  assumes "unat (p_offset ph) + unat (p_filesz ph) \<le> length file"
  shows "place file ph m c = (if in_segment ph c then segment_byte file ph c else m c)"
proof -
  have "length (take (unat (p_filesz ph)) (drop (unat (p_offset ph)) file)) = unat (p_filesz ph)"
    using assms by simp
  moreover have "unat (p_filesz ph) < 2 ^ 64" using unsigned_less [of "p_filesz ph", where 'a = nat] by simp
  ultimately show ?thesis using assms
    by (auto simp: place_def in_segment_def segment_byte_def write_bytes_apply)
qed

lemma fold_place:
  assumes "\<And>i. i \<in> set is \<Longrightarrow> unat (p_offset (ph i)) + unat (p_filesz (ph i)) \<le> length file"
    and "\<And>j. j \<in> set is \<Longrightarrow> in_segment (ph j) c \<Longrightarrow> j = i"
  shows "fold (\<lambda>i. place file (ph i)) is m c =
    (if i \<in> set is \<and> in_segment (ph i) c then segment_byte file (ph i) c else m c)"
  using assms by (induction "is" arbitrary: m) (auto simp: place_apply)

lemma load_segment_place:
  assumes "file_reader sv file pos"
  shows "memory (load_segment sv headers i b) = place file (elf_phdr sv (memory b) headers i) (memory b)"
proof -
  have "fst (svc_read sv n (svc_seek sv off u)) = take (unat n) (drop (unat off) file)" for n off u
    using assms by (simp add: file_reader_def)
  then show ?thesis by (auto simp: load_segment_def place_def Let_def split: prod.split)
      (metis fst_conv)+
qed

lemma load_segments:
  assumes reader: "file_reader sv file pos" and parsed: "headers_parsed sv table n ph"
    and table: "\<And>c. unat (c - headers) < length table \<Longrightarrow> memory b c = table ! unat (c - headers)"
    and apart: "\<And>i c. i \<in> set is \<Longrightarrow> in_segment (ph i) c \<Longrightarrow> \<not> unat (c - headers) < length table"
    and inside: "\<And>i. i \<in> set is \<Longrightarrow> unat (p_offset (ph i)) + unat (p_filesz (ph i)) \<le> length file"
    and count: "\<And>i. i \<in> set is \<Longrightarrow> i < n"
  shows "memory (fold (load_segment sv headers) is b) = fold (\<lambda>i. place file (ph i)) is (memory b)"
  using table apart inside count
proof (induction "is" arbitrary: b)
  case (Cons i "is")
  have "elf_phdr sv (memory b) headers i = ph i"
    using parsed Cons.prems(1) Cons.prems(4) [of i] unfolding headers_parsed_def by simp
  then have b1: "memory (load_segment sv headers i b) = place file (ph i) (memory b)"
    using load_segment_place [OF reader] by simp
  have "memory (load_segment sv headers i b) c = table ! unat (c - headers)"
    if "unat (c - headers) < length table" for c
    using that Cons.prems(1) [of c] Cons.prems(2) [of i c] Cons.prems(3) [of i] by (auto simp: b1 place_apply)
  then have "memory (fold (load_segment sv headers) is (load_segment sv headers i b)) =
      fold (\<lambda>i. place file (ph i)) is (memory (load_segment sv headers i b))"
    by (rule Cons.IH) (use Cons.prems(2,3,4) in auto)
  then show ?case by (simp add: b1)
qed simp

lemma GetKernelEntry_unfold:
  assumes reader: "file_reader sv file pos"
    and h: "elf_ehdr sv (take 64 file) = h" and ok: "elf_accepted h"
    and total: "uint (e_phnum h) * uint (e_phentsize h) \<le> INT_MAX"
    and table: "table = take (unat (e_phnum h) * unat (e_phentsize h)) (drop (unat (e_phoff h)) file)"
    and vol: "GetVolume sv img (fw b) = (volume, u)"
    and headers: "headers = fst (svc_alloc_pool sv (word_of_int (uint (e_phnum h) * uint (e_phentsize h)))
      (snd (svc_read sv 64 (svc_open sv volume KERNEL_FILENAME u))))"
  obtains b1 where "memory b1 = write_bytes headers table (memory b)" and "log b1 = log b"
    and "GetKernelEntry sv img b =
      Inr (Inr (e_entry h), fold (load_segment sv headers) [0..<unat (e_phnum h)] b1)"
proof -
  obtain n where n_eq: "n = uint (e_phnum h) * uint (e_phentsize h)" by blast
  then have n_mult: "n = int (unat (e_phnum h) * unat (e_phentsize h))" by simp
  have n: "0 \<le> n" "n \<le> INT_MAX" using total by (simp_all add: n_eq)
  then have c: "c_int (uint (e_phnum h) * uint (e_phentsize h)) = Inr n" by (simp add: INT_MIN_def flip: n_eq)
  have nat: "unat (word_of_int n :: u64) = unat (e_phnum h) * unat (e_phentsize h)"
    using nat_mono [OF n(2)] unfolding n_mult of_int_of_nat_eq nat_int
    by (intro unat_of_nat_small) (simp add: INT_MAX_def)
  have rd: "svc_read sv k u = (take (unat k) (drop (pos u) file), snd (svc_read sv k u))" for k u
    using reader by (simp add: file_reader_def prod_eq_iff)
  obtain u1 where r0: "svc_read sv 64 (svc_open sv volume KERNEL_FILENAME u) = (take 64 file, u1)"
    using rd [of 64 "svc_open sv volume KERNEL_FILENAME u"] reader by (simp add: file_reader_def)
  have "headers = fst (svc_alloc_pool sv (word_of_int n) u1)" unfolding headers r0 n_eq by simp
  then obtain u2 where a: "svc_alloc_pool sv (word_of_int n) u1 = (headers, u2)" by (metis prod.collapse)
  obtain u4 where r3: "svc_read sv (word_of_int n) (svc_seek sv (e_phoff h) u2) = (table, u4)"
    using rd [of "word_of_int n" "svc_seek sv (e_phoff h) u2"] reader by (simp add: file_reader_def nat table)
  have "GetKernelEntry sv img b = Inr (Inr (e_entry h), fold (load_segment sv headers) [0..<unat (e_phnum h)]
      (b\<lparr>fw := u4, memory := write_bytes headers table (memory b)\<rparr>))"
    unfolding GetKernelEntry_def vol Let_def prod.case r0 h using ok by (simp add: c a r3)
  then show ?thesis by (rule that [rotated 2]) simp_all
qed

lemma load_segments_log: "log (fold (load_segment sv headers) is b) = log b"
  by (induction "is" arbitrary: b) (simp_all add: load_segment_def Let_def split_def)

lemma headers_small:
  assumes "uint (n :: u16) * uint (k :: u16) \<le> INT_MAX"
  shows "unat n * unat k < 2 ^ 64"
proof -
  have "int (unat n * unat k) \<le> INT_MAX" using assms by simp
  then have "unat n * unat k \<le> nat INT_MAX" by (simp only: nat_le_iff le_nat_iff)
  then show ?thesis by (simp add: INT_MAX_def)
qed

lemma GetKernelEntry_refuses:
  assumes reader: "file_reader sv file pos" and h: "elf_ehdr sv (take 64 file) = h" and bad: "\<not> elf_accepted h"
  shows "\<exists>b'. GetKernelEntry sv img b = Inr (Inl EFI_LOAD_ERROR, b') \<and> memory b' = memory b"
proof -
  obtain vol uv where v: "GetVolume sv img (fw b) = (vol, uv)" by fastforce
  have "fst (svc_read sv 64 (svc_open sv vol KERNEL_FILENAME uv)) = take 64 file"
    using reader by (simp add: file_reader_def)
  then show ?thesis unfolding GetKernelEntry_def v Let_def prod.case split_def using h bad by simp
qed

section \<open>Into the kernel\<close>

text \<open>A run that enters the kernel has fetched the map, then loaded the file, then left the firmware.\<close>

lemma efi_main_entered:
  assumes "efi_main sv img f b = Some (Inr (Entered entry info st, b'))"
  obtains b1 b2 b3 key where
      "map_fetched sv b1 (Some (mmap info, mmap_size info, key, mmap_desc_size info)) b2"
      "GetKernelEntry sv img (Print ''EFI MEMORY MAP LOADED, GOING TO KERNEL...'' b2) = Inr (Inr entry, b3)"
      "svc_exit sv key (fw b3) = (st, fw b')" "memory b' = memory b3" "log b' = log b3"
      "fb info = f" "mmap info \<noteq> 0"
proof -
  from assms obtain b1 r where run: "GetMemoryMap sv b1 = Some r"
    and rest: "(case r of (mm, b2) \<Rightarrow> (case mm of
                None \<Rightarrow> Some (Inr (Stopped, Print ''Unable to load memory map.'' b2))
              | Some (buf, sz, key, dsize) \<Rightarrow>
                  if buf = 0 then Some (Inr (Stopped, Print ''Unable to load memory map.'' b2))
                  else obind (Some (GetKernelEntry sv img
                         (Print ''EFI MEMORY MAP LOADED, GOING TO KERNEL...'' b2))) (\<lambda>(r, b3).
                         case r of
                           Inl st \<Rightarrow> Some (Inr (Stopped, Print ''Unable to find kernel entry.'' b3))
                         | Inr entry \<Rightarrow>
                             let (xst, u) = svc_exit sv key (fw b3)
                             in Some (Inr (Entered entry
                                  \<lparr>fb = f, mmap = buf, mmap_size = sz, mmap_desc_size = dsize\<rparr> xst,
                                  b3\<lparr>fw := u\<rparr>))))) = Some (Inr (Entered entry info st, b'))"
    unfolding efi_main_def Let_def by (force simp: obind_eq_Inr split: if_splits)
  from rest obtain buf sz key dsize b2 where r: "r = (Some (buf, sz, key, dsize), b2)" and buf: "buf \<noteq> 0"
    by (cases r) (auto split: option.splits if_splits)
  define b2' where "b2' = Print ''EFI MEMORY MAP LOADED, GOING TO KERNEL...'' b2"
  from rest obtain q b3 where q: "GetKernelEntry sv img b2' = Inr (q, b3)"
    by (auto simp: r buf obind_eq_Inr simp flip: b2'_def)
  with rest have last: "case q of Inl st' \<Rightarrow> False | Inr e \<Rightarrow> e = entry \<and> st = fst (svc_exit sv key (fw b3)) \<and>
      info = \<lparr>fb = f, mmap = buf, mmap_size = sz, mmap_desc_size = dsize\<rparr> \<and>
      b' = b3\<lparr>fw := snd (svc_exit sv key (fw b3))\<rparr>"
    by (auto simp: r buf split_def Let_def simp flip: b2'_def split: sum.splits)
  then have "q = Inr entry" by (cases q) simp_all
  moreover have "map_fetched sv b1 (Some (buf, sz, key, dsize)) b2"
    using memory_map_loop_result [of sv 40 b1 r] run by (simp add: GetMemoryMap_def r)
  ultimately show ?thesis using last q buf
    by (intro that [of b1 key b2 b3]) (simp_all add: b2'_def prod_eq_iff)
qed

text \<open>
  A counter of the map's changes: each allocation advances it, no call takes it back, the key is its
  value, and \<open>ExitBootServices\<close> refuses any other.
\<close>

definition stamped :: "'u services \<Rightarrow> ('u \<Rightarrow> nat) \<Rightarrow> bool" where
  "stamped sv stamp \<longleftrightarrow>
     (\<forall>n u. stamp u < stamp (snd (svc_alloc_pool sv n u))) \<and>
     (\<forall>n a u. stamp u \<le> stamp (svc_alloc_pages sv n a u)) \<and>
     (\<forall>n u. stamp u \<le> stamp (snd (svc_read sv n u))) \<and>
     (\<forall>off u. stamp u \<le> stamp (svc_seek sv off u)) \<and>
     (\<forall>d name u. stamp u \<le> stamp (svc_open sv d name u)) \<and>
     (\<forall>d u. stamp u \<le> stamp (snd (svc_open_root sv d u))) \<and>
     (\<forall>d u. stamp u \<le> stamp (snd (svc_loaded_image sv d u))) \<and>
     (\<forall>key u. stamp u \<le> stamp (snd (svc_exit sv key u))) \<and>
     (\<forall>n u st sz key dsize bytes u'. svc_memory_map sv n u = ((st, sz, key, dsize, bytes), u') \<longrightarrow>
        \<not> EFI_ERROR st \<longrightarrow> key = of_nat (stamp u')) \<and>
     (\<forall>key u. key \<noteq> of_nat (stamp u) \<longrightarrow> EFI_ERROR (fst (svc_exit sv key u)))"

lemma load_segment_stamp:
  assumes "stamped sv stamp"
  shows "stamp (fw b) \<le> stamp (fw (load_segment sv headers i b))"
proof -
  have "stamp u \<le> stamp (snd (svc_read sv n (svc_seek sv off (svc_alloc_pages sv k a u))))" for n off k a u
    using assms unfolding stamped_def by (meson order_trans)
  then show ?thesis by (simp add: load_segment_def Let_def split_def)
qed

lemma load_segments_stamp:
  assumes "stamped sv stamp"
  shows "stamp (fw b) \<le> stamp (fw (fold (load_segment sv headers) is b))"
  by (induction "is" arbitrary: b) (auto intro: order_trans load_segment_stamp [OF assms])

lemma GetKernelEntry_stamp:
  assumes st: "stamped sv stamp" and run: "GetKernelEntry sv img b = Inr (Inr entry, b')"
  shows "stamp (fw b) < stamp (fw b')"
proof -
  obtain vol uv where v: "GetVolume sv img (fw b) = (vol, uv)" by fastforce
  obtain bytes u1 where r0: "svc_read sv 64 (svc_open sv vol KERNEL_FILENAME uv) = (bytes, u1)" by fastforce
  define h where "h = elf_ehdr sv bytes"
  obtain n where c: "c_int (uint (e_phnum h) * uint (e_phentsize h)) = Inr n" and "elf_accepted h"
    using run by (auto simp: GetKernelEntry_def v r0 Let_def rbind_eq_Inr simp flip: h_def split: if_splits)
  obtain headers u2 where a: "svc_alloc_pool sv (word_of_int n) u1 = (headers, u2)" by fastforce
  obtain table u4 where r3: "svc_read sv (word_of_int n) (svc_seek sv (e_phoff h) u2) = (table, u4)" by fastforce
  have "b' = fold (load_segment sv headers) [0..<unat (e_phnum h)]
      (b\<lparr>fw := u4, memory := write_bytes headers table (memory b)\<rparr>)"
    using run \<open>elf_accepted h\<close> unfolding GetKernelEntry_def v Let_def prod.case r0 h_def [symmetric]
    by (simp add: c a r3)
  then have "stamp u4 \<le> stamp (fw b')"
    using load_segments_stamp [OF st, of "b\<lparr>fw := u4, memory := write_bytes headers table (memory b)\<rparr>"] by simp
  moreover have "stamp uv \<le> stamp u1" "stamp u1 < stamp u2" "stamp u2 \<le> stamp u4"
    using st r0 a r3 unfolding stamped_def by (metis order_trans snd_conv)+
  moreover have "stamp (fw b) \<le> stamp uv"
    using st v unfolding stamped_def GetVolume_def by (metis (no_types, lifting) order_trans split_def snd_conv)
  ultimately show ?thesis by linarith
qed

section \<open>A small firmware\<close>

text \<open>
  Its state is the map's counter and the position in the file. The file has 64 bytes of header, a table
  of one program header in the layout of the ELF specification, and the four bytes of its segment.
\<close>

definition sample_table :: "u8 list" where
  "sample_table =
     [1, 0, 0, 0, 7, 0, 0, 0] @ [120, 0, 0, 0, 0, 0, 0, 0] @ [0, 0, 0x10, 0, 0, 0, 0, 0] @ [0, 0, 0x10, 0, 0, 0, 0, 0] @
     [4, 0, 0, 0, 0, 0, 0, 0] @ [16, 0, 0, 0, 0, 0, 0, 0] @ [0, 0x10, 0, 0, 0, 0, 0, 0]"

definition sample_file :: "u8 list" where
  "sample_file = replicate 64 0 @ sample_table @ [0xC3, 1, 2, 3]"

definition sample_header :: Elf64_Ehdr where
  "sample_header = \<lparr>e_ident = [0x7F, 69, 76, 70, 2, 1], e_type = 2, e_machine = 62, e_version = 1,
     e_entry = 0x100000, e_phoff = 64, e_phentsize = 56, e_phnum = 1\<rparr>"

definition sample_segment :: Elf64_Phdr where
  "sample_segment = \<lparr>p_type = 1, p_offset = 120, p_paddr = 0x100000, p_filesz = 4, p_memsz = 16\<rparr>"

text \<open>The entry of an array of 56-byte program headers.\<close>

definition phdr_at :: "mem \<Rightarrow> u64 \<Rightarrow> nat \<Rightarrow> Elf64_Phdr" where
  "phdr_at m a i =
     (let q = a + of_nat (56 * i)
      in \<lparr>p_type = load32 m q, p_offset = load64 m (q + 8), p_paddr = load64 m (q + 24),
          p_filesz = load64 m (q + 32), p_memsz = load64 m (q + 40)\<rparr>)"

definition sample_services :: "(nat \<times> nat) services" where
  "sample_services =
     \<lparr>svc_init_lib = \<lambda>u. u, svc_clear_screen = \<lambda>u. u, svc_smbios3 = \<lambda>u. None, svc_smbios = \<lambda>u. None,
      svc_smbios_type = \<lambda>u a. 0x7F, svc_smbios_next = \<lambda>u a. a, svc_smbios_line = \<lambda>u a. [],
      svc_variable = \<lambda>u name. None, svc_locate_gop = \<lambda>u. (EFI_SUCCESS, u),
      svc_gop_mode = \<lambda>u. Some \<lparr>gm_mode = 0, gm_base = 0x80000000, gm_size = 0x1000, gm_vertical = 32,
        gm_horizontal = 32, gm_line = 32\<rparr>,
      svc_query_mode = \<lambda>n u. (EFI_SUCCESS, u), svc_set_mode = \<lambda>n u. (EFI_SUCCESS, u),
      svc_alloc_pool = \<lambda>n (k, p). (0x200000, (Suc k, p)),
      svc_memory_map = \<lambda>n (k, p). (if n < 96 then (EFI_BUFFER_TOO_SMALL, 96, 0, 48, []) else
        (EFI_SUCCESS, 48, of_nat k, 48, []), (k, p)),
      svc_alloc_pages = \<lambda>n a (k, p). (Suc k, p), svc_loaded_image = \<lambda>i u. (1, u),
      svc_open_root = \<lambda>d u. (2, u), svc_open = \<lambda>d name (k, p). (k, 0),
      svc_file_info = \<lambda>d u. ((0, 124), u), svc_free_pool = \<lambda>a u. u,
      svc_seek = \<lambda>off (k, p). (k, unat off),
      svc_read = \<lambda>n (k, p). (take (unat n) (drop p sample_file), (k, p + unat n)),
      svc_exit = \<lambda>key (k, p). (if key = of_nat k then EFI_SUCCESS else 0x8000000000000002, (k, p)),
      elf_ehdr = \<lambda>bytes. sample_header, elf_phdr = phdr_at\<rparr>"

definition sample_boot :: "(nat \<times> nat) boot" where
  "sample_boot = \<lparr>fw = (0, 0), memory = (\<lambda>_. 0), log = []\<rparr>"

lemma sample_bounded: "bounded_map sample_services 96"
  by (auto simp: bounded_map_def sample_services_def EFI_SUCCESS_def EFI_BUFFER_TOO_SMALL_def
      split: prod.splits if_splits)

lemma sample_stamped: "stamped sample_services fst"
  by (auto simp: stamped_def sample_services_def EFI_SUCCESS_def EFI_BUFFER_TOO_SMALL_def EFI_ERROR_def
      split: prod.splits if_splits)

lemma sample_reader: "file_reader sample_services sample_file snd"
  by (auto simp: file_reader_def sample_services_def split: prod.splits)

lemma sample_table_parsed:
  assumes "\<And>k. k < 56 \<Longrightarrow> m (a + of_nat k) = sample_table ! k"
  shows "phdr_at m a 0 = sample_segment"
proof -
  have b: "m (a + 1) = 0" "m (a + 2) = 0" "m (a + 3) = 0" "m a = 1"
    using assms [of 1] assms [of 2] assms [of 3] assms [of 0] by (simp_all add: sample_table_def)
  have c: "m (a + numeral k) = sample_table ! numeral k" if "numeral k < (56 :: nat)" for k
    using assms [OF that] by simp
  show ?thesis
    by (simp add: phdr_at_def sample_segment_def load32_unfold load64_unfold add.assoc b c)
      (simp add: sample_table_def)
qed

lemma sample_parsed: "headers_parsed sample_services sample_table 1 (\<lambda>i. sample_segment)"
proof -
  have "phdr_at m a 0 = sample_segment"
    if at: "\<forall>c. unat (c - a) < length sample_table \<longrightarrow> m c = sample_table ! unat (c - a)" for m a
  proof (rule sample_table_parsed)
    show "m (a + of_nat k) = sample_table ! k" if "k < 56" for k
      using at [rule_format, of "a + of_nat k"] that by (simp add: sample_table_def unat_of_nat_small)
  qed
  then show ?thesis by (simp add: headers_parsed_def sample_services_def)
qed

section \<open>Properties\<close>

text \<open>C20. On firmware whose memory map is bounded and that says how much room it needs,
  \<open>GetMemoryMap\<close> ends. It returns \<open>NULL\<close> and has written nothing, or the buffer of the last call, one that
  succeeded, with the size, the key and the descriptor size of that call; the map is all it wrote.\<close>

theorem GetMemoryMap_returns:
  assumes "bounded_map sv lim"
  shows "\<exists>mm b'. GetMemoryMap sv b = Some (mm, b') \<and> log b' = log b \<and>
    (case mm of None \<Rightarrow> memory b' = memory b
     | Some (buf, sz, key, dsize) \<Rightarrow>
         (\<exists>n v u st bytes. svc_alloc_pool sv n v = (buf, u) \<and> \<not> EFI_ERROR st \<and>
            svc_memory_map sv n u = ((st, sz, key, dsize, bytes), fw b') \<and>
            memory b' = write_bytes buf bytes (memory b)))"
  using memory_map_loop_returns [OF assms, of 40 b] unfolding GetMemoryMap_def map_fetched_def .

theorem GetMemoryMap_returns_witness:
  "\<exists>mm b'. GetMemoryMap sample_services sample_boot = Some (mm, b')"
  using GetMemoryMap_returns [OF sample_bounded, of sample_boot] by blast

text \<open>C8. A kernel file whose segments are disjoint, lie in the file and keep clear of the memory the
  firmware gives for the program headers is loaded as its headers say:
  every byte of a loaded segment is the byte of the file, and all other memory is as before except the
  copy of the headers, the part of a segment beyond its bytes in the file included, which is not cleared.
  A file that is no 64-bit x86 executable is refused with a load error and nothing written.\<close>

theorem GetKernelEntry_loads:
  assumes "file_reader sv file pos" and "headers_parsed sv table (unat (e_phnum h)) ph"
    and "elf_ehdr sv (take 64 file) = h"
    and "uint (e_phnum h) * uint (e_phentsize h) \<le> INT_MAX"
    and "table = take (unat (e_phnum h) * unat (e_phentsize h)) (drop (unat (e_phoff h)) file)"
    and "\<And>i. i < unat (e_phnum h) \<Longrightarrow> unat (p_offset (ph i)) + unat (p_filesz (ph i)) \<le> length file"
    and "\<And>i j c. i < unat (e_phnum h) \<Longrightarrow> j < unat (e_phnum h) \<Longrightarrow>
      in_segment (ph i) c \<Longrightarrow> in_segment (ph j) c \<Longrightarrow> i = j"
    and "GetVolume sv img (fw b) = (volume, u)"
    and "headers = fst (svc_alloc_pool sv (word_of_int (uint (e_phnum h) * uint (e_phentsize h)))
      (snd (svc_read sv 64 (svc_open sv volume KERNEL_FILENAME u))))"
    and "\<And>i c. i < unat (e_phnum h) \<Longrightarrow> in_segment (ph i) c \<Longrightarrow> \<not> unat (c - headers) < length table"
  shows "if elf_accepted h
    then \<exists>b'. GetKernelEntry sv img b = Inr (Inr (e_entry h), b') \<and> log b' = log b \<and>
      (\<forall>c. \<forall>i<unat (e_phnum h). in_segment (ph i) c \<longrightarrow> memory b' c = segment_byte file (ph i) c) \<and>
      (\<forall>c. (\<forall>i<unat (e_phnum h). \<not> in_segment (ph i) c) \<longrightarrow> length table \<le> unat (c - headers) \<longrightarrow>
         memory b' c = memory b c)
    else \<exists>b'. GetKernelEntry sv img b = Inr (Inl EFI_LOAD_ERROR, b') \<and> memory b' = memory b"
proof (cases "elf_accepted h")
  case True
  obtain b1 where b1: "memory b1 = write_bytes headers table (memory b)" "log b1 = log b"
    and run: "GetKernelEntry sv img b =
      Inr (Inr (e_entry h), fold (load_segment sv headers) [0..<unat (e_phnum h)] b1)"
    using GetKernelEntry_unfold [OF assms(1,3) True assms(4,5,8,9)] .
  have len: "length table < 2 ^ 64"
    using headers_small [OF assms(4)] assms(5) by simp
  have mem: "memory (fold (load_segment sv headers) [0..<unat (e_phnum h)] b1) =
      fold (\<lambda>i. place file (ph i)) [0..<unat (e_phnum h)] (write_bytes headers table (memory b))"
    unfolding b1(1) [symmetric]
    by (rule load_segments [OF assms(1,2)])
      (use assms(6,10) len in \<open>auto simp: b1 write_bytes_apply\<close>)
  have at: "fold (\<lambda>i. place file (ph i)) [0..<unat (e_phnum h)] m c =
      (if i < unat (e_phnum h) \<and> in_segment (ph i) c then segment_byte file (ph i) c else m c)"
    if "\<And>j. j < unat (e_phnum h) \<Longrightarrow> in_segment (ph j) c \<Longrightarrow> j = i" for m c i
    using that assms(6) by (subst fold_place [where i = i]) auto
  show ?thesis unfolding if_P [OF True]
  proof (intro exI conjI allI impI)
    show "GetKernelEntry sv img b =
      Inr (Inr (e_entry h), fold (load_segment sv headers) [0..<unat (e_phnum h)] b1)" by (fact run)
    show "log (fold (load_segment sv headers) [0..<unat (e_phnum h)] b1) = log b"
      using b1(2) by (simp add: load_segments_log)
    show "memory (fold (load_segment sv headers) [0..<unat (e_phnum h)] b1) c = segment_byte file (ph i) c"
      if "i < unat (e_phnum h)" "in_segment (ph i) c" for c i
      unfolding mem using that at [of c i] assms(7) by auto
    show "memory (fold (load_segment sv headers) [0..<unat (e_phnum h)] b1) c = memory b c"
      if "\<forall>i<unat (e_phnum h). \<not> in_segment (ph i) c" "length table \<le> unat (c - headers)" for c
      unfolding mem using that at [of c 0] len by (auto simp: write_bytes_apply)
  qed
next
  case False
  then show ?thesis using GetKernelEntry_refuses [OF assms(1,3) False, of img b] by simp
qed

theorem GetKernelEntry_loads_witness:
  "\<exists>b'. GetKernelEntry sample_services 0 sample_boot = Inr (Inr 0x100000, b') \<and>
     memory b' 0x100000 = 0xC3 \<and> memory b' 0x100003 = 3"
proof -
  have seg: "in_segment sample_segment c \<longleftrightarrow> unat (c - 0x100000) < 4" for c
    by (simp add: in_segment_def sample_segment_def)
  have hdr: "elf_ehdr sample_services (take 64 sample_file) = sample_header"
    by (simp add: sample_services_def)
  have one: "unat (e_phnum sample_header) = 1" by (simp add: sample_header_def)
  have parsed: "headers_parsed sample_services sample_table (unat (e_phnum sample_header)) (\<lambda>i. sample_segment)"
    unfolding one by (rule sample_parsed)
  have volume: "GetVolume sample_services 0 (fw sample_boot) = (2, (0, 0))"
    by (simp add: GetVolume_def sample_services_def sample_boot_def)
  have far: "\<not> unat (c - 0x200000) < length sample_table" if "in_segment sample_segment c" for c
  proof -
    obtain k where k: "k = unat (c - 0x100000)" by blast
    then have "k < 4" using that by (simp add: seg)
    then have "k \<in> {0, 1, 2, 3}" by auto
    moreover have "c = 0x100000 + of_nat k" by (simp add: k)
    ultimately show ?thesis by (auto simp: sample_table_def)
  qed
  have "if elf_accepted sample_header
    then \<exists>b'. GetKernelEntry sample_services 0 sample_boot =
        Inr (Inr (e_entry sample_header), b') \<and> log b' = log sample_boot \<and>
      (\<forall>c. \<forall>i<unat (e_phnum sample_header). in_segment sample_segment c \<longrightarrow>
         memory b' c = segment_byte sample_file sample_segment c) \<and>
      (\<forall>c. (\<forall>i<unat (e_phnum sample_header). \<not> in_segment sample_segment c) \<longrightarrow>
         length sample_table \<le> unat (c - 0x200000) \<longrightarrow> memory b' c = memory sample_boot c)
    else \<exists>b'. GetKernelEntry sample_services 0 sample_boot =
        Inr (Inl EFI_LOAD_ERROR, b') \<and> memory b' = memory sample_boot"
    by (rule GetKernelEntry_loads [OF sample_reader parsed hdr _ _ _ _ volume])
      (use far in \<open>simp_all add: one sample_header_def sample_segment_def sample_file_def sample_table_def
        INT_MAX_def sample_services_def\<close>)
  moreover have "elf_accepted sample_header" by (simp add: elf_accepted_def sample_header_def)
  moreover have "e_entry sample_header = 0x100000" by (simp add: sample_header_def)
  moreover have "in_segment sample_segment 0x100000" "in_segment sample_segment 0x100003"
    by (simp_all add: seg)
  moreover have "segment_byte sample_file sample_segment 0x100000 = 0xC3"
    "segment_byte sample_file sample_segment 0x100003 = 3"
    by (simp_all add: segment_byte_def sample_segment_def sample_file_def sample_table_def nth_append)
  ultimately show ?thesis unfolding one by (metis less_numeral_extra(1))
qed

text \<open>C14. The kernel is handed the frame buffer, and the map as the last successful call returned it.
  Loading the kernel after that allocates, so on firmware whose allocations change the key,
  \<open>ExitBootServices\<close> fails whenever the kernel is entered, and the loader enters it all the same.\<close>

theorem efi_main_stale_key:
  assumes "efi_main sv img frameBuffer b = Some (Inr (Entered entry info st, b'))"
  shows "fb info = frameBuffer \<and> mmap info \<noteq> 0 \<and>
    (\<exists>n v u map_status key bytes u'. svc_alloc_pool sv n v = (mmap info, u) \<and> \<not> EFI_ERROR map_status \<and>
       svc_memory_map sv n u = ((map_status, mmap_size info, key, mmap_desc_size info, bytes), u')) \<and>
    (stamped sv stamp \<and> stamp (fw b') < 2 ^ 64 \<longrightarrow> EFI_ERROR st)"
proof -
  obtain b1 b2 b3 key where
      got: "map_fetched sv b1 (Some (mmap info, mmap_size info, key, mmap_desc_size info)) b2"
    and loaded: "GetKernelEntry sv img (Print ''EFI MEMORY MAP LOADED, GOING TO KERNEL...'' b2) =
        Inr (Inr entry, b3)"
    and left: "svc_exit sv key (fw b3) = (st, fw b')" and info: "fb info = frameBuffer" "mmap info \<noteq> 0"
    using efi_main_entered [OF assms] by metis
  obtain n v u map_status bytes where call: "svc_alloc_pool sv n v = (mmap info, u)" "\<not> EFI_ERROR map_status"
      "svc_memory_map sv n u = ((map_status, mmap_size info, key, mmap_desc_size info, bytes), fw b2)"
    using got unfolding map_fetched_def by auto
  have "EFI_ERROR st" if st: "stamped sv stamp" and small: "stamp (fw b') < 2 ^ 64"
  proof -
    have key: "key = of_nat (stamp (fw b2))" using st call unfolding stamped_def by blast
    have "stamp (fw b2) < stamp (fw b3)"
      using GetKernelEntry_stamp [OF st loaded] by (simp add: Print_def)
    moreover have "stamp (fw b3) \<le> stamp (fw b')"
      using st left unfolding stamped_def by (metis snd_conv)
    ultimately have "key \<noteq> of_nat (stamp (fw b3))"
      using small by (auto simp: key dest!: arg_cong [where f = unat] simp: unat_of_nat_small)
    then have "EFI_ERROR (fst (svc_exit sv key (fw b3)))" using st unfolding stamped_def by blast
    then show ?thesis by (simp add: left)
  qed
  with info call show ?thesis by blast
qed

lemma sample_map:
  "GetMemoryMap sample_services b =
     Some (Some (0x200000, 48, of_nat (fst (fw b) + 2), 48), b\<lparr>fw := (fst (fw b) + 2, snd (fw b))\<rparr>)"
  by (cases "fw b") (simp add: GetMemoryMap_def memory_map_loop.simps [of _ 40] memory_map_loop.simps [of _ 96]
      sample_services_def EFI_SUCCESS_def EFI_BUFFER_TOO_SMALL_def EFI_ERROR_def)

lemma sample_loaded: "phdr_at (write_bytes a (take 56 (drop 64 sample_file)) m) a 0 = sample_segment"
proof (rule sample_table_parsed)
  fix k :: nat
  assume k: "k < 56"
  have table: "take 56 (drop 64 sample_file) = sample_table" by (simp add: sample_file_def sample_table_def)
  have "length sample_table = 56" by (simp add: sample_table_def)
  then show "write_bytes a (take 56 (drop 64 sample_file)) m (a + of_nat k) = sample_table ! k"
    unfolding table using k by (simp add: write_bytes_apply unat_of_nat_small)
qed

lemma sample_kernel:
  "\<exists>b'. GetKernelEntry sample_services img b = Inr (Inr 0x100000, b') \<and> fst (fw b') = fst (fw b) + 1 + 1"
  by (cases "fw b") (simp add: GetKernelEntry_def GetVolume_def sample_services_def elf_accepted_def
      sample_header_def load_segment_def sample_loaded sample_segment_def Let_def INT_MIN_def INT_MAX_def)

lemma sample_info: "PrintSystemInfo sample_services b = Some (EFI_NOT_FOUND, Print ''UEFI v%d.%d (%s, 0x%08X)'' b)"
  by (simp add: PrintSystemInfo_def sample_services_def Let_def)

lemma sample_gop: "\<exists>m. InitializeGop sample_services f b = Inr (EFI_SUCCESS, b\<lparr>memory := m\<rparr>)"
  by (rule exI [where x = "store_framebuffer f \<lparr>fbbase = 0x80000000, fbsize = 0x1000, fb_width = 32,
        fb_height = 32, ppsl = 32\<rparr> (memory b)"])
    (simp add: InitializeGop_def GetGop_def sample_services_def Let_def EFI_ERROR_def EFI_SUCCESS_def EFI_NOT_STARTED_def)

lemma sample_run:
  "\<exists>info st b'. efi_main sample_services 0 f sample_boot =
     Some (Inr (Entered 0x100000 info st, b')) \<and> fst (fw b') < 2 ^ 64"
proof -
  define b1 where "b1 = Print ''UEFI v%d.%d (%s, 0x%08X)'' sample_boot"
  obtain m1 where gop: "InitializeGop sample_services f b1 = Inr (EFI_SUCCESS, b1\<lparr>memory := m1\<rparr>)"
    using sample_gop by blast
  define b2 where "b2 = Print ''EFI MEMORY MAP LOADED, GOING TO KERNEL...''
    (Print ''Framebuffer address 0x%08x, SIZE=%d, %dx%d PPSL=%d'' (b1\<lparr>memory := m1\<rparr>)\<lparr>fw := (Suc (Suc 0), 0)\<rparr>)"
  obtain b3 where kernel: "GetKernelEntry sample_services 0 b2 = Inr (Inr 0x100000, b3)"
    and "fst (fw b3) = fst (fw b2) + 1 + 1"
    using sample_kernel by blast
  then have "fst (fw b3) = 4" by (simp add: b2_def Print_def)
  moreover have "snd (svc_exit sample_services key u) = u" for key u
    by (simp add: sample_services_def split: prod.split)
  moreover have "svc_clear_screen sample_services (svc_init_lib sample_services u) = u" for u
    by (simp add: sample_services_def)
  moreover have "\<not> EFI_ERROR EFI_SUCCESS" by (simp add: EFI_ERROR_def EFI_SUCCESS_def)
  moreover have "fw b1 = (0, 0)" by (simp add: b1_def Print_def sample_boot_def)
  ultimately show ?thesis
    using gop kernel
    by (simp add: efi_main_def Let_def sample_info sample_map split_def flip: b1_def)
      (simp add: Print_def b2_def split_def Let_def)
qed

theorem efi_main_stale_key_witness:
  "\<exists>entry info st b'. efi_main sample_services 0 0x7000 sample_boot =
     Some (Inr (Entered entry info st, b')) \<and> EFI_ERROR st"
proof -
  obtain info st b' where run: "efi_main sample_services 0 0x7000 sample_boot =
     Some (Inr (Entered 0x100000 info st, b'))" and "fst (fw b') < 2 ^ 64"
    using sample_run by blast
  with efi_main_stale_key [OF run, of fst] sample_stamped show ?thesis by blast
qed

section \<open>Secure boot\<close>

text \<open>The status is unsigned, so the line for the set-up mode is never printed: a platform in set-up mode
  with secure boot on is reported as enabled.\<close>

lemma secure_boot_never_setup:
  "secure_boot_line (secure_boot_status secure setup) =
     (if secure \<in> {None, Some 0} then ''Secure Boot status: Disabled'' else ''Secure Boot status: %HEnabled%N'')"
  by (auto simp: secure_boot_line_def secure_boot_status_def unsigned_minus_1_eq_mask mask_eq_exp_minus_1
      split: option.split)

end
