(* ===== verification/Spec2Isabelle.thy ===== *)
theory Spec2Isabelle
  imports FmtProperties ConsoleProperties ConsoleFloat Cpu KernelProperties BootloaderProperties
begin

text \<open>
  A model of the kernel \<open>si-stultum\<close> and of its UEFI boot loader, and what makes them correct.

  \<^bold>\<open>The program.\<close> \<open>bootloader.c\<close> asks the firmware for a frame buffer and a memory map, loads the kernel's
  ELF file and jumps to \<open>_start\<close> in \<open>kernel.c\<close>. The kernel sets up the serial port (\<open>serial.c\<close>, over
  \<open>port_io.h\<close>), the segments (\<open>gdt.c\<close>), the text console (\<open>conlib.c\<close>, over the font renderer \<open>ssfn.c\<close>), the
  allocator of page frames (\<open>page_frames.c\<close>, fed by the memory map, \<open>efimem.h\<close>), the page tables
  (\<open>page_map.c\<close>) and the interrupt table (\<open>idt.c\<close>, with the handlers of \<open>interrupts.c\<close> and the timer of
  \<open>chrono.c\<close>); it then waits for three seconds of timer interrupts and echoes what arrives on the serial
  port. Formatted output (\<open>fmt.c\<close>) and strings (\<open>string.c\<close>) are used throughout.

  \<^bold>\<open>How code becomes definitions.\<close> Every operation is a function of the same name (with a suffix or prefix
  where HOL has the name already) on explicit state: records for the globals, a byte at every 64-bit
  address for physical memory (\<open>Memory\<close>), lists of bytes with checked accesses for arrays that are only
  walked over, a log of port accesses that a parameter, the device, answers, and for the loader a record
  of functions, the firmware, over an unknown state. Unsigned integers are words of their width; a C
  \<open>int\<close> is an integer whose every operation is checked. What C leaves undefined is a value of \<open>fault\<close>; a
  loop whose state repeats while its guard holds is the fault \<open>Diverges\<close>; \<open>None\<close> is a call that never
  returns because it waits for the device or the firmware. No definition has fuel: loops that end are
  functions with a measure, the others partial functions whose termination is stated and proved under
  the condition that makes them end.

  \<^bold>\<open>Theories.\<close>
  \<^item> \<open>Prelude\<close>, \<open>Memory\<close>: machine types, faults and their sequencing, byte memory, the byte loops
    \<open>ppa_memset\<close> and \<open>ppa_memcpy\<close>.
  \<^item> \<open>EfiMem\<close>: descriptors of the memory map and the walk over them (\<open>efimem.h\<close>, \<open>get_memory_size\<close>).
  \<^item> \<open>PageFrames\<close>: all of \<open>page_frames.c\<close>. \<open>FrameBitmap\<close>: the bitmap as a set of taken frames.
    \<open>FrameAccounting\<close>: the counters. \<open>FrameSource\<close>: the allocator as the locale its client, the mapper,
    relies on. \<open>FrameRequest\<close>: the search for a free frame, and the interpretation of that locale.
    \<open>FrameInit\<close>, \<open>BootFrames\<close>: \<open>ppa_init\<close> and what it leaves taken. \<open>FrameProperties\<close>: the properties.
  \<^item> \<open>PageMap\<close>: \<open>page_map.c\<close>. \<open>PageWalk\<close>: the tables as a tree of pages. \<open>PageMapCorrect\<close>: mapping keeps
    the tree well formed and changes one translation. \<open>PageMapProperties\<close>: the properties.
  \<^item> \<open>CString\<close>: \<open>string.c\<close>. \<open>Fmt\<close>: \<open>fmt.c\<close>; \<open>FmtNumbers\<close>: digits; \<open>FmtLoop\<close>, \<open>FmtItems\<close>: the loop over the
    format as a refinement of the printing of its items; \<open>FmtProperties\<close>: the properties.
  \<^item> \<open>PortIO\<close>: \<open>port_io.c\<close>, \<open>port_io.h\<close> and \<open>chrono.c\<close>. \<open>Serial\<close>: \<open>serial.c\<close> and the macro of \<open>serial.h\<close>,
    with the transmitter's law as the locale \<open>channel\<close>, interpreted on \<open>kputc\<close>. \<open>SerialProperties\<close>: the
    properties.
  \<^item> \<open>Descriptors\<close>: \<open>gdt.c\<close>, \<open>gdt.h\<close>, \<open>idt.c\<close>, \<open>idt.h\<close>.
  \<^item> \<open>Font\<close>: \<open>ssfn.c\<close> and what it uses of \<open>ssfn.h\<close>. \<open>Utf8\<close>: its decoder. \<open>FontSafety\<close>: which bytes drawing writes.
    \<open>FontPicture\<close>: the picture a glyph's fragments describe, which drawing refines. \<open>Console\<close>: \<open>conlib.c\<close> and \<open>conlib.h\<close>. \<open>ConsoleCorrect\<close>: the invariant of the screen. \<open>ConsoleProperties\<close>: the
    properties. \<open>Doubles\<close>: the rounded arithmetic of \<open>double\<close> and the decimal digits of a fraction.
    \<open>ConsoleFloat\<close>: \<open>itoas\<close> and \<open>ftoan\<close>, which write numbers and fractions.
  \<^item> \<open>Interrupts\<close>: \<open>interrupts.c\<close>. \<open>Handover\<close>: the structures loader and kernel share (\<open>kernel.h\<close>).
    \<open>Cpu\<close>: the processor wrappers of \<open>kernel.h\<close>, which nothing calls yet. \<open>Kernel\<close>: \<open>kernel.c\<close>, the register loads of \<open>asm_utils.asm\<close> as fields of the state, and the running
    kernel as a step relation. \<open>KernelMapping\<close>: the identity map as an invariant of the mapping loops,
    with the number of tables they need. \<open>KernelRunning\<close>: the interrupts between two steps, and the runs of the
    step relation with the interrupts counted. \<open>KernelStart\<close>: what
    the steps of \<open>init_kernel\<close> leave to each other. \<open>KernelTest\<close>: copying by virtual address and writes that
    leave the tables alone. \<open>KernelUp\<close>: the state after \<open>init_kernel\<close>, the reports and the colour chart.
    \<open>KernelBoot\<close>: the whole of \<open>_start\<close> up to its waiting loop, with the clock. \<open>KernelProperties\<close>: the properties.
  \<^item> \<open>Bootloader\<close>: \<open>bootloader.c\<close>. \<open>BootloaderProperties\<close>: the laws of the firmware and the properties.

  \<^bold>\<open>What the properties show.\<close> The allocator returns distinct free frames, and its counters are the sizes of
  the sets its bitmap describes, through every run of its operations; what \<open>ppa_init\<close> leaves taken is
  exactly what it should. The mapper changes the one translation asked for, and so \<open>init_pmm\<close> builds the
  identity map of memory and frame buffer; composed, \<open>init_kernel\<close> brings a machine that fits to a state
  in which all of these hold together, and \<open>_start\<close> goes on from there through its reports, its mapping test
  and its chart to the waiting loop. Formatted output refines the printing of its items and is read
  back; the serial port transmits it once and in order. A number on the console is the numeral of its value, a printed
  \<open>double\<close> the value up to its last digit and the rounding of the arithmetic. Drawing stays on the screen and
  puts there the picture the glyph's fragments describe. Interrupt gates lead
  to the handlers, segment selectors to the segments of the image, and the kernel, whatever interrupts
  arrive between its steps, acknowledges every one of them once and counts every millisecond. The
  loader puts the segments of the file where they belong. Where the code does not do what it means to,
  the property says what it does instead, under its exact condition.

  \<^bold>\<open>Bounds.\<close> Physical memory below \<open>2 ^ 48\<close> for the identity map, since the tables translate 48 bits; time
  stamps below \<open>2 ^ 31\<close> seconds, since they are printed as \<open>int\<close>; 32 digits, the length of the static
  buffer. Each is a hypothesis of the properties that need it.

  \<^bold>\<open>Assumed of the machine.\<close> Globals, code and stack are not in the modelled memory, so a stray write does
  not reach them; the compiler does not reorder port accesses; an access by virtual address is
  translated only where the kernel tests its mapping, through the tables of \<open>PML4\<close>, which are those in \<open>cr3\<close>;
  all others are to addresses mapped to themselves. From \<open>sti\<close> on, timer and keyboard handlers run between
  two steps of the kernel, a line printed being one step: \<open>init_kernel\<close> and \<open>start_kernel\<close> are given the
  interrupts of each gap as lists, which are arbitrary, and the waiting loop takes them as steps of their
  own. A handler within a step, and the faults' handlers, which do not return, are left out of runs. GCC
  documents what shifting a 1 into the sign of an \<open>int\<close> gives (the masks of \<open>ppa_bitmap_set\<close> and
  \<open>IRQ_set_mask\<close>), so that is taken as defined; a fragment's offset in \<open>ssfn_putc\<close>, font data shifted the
  same way and then meant as a position, is a fault.

  \<^bold>\<open>Not modelled.\<close> The directive \<open>%f\<close>, which the code leaves empty. Prototypes, and the constants and
  structures of \<open>ssfn.h\<close> and \<open>port_io.h\<close> that no code uses. The linker script and the build, except for the addresses of symbols. The UEFI and
  ELF libraries, which are parameters.
\<close>

end
